(* ===== verification/Prelude.thy ===== *)
theory Prelude
  imports Main "HOL-Library.Word"
begin

text \<open>
  What the components share: the result type of kernel code, a byte-addressed memory with
  little-endian 64-bit loads and stores (\<^verbatim>\<open>uint64\<close> and pointer accesses of the kernel), the
  singly linked lists the allocators thread through memory, and the arithmetic lemmas on
  machine words the components use.
\<close>

unbundle bit_operations_syntax

named_theorems res_simps \<open>evaluation of the result type\<close>
named_theorems mem_simps \<open>loads after stores\<close>

section \<open>Types\<close>

text \<open>\<^verbatim>\<open>kernel/types.h\<close>: \<^verbatim>\<open>uint64\<close> and pointers, \<^verbatim>\<open>uint\<close>, \<^verbatim>\<open>uchar\<close>.\<close>

type_synonym addr = "64 word"
type_synonym uint32 = "32 word"
type_synonym byte = "8 word"
type_synonym memory = "addr \<Rightarrow> byte"

section \<open>Results\<close>

text \<open>
  Kernel code returns, calls \<^verbatim>\<open>panic\<close>, does something C leaves undefined (a null
  dereference, an index outside an array, a signed overflow), loops for ever, or, run on its own,
  waits in \<^verbatim>\<open>sleep\<close> for something another process has to do.
\<close>

datatype kfail = Panic string | Fault string | Hang | Block

type_synonym 'a res = "kfail + 'a"

definition bindR :: "'a res \<Rightarrow> ('a \<Rightarrow> 'b res) \<Rightarrow> 'b res" where
  "bindR r f = (case r of Inl e \<Rightarrow> Inl e | Inr x \<Rightarrow> f x)"

definition of_loop :: "'a option \<Rightarrow> 'a res" where
  "of_loop x = (case x of None \<Rightarrow> Inl Hang | Some y \<Rightarrow> Inr y)"

lemma bindR_Inl [simp, res_simps]: "bindR (Inl e) f = Inl e"
  by (simp add: bindR_def)

lemma bindR_Inr [simp, res_simps]: "bindR (Inr x) f = f x"
  by (simp add: bindR_def)

lemma bindR_eq_Inr: "bindR r f = Inr y \<longleftrightarrow> (\<exists>x. r = Inr x \<and> f x = Inr y)"
  by (cases r) auto

lemma bindR_eq_Inl: "bindR r f = Inl e \<longleftrightarrow> r = Inl e \<or> (\<exists>x. r = Inr x \<and> f x = Inl e)"
  by (cases r) auto

lemma bindR_assoc: "bindR (bindR r f) g = bindR r (\<lambda>x. bindR (f x) g)"
  by (cases r) auto

lemma bindR_cong [fundef_cong]:
  "r = r' \<Longrightarrow> (\<And>x. r' = Inr x \<Longrightarrow> f x = g x) \<Longrightarrow> bindR r f = bindR r' g"
  by (cases r') auto

lemma bindR_InrE [elim]:
  assumes "bindR r f = Inr y"
  obtains x where "r = Inr x" and "f x = Inr y"
  using assms by (auto simp: bindR_eq_Inr)

lemma of_loop_simps [simp, res_simps]: "of_loop None = Inl Hang" "of_loop (Some x) = Inr x"
  by (simp_all add: of_loop_def)

section \<open>Words\<close>

lemma of_nat_inj_lt:
  assumes "(i::nat) < 2 ^ 64" and "j < 2 ^ 64"
  shows "(of_nat i :: 64 word) = of_nat j \<longleftrightarrow> i = j"
  using assms by (auto dest!: arg_cong [where f = unat] simp: unat_of_nat take_bit_nat_eq_self)

lemma unat_of_nat_lt [simp]: "(i::nat) < 2 ^ 64 \<Longrightarrow> unat (of_nat i :: 64 word) = i"
  by (simp add: unat_of_nat take_bit_nat_eq_self)

lemma of_nat_eq_0_lt: "(i::nat) < 2 ^ 64 \<Longrightarrow> (of_nat i :: 64 word) = 0 \<longleftrightarrow> i = 0"
  using of_nat_inj_lt [of i 0] by simp

lemma unat64_less: "unat (w :: addr) < 2 ^ 64"
proof -
  have "unat w < 2 ^ LENGTH(64)" by (rule unsigned_less)
  then show ?thesis by simp
qed

lemma offset_iff:
  fixes x d :: addr
  assumes "i < 2 ^ 64"
  shows "x = d + of_nat i \<longleftrightarrow> unat (x - d) = i"
proof
  assume "x = d + of_nat i"
  then show "unat (x - d) = i" using assms by simp
next
  assume "unat (x - d) = i"
  then have "x - d = of_nat i" by (metis unsigned_of_nat of_nat_unat ucast_id)
  then show "x = d + of_nat i" by (simp add: algebra_simps)
qed

lemma unat_uint32_less: "unat (n :: uint32) < 2 ^ 64"
proof -
  have "unat n < 2 ^ LENGTH(32)" by (rule unsigned_less)
  then show ?thesis by simp
qed

lemma unat_ucast_uint32 [simp]: "unat (ucast (n :: uint32) :: addr) = unat n"
proof -
  have "unat n < 2 ^ LENGTH(32)" by (rule unsigned_less)
  then show ?thesis by (simp add: unsigned_ucast_eq take_bit_nat_eq_self)
qed

lemma and_not_mask_word: "w AND NOT (mask k) = push_bit k (drop_bit k w)" for w :: "'a::len word"
  by (rule bit_word_eqI) (auto simp: bit_simps)

lemma unat_and_not_mask: "unat (w AND NOT (mask k)) = unat w div 2 ^ k * 2 ^ k" for w :: addr
proof -
  have "unat w div 2 ^ k * 2 ^ k \<le> unat w" by (rule div_times_less_eq_dividend)
  then have "unat w div 2 ^ k * 2 ^ k < 2 ^ 64" using unat64_less [of w] by linarith
  moreover have "unat (w AND NOT (mask k)) = take_bit 64 (unat w div 2 ^ k * 2 ^ k)"
    by (simp only: and_not_mask_word unsigned_push_bit_eq unsigned_drop_bit_eq)
      (simp add: push_bit_eq_mult drop_bit_eq_div take_bit_nat_eq_self unat64_less [simplified])
  ultimately show ?thesis by (simp add: take_bit_nat_eq_self)
qed

lemma unat_add_neq: "n < unat p \<Longrightarrow> unat q < n \<Longrightarrow> unat (p + q) \<noteq> n" for p q :: addr
  using unat64_less [of p] unat64_less [of q] by (auto simp: unat_plus_if')

section \<open>Memory\<close>

text \<open>An 8-byte little-endian access, as RISC-V performs it.\<close>

definition load64 :: "memory \<Rightarrow> addr \<Rightarrow> 64 word" where
  "load64 m a =
     ucast (m a) OR push_bit 8 (ucast (m (a + 1))) OR push_bit 16 (ucast (m (a + 2))) OR
     push_bit 24 (ucast (m (a + 3))) OR push_bit 32 (ucast (m (a + 4))) OR
     push_bit 40 (ucast (m (a + 5))) OR push_bit 48 (ucast (m (a + 6))) OR
     push_bit 56 (ucast (m (a + 7)))"

definition store64 :: "memory \<Rightarrow> addr \<Rightarrow> 64 word \<Rightarrow> memory" where
  "store64 m a v = (\<lambda>x.
     if x - a < 8 then ucast (drop_bit (8 * unat (x - a)) v) else m x)"

definition apart8 :: "addr \<Rightarrow> addr \<Rightarrow> bool" where
  "apart8 a b \<longleftrightarrow> 8 \<le> b - a \<and> 8 \<le> a - b"

lemma store64_same: "store64 m a v (a + of_nat k) = ucast (drop_bit (8 * k) v)" if "k < 8"
  using that by (simp add: store64_def word_less_nat_alt)

lemma load64_store64 [simp, mem_simps]: "load64 (store64 m a v) a = v"
proof -
  have s: "store64 m a v a = ucast v" "store64 m a v (a + 1) = ucast (drop_bit 8 v)"
    "store64 m a v (a + 2) = ucast (drop_bit 16 v)" "store64 m a v (a + 3) = ucast (drop_bit 24 v)"
    "store64 m a v (a + 4) = ucast (drop_bit 32 v)" "store64 m a v (a + 5) = ucast (drop_bit 40 v)"
    "store64 m a v (a + 6) = ucast (drop_bit 48 v)" "store64 m a v (a + 7) = ucast (drop_bit 56 v)"
    by (simp_all add: store64_def)
  show ?thesis
    unfolding load64_def s
  proof (rule bit_word_eqI, goal_cases)
    case (1 n)
    then have "n < 8 \<or> 8 \<le> n \<and> n < 16 \<or> 16 \<le> n \<and> n < 24 \<or> 24 \<le> n \<and> n < 32 \<or>
        32 \<le> n \<and> n < 40 \<or> 40 \<le> n \<and> n < 48 \<or> 48 \<le> n \<and> n < 56 \<or> 56 \<le> n \<and> n < 64"
      by auto
    then show ?case
      by (elim disjE conjE) (simp_all add: bit_simps less_diff_conv2)
  qed
qed

lemma store64_other: "8 \<le> x - a \<Longrightarrow> store64 m a v x = m x"
  by (auto simp: store64_def dest: leD)

lemma apart8_sym: "apart8 a b \<longleftrightarrow> apart8 b a"
  by (auto simp: apart8_def)

lemma apart8_offset:
  assumes "apart8 a b" and "k < 8"
  shows "8 \<le> b + k - a"
  using assms unfolding apart8_def by unat_arith

lemma load64_store64_apart [mem_simps]:
  assumes "apart8 a b"
  shows "load64 (store64 m a v) b = load64 m b"
proof -
  have "store64 m a v (b + k) = m (b + k)" if "k < 8" for k
    using apart8_offset [OF assms that] by (simp add: store64_other)
  from this [of 0] this [of 1] this [of 2] this [of 3] this [of 4] this [of 5] this [of 6] this [of 7]
  show ?thesis by (simp add: load64_def)
qed

section \<open>Linked lists in memory\<close>

text \<open>
  \<open>chain nx p xs\<close>: following the link \<open>nx\<close> from the pointer \<open>p\<close> visits exactly the nodes
  \<open>xs\<close> and then reaches the null pointer.
\<close>

primrec chain :: "(addr \<Rightarrow> addr) \<Rightarrow> addr \<Rightarrow> addr list \<Rightarrow> bool" where
  "chain nx p [] \<longleftrightarrow> p = 0"
| "chain nx p (x # xs) \<longleftrightarrow> p = x \<and> x \<noteq> 0 \<and> chain nx (nx x) xs"

lemma chain_null [simp]: "chain nx 0 xs \<longleftrightarrow> xs = []"
  by (cases xs) auto

lemma chain_nonnull: "p \<noteq> 0 \<Longrightarrow> chain nx p xs \<longleftrightarrow> (\<exists>ys. xs = p # ys \<and> chain nx (nx p) ys)"
  by (cases xs) auto

lemma chain_cong:
  "(\<And>x. x \<in> set xs \<Longrightarrow> nx x = nx' x) \<Longrightarrow> chain nx p xs \<longleftrightarrow> chain nx' p xs"
  by (induction xs arbitrary: p) auto

lemma chain_not_null: "chain nx p xs \<Longrightarrow> 0 \<notin> set xs"
  by (induction xs arbitrary: p) auto

lemma chain_hd: "chain nx p xs \<Longrightarrow> p = (case xs of [] \<Rightarrow> 0 | x # _ \<Rightarrow> x)"
  by (cases xs) auto

lemma chain_unique: "chain nx p xs \<Longrightarrow> chain nx p ys \<Longrightarrow> xs = ys"
proof (induction xs arbitrary: p ys)
  case (Cons x xs)
  then show ?case by (cases ys) auto
qed auto

lemma chain_drop: "chain nx p (xs @ y # ys) \<Longrightarrow> chain nx y (y # ys)"
  by (induction xs arbitrary: p) auto

lemma chain_distinct: "chain nx p xs \<Longrightarrow> distinct xs"
proof (induction xs arbitrary: p)
  case (Cons x xs)
  have "x \<notin> set xs"
  proof
    assume "x \<in> set xs"
    then obtain as bs where xs: "xs = as @ x # bs" by (auto simp: in_set_conv_decomp)
    have "chain nx (nx x) (as @ x # bs)" using Cons.prems xs by simp
    then have "chain nx x (x # bs)" by (rule chain_drop)
    moreover have "chain nx x (x # as @ x # bs)" using Cons.prems xs by simp
    ultimately have "x # bs = x # as @ x # bs" by (rule chain_unique)
    then show False by simp
  qed
  with Cons show ?case by auto
qed simp

text \<open>The pointer at node \<open>x\<close> is redirected past its successor \<open>y\<close>.\<close>

lemma chain_unlink:
  "chain nx p (xs @ x # y # ys) \<Longrightarrow> nx' x = nx y \<Longrightarrow>
   (\<And>z. z \<in> set (xs @ ys) \<Longrightarrow> nx' z = nx z) \<Longrightarrow> chain nx' p (xs @ x # ys)"
proof (induction xs arbitrary: p)
  case Nil
  then have "chain nx (nx y) ys" by simp
  then have "chain nx' (nx y) ys"
    using Nil.prems(3) chain_cong [of ys nx nx'] by simp
  then show ?case using Nil.prems by simp
qed auto

end
