(* ===== verification/Cstring.thy ===== *)
theory Cstring
  imports Prelude
begin

text \<open>
  \<^verbatim>\<open>kernel/string.c\<close> and the memory and string routines of \<^verbatim>\<open>user/ulib.c\<close>, over a byte memory.
  Counts of type \<^verbatim>\<open>uint\<close> are read with \<open>unat\<close>, counts of type \<^verbatim>\<open>int\<close> are \<open>int\<close>; a loop that
  runs on an unterminated string is a \<^theory_text>\<open>partial_function\<close>.
\<close>

section \<open>Definitions: kernel/string.c\<close>

text \<open>\<^verbatim>\<open>for(i = 0; i < n; i++) cdst[i] = c;\<close>, by the number of iterations left.\<close>

primrec memset_loop :: "nat \<Rightarrow> memory \<Rightarrow> addr \<Rightarrow> byte \<Rightarrow> nat \<Rightarrow> memory" where
  "memset_loop 0 m cdst c i = m"
| "memset_loop (Suc k) m cdst c i = memset_loop k (m(cdst + of_nat i := c)) cdst c (Suc i)"

definition memset :: "memory \<Rightarrow> addr \<Rightarrow> uint32 \<Rightarrow> uint32 \<Rightarrow> memory" where
  "memset m dst c n = memset_loop (unat n) m dst (ucast c) 0"

text \<open>The value of \<^verbatim>\<open>memcmp\<close> is the difference of two \<^verbatim>\<open>uchar\<close> values promoted to \<^verbatim>\<open>int\<close>.\<close>

primrec memcmp_loop :: "memory \<Rightarrow> nat \<Rightarrow> addr \<Rightarrow> addr \<Rightarrow> int" where
  "memcmp_loop m 0 s1 s2 = 0"
| "memcmp_loop m (Suc n) s1 s2 =
     (if m s1 \<noteq> m s2 then uint (m s1) - uint (m s2) else memcmp_loop m n (s1 + 1) (s2 + 1))"

definition memcmp :: "memory \<Rightarrow> addr \<Rightarrow> addr \<Rightarrow> uint32 \<Rightarrow> int" where
  "memcmp m v1 v2 n = memcmp_loop m (unat n) v1 v2"

text \<open>\<^verbatim>\<open>while(n-- > 0) *--d = *--s;\<close> and \<^verbatim>\<open>while(n-- > 0) *d++ = *s++;\<close>\<close>

primrec copy_down :: "nat \<Rightarrow> memory \<Rightarrow> addr \<Rightarrow> addr \<Rightarrow> memory" where
  "copy_down 0 m d s = m"
| "copy_down (Suc n) m d s = copy_down n (m(d - 1 := m (s - 1))) (d - 1) (s - 1)"

primrec copy_up :: "nat \<Rightarrow> memory \<Rightarrow> addr \<Rightarrow> addr \<Rightarrow> memory" where
  "copy_up 0 m d s = m"
| "copy_up (Suc n) m d s = copy_up n (m(d := m s)) (d + 1) (s + 1)"

definition memmove :: "memory \<Rightarrow> addr \<Rightarrow> addr \<Rightarrow> uint32 \<Rightarrow> memory" where
  "memmove m dst src n =
     (if n = 0 then m
      else if src < dst \<and> src + ucast n > dst
      then copy_down (unat n) m (dst + ucast n) (src + ucast n)
      else copy_up (unat n) m dst src)"

definition memcpy :: "memory \<Rightarrow> addr \<Rightarrow> addr \<Rightarrow> uint32 \<Rightarrow> memory" where
  "memcpy m dst src n = memmove m dst src n"

primrec strncmp_loop :: "memory \<Rightarrow> nat \<Rightarrow> addr \<Rightarrow> addr \<Rightarrow> int" where
  "strncmp_loop m 0 p q = 0"
| "strncmp_loop m (Suc n) p q =
     (if m p \<noteq> 0 \<and> m p = m q then strncmp_loop m n (p + 1) (q + 1)
      else uint (m p) - uint (m q))"

definition strncmp :: "memory \<Rightarrow> addr \<Rightarrow> addr \<Rightarrow> uint32 \<Rightarrow> int" where
  "strncmp m p q n = strncmp_loop m (unat n) p q"

text \<open>
  \<^verbatim>\<open>while(n-- > 0 && (*s++ = *t++) != 0); while(n-- > 0) *s++ = 0;\<close> The first loop leaves in
  \<open>n\<close> the count after the decrement of the test that ended it, so that the second loop starts
  from the bytes not yet written.
\<close>

primrec zero_fill :: "nat \<Rightarrow> memory \<Rightarrow> addr \<Rightarrow> memory" where
  "zero_fill 0 m s = m"
| "zero_fill (Suc n) m s = zero_fill n (m(s := 0)) (s + 1)"

primrec strncpy_loop :: "nat \<Rightarrow> memory \<Rightarrow> addr \<Rightarrow> addr \<Rightarrow> memory" where
  "strncpy_loop 0 m s t = m"
| "strncpy_loop (Suc n) m s t =
     (let m' = m(s := m t)
      in if m t \<noteq> 0 then strncpy_loop n m' (s + 1) (t + 1) else zero_fill n m' (s + 1))"

definition strncpy :: "memory \<Rightarrow> addr \<Rightarrow> addr \<Rightarrow> int \<Rightarrow> memory" where
  "strncpy m s t n = strncpy_loop (nat n) m s t"

text \<open>\<^verbatim>\<open>while(--n > 0 && (*s++ = *t++) != 0); *s = 0;\<close>\<close>

primrec safestrcpy_loop :: "nat \<Rightarrow> memory \<Rightarrow> addr \<Rightarrow> addr \<Rightarrow> memory" where
  "safestrcpy_loop 0 m s t = m(s := 0)"
| "safestrcpy_loop (Suc n) m s t =
     (let m' = m(s := m t)
      in if m t \<noteq> 0 then safestrcpy_loop n m' (s + 1) (t + 1) else m'(s + 1 := 0))"

definition safestrcpy :: "memory \<Rightarrow> addr \<Rightarrow> addr \<Rightarrow> int \<Rightarrow> memory" where
  "safestrcpy m s t n = (if n \<le> 0 then m else safestrcpy_loop (nat (n - 1)) m s t)"

partial_function (option) strlen_loop :: "memory \<Rightarrow> addr \<Rightarrow> int \<Rightarrow> int option" where
  "strlen_loop m s n = (if m (s + of_int n) \<noteq> 0 then strlen_loop m s (n + 1) else Some n)"

definition strlen :: "memory \<Rightarrow> addr \<Rightarrow> int option" where
  "strlen m s = strlen_loop m s 0"

section \<open>Definitions: user/ulib.c\<close>

partial_function (option) strcpy :: "memory \<Rightarrow> addr \<Rightarrow> addr \<Rightarrow> memory option" where
  "strcpy m s t =
     (let m' = m(s := m t) in if m t \<noteq> 0 then strcpy m' (s + 1) (t + 1) else Some m')"

partial_function (option) strcmp :: "memory \<Rightarrow> addr \<Rightarrow> addr \<Rightarrow> int option" where
  "strcmp m p q =
     (if m p \<noteq> 0 \<and> m p = m q then strcmp m (p + 1) (q + 1) else Some (uint (m p) - uint (m q)))"

text \<open>The null pointer, 0, when the character does not occur.\<close>

partial_function (option) strchr :: "memory \<Rightarrow> addr \<Rightarrow> byte \<Rightarrow> addr option" where
  "strchr m s c =
     (if m s = 0 then Some 0 else if m s = c then Some s else strchr m (s + 1) c)"

text \<open>\<^verbatim>\<open>n = n*10 + *s++ - '0'\<close> in \<^verbatim>\<open>int\<close>, whose overflow C leaves undefined.\<close>

partial_function (option) atoi_loop :: "memory \<Rightarrow> addr \<Rightarrow> int \<Rightarrow> int res option" where
  "atoi_loop m s n =
     (if 48 \<le> m s \<and> m s \<le> 57 then
        (let n' = n * 10 + uint (m s) in
           if n' < 2 ^ 31 then atoi_loop m (s + 1) (n' - 48) else Some (Inl (Fault ''atoi: overflow'')))
      else Some (Inr n))"

definition atoi :: "memory \<Rightarrow> addr \<Rightarrow> int res option" where
  "atoi m s = atoi_loop m s 0"

definition ulib_memmove :: "memory \<Rightarrow> addr \<Rightarrow> addr \<Rightarrow> int \<Rightarrow> memory" where
  "ulib_memmove m vdst vsrc n =
     (if vsrc > vdst then copy_up (nat n) m vdst vsrc
      else copy_down (nat n) m (vdst + of_int n) (vsrc + of_int n))"

text \<open>\<^verbatim>\<open>char\<close> is unsigned on RISC-V, so \<^verbatim>\<open>*p1 - *p2\<close> is the kernel's difference of \<^verbatim>\<open>uchar\<close>s.\<close>

definition ulib_memcmp :: "memory \<Rightarrow> addr \<Rightarrow> addr \<Rightarrow> uint32 \<Rightarrow> int" where
  "ulib_memcmp m s1 s2 n = memcmp_loop m (unat n) s1 s2"

text \<open>A byte of a string given by its bytes before the NUL.\<close>

definition chr :: "byte list \<Rightarrow> nat \<Rightarrow> byte" where
  "chr s i = (if i < length s then s ! i else 0)"

section \<open>Block operations\<close>

lemma memset_loop_eq:
  "i + k < 2 ^ 64 \<Longrightarrow>
   memset_loop k m d c i x = (if i \<le> unat (x - d) \<and> unat (x - d) < i + k then c else m x)"
proof (induction k arbitrary: m i)
  case (Suc k)
  let ?m = "m(d + of_nat i := c)"
  have ih: "memset_loop k ?m d c (Suc i) x =
      (if Suc i \<le> unat (x - d) \<and> unat (x - d) < Suc i + k then c else ?m x)"
    by (rule Suc.IH) (use Suc.prems in simp)
  have "x = d + of_nat i \<longleftrightarrow> unat (x - d) = i"
    using Suc.prems by (intro offset_iff) simp
  then show ?case by (auto simp: ih)
qed auto

lemma memset_eq: "memset m d c n = (\<lambda>x. if x - d < ucast n then ucast c else m x)"
  using unat_uint32_less [of n]
  by (simp add: fun_eq_iff memset_def memset_loop_eq word_less_nat_alt)

lemma copy_up_eq:
  "n < 2 ^ 64 \<Longrightarrow> d = s \<or> n \<le> unat (d - s) \<Longrightarrow>
   copy_up n m d s x = (if unat (x - d) < n then m (s + (x - d)) else m x)"
proof (induction n arbitrary: m d s)
  case (Suc n)
  have cond: "d + 1 = s + 1 \<or> n \<le> unat ((d + 1) - (s + 1))" using Suc.prems by auto
  have ih: "copy_up n (m(d := m s)) (d + 1) (s + 1) x =
      (if unat (x - (d + 1)) < n then (m(d := m s)) (s + 1 + (x - (d + 1))) else (m(d := m s)) x)"
    using Suc.IH [OF _ cond] Suc.prems(1) by simp
  show ?case
  proof (cases "x = d")
    case True
    have "x - (d + 1) = - 1" using True by simp
    then have "unat (x - (d + 1)) = 2 ^ 64 - 1" by (simp add: unsigned_minus_1_eq_mask mask_eq_exp_minus_1)
    then have "\<not> unat (x - (d + 1)) < n" using Suc.prems(1) by simp
    then show ?thesis using True by (simp add: ih [unfolded True] del: diff_add_eq_diff_diff_swap)
  next
    case False
    then have nz: "x - d \<noteq> 0" by simp
    have eq: "x - (d + 1) = (x - d) - 1" by simp
    have one: "unat (x - (d + 1)) = unat (x - d) - 1"
      unfolding eq by (rule unat_minus_one [OF nz])
    have "s + (x - d) \<noteq> d" if "unat (x - d) < Suc n"
    proof
      assume "s + (x - d) = d"
      then have "x - d = d - s" by (simp add: algebra_simps)
      then show False using Suc.prems(2) nz that by auto
    qed
    moreover have "unat (x - d) > 0" using nz by (simp add: unat_gt_0)
    moreover have "s + 1 + (x - (d + 1)) = s + (x - d)" by simp
    ultimately show ?thesis using False by (auto simp: ih one)
  qed
qed simp

lemma copy_down_eq:
  "n < 2 ^ 64 \<Longrightarrow> d = s \<or> n \<le> unat (s - d) \<Longrightarrow>
   copy_down n m (d + of_nat n) (s + of_nat n) x = (if unat (x - d) < n then m (s + (x - d)) else m x)"
proof (induction n arbitrary: m)
  case (Suc n)
  let ?m = "m(d + of_nat n := m (s + of_nat n))"
  have ih: "copy_down n ?m (d + of_nat n) (s + of_nat n) x =
      (if unat (x - d) < n then ?m (s + (x - d)) else ?m x)"
    using Suc.IH Suc.prems by auto
  have eq: "copy_down (Suc n) m (d + of_nat (Suc n)) (s + of_nat (Suc n)) x =
      copy_down n ?m (d + of_nat n) (s + of_nat n) x"
    by simp
  have at: "x = d + of_nat n \<longleftrightarrow> unat (x - d) = n"
    using Suc.prems(1) by (intro offset_iff) simp
  have "s + (x - d) \<noteq> d + of_nat n" if "unat (x - d) < n"
  proof
    assume "s + (x - d) = d + of_nat n"
    then have "(s - d) + (x - d) = of_nat n" by (simp add: algebra_simps)
    then have "unat ((s - d) + (x - d)) = n" using Suc.prems(1) by simp
    moreover have "s \<noteq> d" using \<open>s + (x - d) = d + of_nat n\<close> at that by auto
    ultimately show False using unat_add_neq [of n "s - d" "x - d"] Suc.prems(2) that by simp
  qed
  then show ?case unfolding eq ih using at by auto
qed simp
lemma memmove_eq:
  assumes "unat src + unat n < 2 ^ 64" and "unat dst + unat n \<le> 2 ^ 64"
  shows "memmove m dst src n = (\<lambda>x. if x - dst < ucast n then m (src + (x - dst)) else m x)"
proof (cases "n = 0")
  case False
  have lt: "unat (src + ucast n) = unat src + unat n"
    using assms(1) by (subst unat_add_lem [THEN iffD1]) simp_all
  show ?thesis
  proof (cases "src < dst \<and> src + ucast n > dst")
    case True
    then have "unat src < unat dst" "unat dst < unat src + unat n"
      using lt by (simp_all add: word_less_nat_alt)
    then have "unat n \<le> unat (src - dst)" using assms(2) by (simp add: unat_sub_if')
    with True False show ?thesis
      using copy_down_eq [OF unat_uint32_less, of dst src n m]
      by (auto simp: memmove_def fun_eq_iff word_less_nat_alt)
  next
    case nodown: False
    then have "dst = src \<or> unat n \<le> unat (dst - src)"
      using lt assms(1) by (auto simp: word_less_nat_alt unat_sub_if' word_unat_eq_iff)
    with False nodown show ?thesis
      using copy_up_eq [OF unat_uint32_less, of dst src n m]
      by (auto simp: memmove_def fun_eq_iff word_less_nat_alt)
  qed
qed (simp add: memmove_def)

lemma ulib_memmove_eq:
  assumes "0 \<le> n" and "unat src + nat n < 2 ^ 64" and "unat dst + nat n \<le> 2 ^ 64"
  shows "ulib_memmove m dst src n =
    (\<lambda>x. if unat (x - dst) < nat n then m (src + (x - dst)) else m x)"
proof -
  have n: "nat n < 2 ^ 64" using assms(2) by simp
  have of: "(of_int n :: addr) = of_nat (nat n)" using assms(1) by simp
  show ?thesis
  proof (cases "src > dst")
    case True
    then have "nat n \<le> unat (dst - src)"
      using assms(2) by (simp add: word_less_nat_alt unat_sub_if')
    with True show ?thesis
      using copy_up_eq [OF n, of dst src m] by (simp add: ulib_memmove_def fun_eq_iff)
  next
    case False
    then have "dst = src \<or> nat n \<le> unat (src - dst)"
      using assms(3) by (auto simp: word_less_nat_alt unat_sub_if' word_unat_eq_iff)
    with False show ?thesis
      using copy_down_eq [OF n, of dst src m] unfolding of
      by (simp add: ulib_memmove_def fun_eq_iff of)
  qed
qed

lemma memcmp_loop_0:
  "memcmp_loop m n p q = 0 \<longleftrightarrow> (\<forall>i < n. m (p + of_nat i) = m (q + of_nat i))"
proof (induction n arbitrary: p q)
  case (Suc n)
  have "(\<forall>i < Suc n. P i) \<longleftrightarrow> P 0 \<and> (\<forall>i < n. P (Suc i))" for P
    using less_Suc_eq_0_disj by auto
  with Suc.IH [of "p + 1" "q + 1"] show ?case
    by (auto simp: algebra_simps uint_word_of_int_eq dest: word_uint_eqI)
qed simp

section \<open>Strings\<close>

text \<open>\<open>cstr m s xs\<close>: the NUL-terminated string at \<open>s\<close> has the bytes \<open>xs\<close>.\<close>

primrec cstr :: "memory \<Rightarrow> addr \<Rightarrow> byte list \<Rightarrow> bool" where
  "cstr m s [] \<longleftrightarrow> m s = 0"
| "cstr m s (x # xs) \<longleftrightarrow> m s = x \<and> x \<noteq> 0 \<and> cstr m (s + 1) xs"

lemma cstr_cong:
  "(\<And>i. i \<le> length xs \<Longrightarrow> m (s + of_nat i) = m' (s + of_nat i)) \<Longrightarrow> cstr m s xs \<longleftrightarrow> cstr m' s xs"
proof (induction xs arbitrary: s)
  case (Cons x xs)
  have "cstr m (s + 1) xs \<longleftrightarrow> cstr m' (s + 1) xs"
    by (rule Cons.IH) (use Cons.prems [of "Suc _"] in \<open>simp add: algebra_simps\<close>)
  with Cons.prems [of 0] show ?case by simp
qed (use of_nat_0 in force)

lemma strlen_loop_eq:
  "cstr m (s + of_int n) xs \<Longrightarrow> strlen_loop m s n = Some (n + int (length xs))"
proof (induction xs arbitrary: n)
  case (Cons x xs)
  have "strlen_loop m s (n + 1) = Some (n + 1 + int (length xs))"
    by (rule Cons.IH) (use Cons.prems in \<open>simp add: algebra_simps\<close>)
  with Cons.prems show ?case by (subst strlen_loop.simps) simp
qed (subst strlen_loop.simps, simp)

lemma strlen_eq: "cstr m s xs \<Longrightarrow> strlen m s = Some (int (length xs))"
  using strlen_loop_eq [of m s 0 xs] by (simp add: strlen_def)

lemma strncmp_loop_0:
  "cstr m p xs \<Longrightarrow> cstr m q ys \<Longrightarrow> strncmp_loop m n p q = 0 \<longleftrightarrow> take n xs = take n ys"
proof (induction n arbitrary: p q xs ys)
  case (Suc n)
  then show ?case
    by (cases xs; cases ys) (auto simp: uint_0_iff dest: word_uint_eqI)
qed simp

text \<open>The \<open>n\<close> bytes at \<open>s\<close> and the \<open>k\<close> bytes at \<open>t\<close> do not meet.\<close>

definition separate :: "addr \<Rightarrow> nat \<Rightarrow> addr \<Rightarrow> nat \<Rightarrow> bool" where
  "separate s n t k \<longleftrightarrow> (\<forall>i < n. \<forall>j < k. s + of_nat i \<noteq> t + of_nat j)"

lemma separate_tl: "separate s (Suc n) t (Suc k) \<Longrightarrow> separate (s + 1) n (t + 1) k"
proof (unfold separate_def, intro allI impI)
  fix i j
  assume *: "\<forall>i<Suc n. \<forall>j<Suc k. s + of_nat i \<noteq> t + of_nat j" and "i < n" "j < k"
  then have "s + of_nat (Suc i) \<noteq> t + of_nat (Suc j)" by simp
  then show "s + 1 + of_nat i \<noteq> t + 1 + of_nat j" by (simp add: add.assoc)
qed

lemma separate_hd: "separate s (Suc n) t k \<Longrightarrow> j < k \<Longrightarrow> s \<noteq> t + of_nat j"
  unfolding separate_def using zero_less_Suc [of n] by fastforce

lemma cstr_upd_separate:
  assumes "cstr m t xs" and "separate s (Suc n) t (Suc (length xs))"
  shows "cstr (m(s := v)) t xs"
proof -
  have "m (t + of_nat i) = (m(s := v)) (t + of_nat i)" if "i \<le> length xs" for i
    using separate_hd [OF assms(2), of i] that by auto
  then show ?thesis using assms(1) cstr_cong [of xs m t "m(s := v)"] by blast
qed

lemma safestrcpy_loop_frame: "k < unat (x - s) \<Longrightarrow> safestrcpy_loop k m s t x = m x"
proof (induction k arbitrary: m s t)
  case (Suc k)
  have ne: "x \<noteq> s" "x \<noteq> s + 1" using Suc.prems by auto
  have eq: "x - (s + 1) = (x - s) - 1" by simp
  have "unat (x - (s + 1)) = unat (x - s) - 1"
    unfolding eq by (rule unat_minus_one) (use ne in simp)
  then have "k < unat (x - (s + 1))" using Suc.prems by simp
  then show ?case using Suc.IH ne by (simp add: Let_def)
qed auto

lemma safestrcpy_loop_cstr:
  "cstr m t xs \<Longrightarrow> separate s (Suc k) t (Suc (length xs)) \<Longrightarrow> k < 2 ^ 63 \<Longrightarrow>
   cstr (safestrcpy_loop k m s t) s (take k xs)"
proof (induction k arbitrary: m s t xs)
  case (Suc k)
  show ?case
  proof (cases xs)
    case Nil
    have "s + 1 \<noteq> s" by simp
    then show ?thesis using Suc.prems Nil by (simp add: Let_def)
  next
    case (Cons y ys)
    let ?m = "m(s := m t)"
    have "cstr ?m (t + 1) ys"
      using cstr_upd_separate [OF Suc.prems(1,2)] Cons by simp
    then have ih: "cstr (safestrcpy_loop k ?m (s + 1) (t + 1)) (s + 1) (take k ys)"
      by (rule Suc.IH) (use Suc.prems(2,3) Cons separate_tl in auto)
    have "unat (s - (s + 1)) = 2 ^ 64 - 1"
      by (simp add: unsigned_minus_1_eq_mask mask_eq_exp_minus_1)
    then have "safestrcpy_loop k ?m (s + 1) (t + 1) s = m t"
      using safestrcpy_loop_frame [of k s "s + 1" ?m "t + 1"] Suc.prems(3) by simp
    with ih Suc.prems(1) Cons show ?thesis by (simp add: Let_def)
  qed
qed simp
section \<open>Properties\<close>

text \<open>C16: Overlapping copies. When neither range wraps around the address space, the kernel's
  \<^verbatim>\<open>memmove\<close> leaves in the \<open>n\<close> bytes at \<open>dst\<close> what the \<open>n\<close> bytes at \<open>src\<close> held before the call,
  also when the ranges overlap, and changes no other byte; the user library's \<^verbatim>\<open>memmove\<close>, which
  chooses the copying direction by another test, computes the same memory.\<close>

theorem memmove_overlap:
  assumes "unat src + unat n < 2 ^ 64" and "unat dst + unat n \<le> 2 ^ 64"
  shows "memmove m dst src n = (\<lambda>x. if x - dst < ucast n then m (src + (x - dst)) else m x) \<and>
    ulib_memmove m dst src (uint n) = memmove m dst src n"
proof -
  have "nat (uint n) = unat n" by simp
  then show ?thesis
    using memmove_eq [OF assms, of m] ulib_memmove_eq [of "uint n" src dst m] assms
    by (simp add: fun_eq_iff word_less_nat_alt)
qed

theorem memmove_overlap_witness:
  "memmove (\<lambda>a. ucast a) 101 100 3 = (\<lambda>x. if x - 101 < 3 then ucast (100 + (x - 101)) else ucast x) \<and>
   ulib_memmove (\<lambda>a. ucast a) 101 100 3 = memmove (\<lambda>a. ucast a) 101 100 3"
  using memmove_overlap [of 100 3 101 "\<lambda>a. ucast a"] by simp

text \<open>C17: \<^verbatim>\<open>safestrcpy\<close> always leaves a NUL-terminated string: the first \<open>n - 1\<close> bytes of the
  source string, or all of it when it is shorter; and it writes inside the \<open>n\<close> bytes of the
  destination only.\<close>

theorem safestrcpy_terminated:
  assumes "cstr m t xs" and "0 < n" and "n \<le> 2 ^ 31" and "separate s (nat n) t (Suc (length xs))"
  shows "cstr (safestrcpy m s t n) s (take (nat n - 1) xs) \<and>
    (\<forall>x. nat n \<le> unat (x - s) \<longrightarrow> safestrcpy m s t n x = m x)"
proof -
  have n: "nat n = Suc (nat (n - 1))" "nat n - 1 = nat (n - 1)" using assms(2) by auto
  have "cstr (safestrcpy_loop (nat (n - 1)) m s t) s (take (nat (n - 1)) xs)"
    using assms n by (intro safestrcpy_loop_cstr) auto
  then show ?thesis
    using assms(2) n safestrcpy_loop_frame [of "nat (n - 1)" _ s m t] by (simp add: safestrcpy_def)
qed

theorem safestrcpy_terminated_witness:
  "cstr (safestrcpy ((\<lambda>_. 7)(50 := 104, 51 := 105, 52 := 0)) 20 50 2) 20 [104]"
proof -
  have "nat 2 = Suc (Suc 0)" by simp
  then have "separate 20 (nat 2) 50 (Suc (length [104 :: byte, 105]))"
    by (simp only:) (simp add: separate_def All_less_Suc)
  then show ?thesis
    using safestrcpy_terminated [of "(\<lambda>_. 7)(50 := 104, 51 := 105, 52 := 0)" 50 "[104, 105]" 2 20]
    by simp
qed

end
