(* ===== verification/Spinlock.thy ===== *)
theory Spinlock
  imports Prelude
begin

text \<open>
  \<^verbatim>\<open>kernel/spinlock.c\<close>. The first part is the code as it runs on several CPUs: the lock word,
  the interrupt-enable bit and the nesting count of \<^verbatim>\<open>push_off\<close>, and a step relation in which
  the CPUs interleave at every access to a lock. Its invariant gives mutual exclusion and that
  no CPU takes an interrupt while it holds a lock. The second part is the view one CPU has of
  it, the set \<open>held\<close> of locks it holds, over which the other components are written.
\<close>

section \<open>The locks of the kernel\<close>

datatype lockid =
    L_kmem | L_buddy | L_cache_list | L_buffer_cache | L_cache addr
  | L_pid | L_wait | L_proc nat | L_ticks
  | L_bcache | L_log | L_itable | L_ftable | L_pipe addr
  | L_cons | L_tx | L_vdisk | L_pr | L_sleep addr

section \<open>Locks and CPUs\<close>

text \<open>\<^verbatim>\<open>struct spinlock\<close>; a \<^verbatim>\<open>struct cpu *\<close> is the CPU's index, \<open>None\<close> the null pointer.\<close>

record spinlock =
  locked :: uint32
  lk_name :: string
  lk_cpu :: "nat option"

text \<open>
  The fields \<^verbatim>\<open>noff\<close> and \<^verbatim>\<open>intena\<close> of \<^verbatim>\<open>struct cpu\<close>, and the \<^verbatim>\<open>SSTATUS_SIE\<close> bit of the CPU,
  which \<^verbatim>\<open>intr_get\<close>, \<^verbatim>\<open>intr_on\<close> and \<^verbatim>\<open>intr_off\<close> read and write.
\<close>

record cpu =
  noff :: int
  intena :: bool
  sie :: bool

record spin_st =
  locks :: "lockid \<Rightarrow> spinlock"
  cpus :: "nat \<Rightarrow> cpu"

definition set_cpu :: "nat \<Rightarrow> (cpu \<Rightarrow> cpu) \<Rightarrow> spin_st \<Rightarrow> spin_st" where
  "set_cpu c f s = s\<lparr>cpus := (cpus s)(c := f (cpus s c))\<rparr>"

definition set_lock :: "lockid \<Rightarrow> (spinlock \<Rightarrow> spinlock) \<Rightarrow> spin_st \<Rightarrow> spin_st" where
  "set_lock L f s = s\<lparr>locks := (locks s)(L := f (locks s L))\<rparr>"

definition intr_get :: "nat \<Rightarrow> spin_st \<Rightarrow> bool" where
  "intr_get c s = sie (cpus s c)"

definition intr_on :: "nat \<Rightarrow> spin_st \<Rightarrow> spin_st" where
  "intr_on c = set_cpu c (sie_update (\<lambda>_. True))"

definition intr_off :: "nat \<Rightarrow> spin_st \<Rightarrow> spin_st" where
  "intr_off c = set_cpu c (sie_update (\<lambda>_. False))"

definition initlock :: "lockid \<Rightarrow> string \<Rightarrow> spin_st \<Rightarrow> spin_st" where
  "initlock L nm = set_lock L (\<lambda>_. \<lparr>locked = 0, lk_name = nm, lk_cpu = None\<rparr>)"

definition spin_holding :: "nat \<Rightarrow> lockid \<Rightarrow> spin_st \<Rightarrow> bool" where
  "spin_holding c L s \<longleftrightarrow> locked (locks s L) \<noteq> 0 \<and> lk_cpu (locks s L) = Some c"

definition push_off :: "nat \<Rightarrow> spin_st \<Rightarrow> spin_st" where
  "push_off c s =
     (let old = intr_get c s;
          s = intr_off c s;
          s = (if noff (cpus s c) = 0 then set_cpu c (intena_update (\<lambda>_. old)) s else s)
      in set_cpu c (noff_update (\<lambda>n. n + 1)) s)"

definition pop_off :: "nat \<Rightarrow> spin_st \<Rightarrow> spin_st res" where
  "pop_off c s =
     (if intr_get c s then Inl (Panic ''pop_off - interruptible'')
      else if noff (cpus s c) < 1 then Inl (Panic ''pop_off'')
      else
        (let s = set_cpu c (noff_update (\<lambda>n. n - 1)) s
         in Inr (if noff (cpus s c) = 0 \<and> intena (cpus s c) then intr_on c s else s)))"

text \<open>
  \<^verbatim>\<open>acquire\<close> run by CPU \<open>c\<close> while no other CPU moves: the atomic swap either finds the lock
  free, or the loop spins for ever.
\<close>

definition spin_acquire :: "nat \<Rightarrow> lockid \<Rightarrow> spin_st \<Rightarrow> spin_st res" where
  "spin_acquire c L s =
     (let s = push_off c s
      in if spin_holding c L s then Inl (Panic ''acquire'')
         else if locked (locks s L) \<noteq> 0 then Inl Hang
         else Inr (set_lock L (lk_cpu_update (\<lambda>_. Some c)) (set_lock L (locked_update (\<lambda>_. 1)) s)))"

definition spin_release :: "nat \<Rightarrow> lockid \<Rightarrow> spin_st \<Rightarrow> spin_st res" where
  "spin_release c L s =
     (if \<not> spin_holding c L s then Inl (Panic ''release'')
      else
        (let s = set_lock L (lk_cpu_update (\<lambda>_. None)) s;
             s = set_lock L (locked_update (\<lambda>_. 0)) s
         in pop_off c s))"

lemmas spin_defs = set_cpu_def set_lock_def intr_get_def intr_on_def intr_off_def
  spin_holding_def push_off_def pop_off_def

section \<open>Interleaved execution\<close>

text \<open>
  Where each CPU is: in kernel code outside the lock functions; spinning in \<^verbatim>\<open>acquire\<close> (after
  \<^verbatim>\<open>push_off\<close> and the \<^verbatim>\<open>holding\<close> check); past the successful swap, before \<^verbatim>\<open>lk->cpu = mycpu()\<close>;
  in \<^verbatim>\<open>release\<close> after \<^verbatim>\<open>lk->cpu = 0\<close>; in \<^verbatim>\<open>release\<close> after the lock word is cleared, before
  \<^verbatim>\<open>pop_off\<close>.
\<close>

datatype pc = Run | Spin lockid | Swapped lockid | Unowned lockid | Cleared

record mstate =
  spin :: spin_st
  pcs :: "nat \<Rightarrow> pc"

definition goto :: "nat \<Rightarrow> pc \<Rightarrow> spin_st \<Rightarrow> mstate \<Rightarrow> mstate" where
  "goto c p t s = s\<lparr>spin := t, pcs := (pcs s)(c := p)\<rparr>"

inductive lstep :: "mstate \<Rightarrow> mstate \<Rightarrow> bool" where
  acq_enter: "pcs s c = Run \<Longrightarrow> \<not> spin_holding c L (push_off c (spin s)) \<Longrightarrow>
     lstep s (goto c (Spin L) (push_off c (spin s)) s)"
| acq_spin: "pcs s c = Spin L \<Longrightarrow> locked (locks (spin s) L) \<noteq> 0 \<Longrightarrow>
     lstep s (goto c (Spin L) (set_lock L (locked_update (\<lambda>_. 1)) (spin s)) s)"
| acq_swap: "pcs s c = Spin L \<Longrightarrow> locked (locks (spin s) L) = 0 \<Longrightarrow>
     lstep s (goto c (Swapped L) (set_lock L (locked_update (\<lambda>_. 1)) (spin s)) s)"
| acq_done: "pcs s c = Swapped L \<Longrightarrow>
     lstep s (goto c Run (set_lock L (lk_cpu_update (\<lambda>_. Some c)) (spin s)) s)"
| rel_enter: "pcs s c = Run \<Longrightarrow> spin_holding c L (spin s) \<Longrightarrow>
     lstep s (goto c (Unowned L) (set_lock L (lk_cpu_update (\<lambda>_. None)) (spin s)) s)"
| rel_clear: "pcs s c = Unowned L \<Longrightarrow>
     lstep s (goto c Cleared (set_lock L (locked_update (\<lambda>_. 0)) (spin s)) s)"
| rel_done: "pcs s c = Cleared \<Longrightarrow> pop_off c (spin s) = Inr t \<Longrightarrow>
     lstep s (goto c Run t s)"
| enable: "pcs s c = Run \<Longrightarrow> noff (cpus (spin s) c) = 0 \<Longrightarrow>
     lstep s (goto c Run (intr_on c (spin s)) s)"

definition mstart :: "mstate \<Rightarrow> bool" where
  "mstart s \<longleftrightarrow> (\<forall>L. locked (locks (spin s) L) = 0 \<and> lk_cpu (locks (spin s) L) = None) \<and>
     (\<forall>c. noff (cpus (spin s) c) = 0 \<and> pcs s c = Run)"

inductive mreach :: "mstate \<Rightarrow> bool" where
  start: "mstart s \<Longrightarrow> mreach s"
| step: "mreach s \<Longrightarrow> lstep s t \<Longrightarrow> mreach t"

text \<open>CPU \<open>c\<close> owns \<open>L\<close> from its swap until it clears the lock word.\<close>

definition in_window :: "pc \<Rightarrow> lockid \<Rightarrow> bool" where
  "in_window p L \<longleftrightarrow> p = Swapped L \<or> p = Unowned L"

definition owns :: "mstate \<Rightarrow> nat \<Rightarrow> lockid set" where
  "owns s c = {L. in_window (pcs s c) L \<or> lk_cpu (locks (spin s) L) = Some c}"

text \<open>\<^verbatim>\<open>push_off\<close> calls not yet undone that belong to no owned lock.\<close>

definition pending :: "pc \<Rightarrow> int" where
  "pending p = (case p of Run \<Rightarrow> 0 | Swapped _ \<Rightarrow> 0 | Unowned _ \<Rightarrow> 0 | Spin _ \<Rightarrow> 1 | Cleared \<Rightarrow> 1)"

definition lock_inv :: "mstate \<Rightarrow> lockid \<Rightarrow> bool" where
  "lock_inv s L \<longleftrightarrow>
     (\<forall>c. L \<in> owns s c \<longrightarrow> locked (locks (spin s) L) \<noteq> 0 \<and> (\<forall>d. L \<in> owns s d \<longrightarrow> d = c)) \<and>
     (\<forall>c. in_window (pcs s c) L \<longrightarrow> lk_cpu (locks (spin s) L) = None)"

definition cpu_inv :: "mstate \<Rightarrow> nat \<Rightarrow> bool" where
  "cpu_inv s c \<longleftrightarrow>
     finite (owns s c) \<and>
     noff (cpus (spin s) c) = int (card (owns s c)) + pending (pcs s c) \<and>
     (noff (cpus (spin s) c) > 0 \<longrightarrow> \<not> sie (cpus (spin s) c))"

definition spin_inv :: "mstate \<Rightarrow> bool" where
  "spin_inv s \<longleftrightarrow> (\<forall>L. lock_inv s L) \<and> (\<forall>c. cpu_inv s c)"

lemma in_window_simps [simp]:
  "in_window (Swapped L) M \<longleftrightarrow> M = L" "in_window (Unowned L) M \<longleftrightarrow> M = L"
  "\<not> in_window Run M" "\<not> in_window (Spin L) M" "\<not> in_window Cleared M"
  by (auto simp: in_window_def)

lemma pending_simps [simp]:
  "pending Run = 0" "pending (Swapped L) = 0" "pending (Unowned L) = 0"
  "pending (Spin L) = 1" "pending Cleared = 1"
  by (simp_all add: pending_def)

lemma goto_simps [simp]:
  "spin (goto c p t s) = t" "pcs (goto c p t s) = (pcs s)(c := p)"
  by (simp_all add: goto_def)

lemma push_off_simps [simp]:
  "locks (push_off c s) = locks s"
  "noff (cpus (push_off c s) d) = (if d = c then noff (cpus s c) + 1 else noff (cpus s d))"
  "sie (cpus (push_off c s) d) = (if d = c then False else sie (cpus s d))"
  by (auto simp: spin_defs Let_def)

lemma set_lock_simps [simp]:
  "cpus (set_lock L f s) = cpus s"
  "locks (set_lock L f s) M = (if M = L then f (locks s L) else locks s M)"
  by (auto simp: set_lock_def)

lemma mstart_inv: "mstart s \<Longrightarrow> spin_inv s"
  by (auto simp: mstart_def spin_inv_def lock_inv_def cpu_inv_def owns_def)

text \<open>Ownership after each kind of step.\<close>

lemma owns_goto:
  "owns (goto c p t s) d =
     {L. in_window (if d = c then p else pcs s d) L \<or> lk_cpu (locks t L) = Some d}"
  by (simp add: owns_def)

lemma spin_inv_same:
  assumes inv: "spin_inv s"
    and own: "\<And>d. owns t d = owns s d"
    and lk: "\<And>M. locked (locks (spin s) M) \<noteq> 0 \<Longrightarrow> locked (locks (spin t) M) \<noteq> 0"
    and win: "\<And>d M. in_window (pcs t d) M \<Longrightarrow> lk_cpu (locks (spin t) M) = None"
    and cpu: "\<And>d. noff (cpus (spin t) d) - pending (pcs t d) =
                  noff (cpus (spin s) d) - pending (pcs s d)"
    and sie: "\<And>d. noff (cpus (spin t) d) > 0 \<Longrightarrow> \<not> sie (cpus (spin t) d)"
  shows "spin_inv t"
proof -
  have "lock_inv t L" for L
    using inv lk win unfolding spin_inv_def lock_inv_def own by blast
  moreover have "cpu_inv t c" for c
    using inv cpu [of c] sie [of c] unfolding spin_inv_def cpu_inv_def own by fastforce
  ultimately show ?thesis by (simp add: spin_inv_def)
qed

lemma spin_inv_window:
  "spin_inv s \<Longrightarrow> in_window (pcs s c) L \<Longrightarrow> lk_cpu (locks (spin s) L) = None"
  by (auto simp: spin_inv_def lock_inv_def)

lemma spin_inv_owner: "spin_inv s \<Longrightarrow> L \<in> owns s c \<Longrightarrow> L \<in> owns s d \<Longrightarrow> c = d"
  by (auto simp: spin_inv_def lock_inv_def)

lemma spin_inv_locked: "spin_inv s \<Longrightarrow> L \<in> owns s c \<Longrightarrow> locked (locks (spin s) L) \<noteq> 0"
  by (auto simp: spin_inv_def lock_inv_def)

lemma spin_inv_cpu: "spin_inv s \<Longrightarrow> cpu_inv s c"
  by (simp add: spin_inv_def)

lemma spin_inv_sie: "spin_inv s \<Longrightarrow> noff (cpus (spin s) c) > 0 \<Longrightarrow> \<not> sie (cpus (spin s) c)"
  using spin_inv_cpu [of s c] by (simp add: cpu_inv_def)

text \<open>The two steps that change an owner.\<close>

lemma acq_swap_inv:
  assumes inv: "spin_inv s" and pc: "pcs s c = Spin L" and free: "locked (locks (spin s) L) = 0"
  shows "spin_inv (goto c (Swapped L) (set_lock L (locked_update (\<lambda>_. 1)) (spin s)) s)"
    (is "spin_inv ?t")
proof -
  have unowned: "L \<notin> owns s d" for d
    using spin_inv_locked [OF inv] free by blast
  have none: "lk_cpu (locks (spin s) L) = None"
    using unowned by (cases "lk_cpu (locks (spin s) L)") (auto simp: owns_def)
  have own: "owns ?t d = (if d = c then insert L (owns s c) else owns s d)" for d
    using pc by (auto simp: owns_def)
  have "lock_inv ?t M" for M
    using inv unowned none unfolding spin_inv_def lock_inv_def own
    by (auto simp: owns_def split: if_splits)
  moreover have "cpu_inv ?t d" for d
    using spin_inv_cpu [OF inv, of d] unowned [of c] pc unfolding cpu_inv_def own
    by (auto split: if_splits)
  ultimately show ?thesis by (simp add: spin_inv_def)
qed

lemma rel_clear_inv:
  assumes inv: "spin_inv s" and pc: "pcs s c = Unowned L"
  shows "spin_inv (goto c Cleared (set_lock L (locked_update (\<lambda>_. 0)) (spin s)) s)"
    (is "spin_inv ?t")
proof -
  have cL: "L \<in> owns s c" using pc by (simp add: owns_def)
  have only: "L \<in> owns s d \<longleftrightarrow> d = c" for d
    using spin_inv_owner [OF inv] cL by blast
  have none: "lk_cpu (locks (spin s) L) = None"
    using spin_inv_window [OF inv, of c L] pc by simp
  have own: "owns ?t d = owns s d - {L}" for d
    using pc none only [of d] by (auto simp: owns_def)
  have "lock_inv ?t M" for M
    using inv only unfolding spin_inv_def lock_inv_def own
    by (auto split: if_splits)
  moreover have "card (owns s c) > 0"
    using spin_inv_cpu [OF inv, of c] cL by (auto simp: cpu_inv_def card_gt_0_iff)
  then have "cpu_inv ?t d" for d
    using spin_inv_cpu [OF inv, of d] only [of d] pc unfolding cpu_inv_def own
    by (cases "d = c") (auto simp: card_Diff_singleton_if)
  ultimately show ?thesis by (simp add: spin_inv_def)
qed

lemma acq_done_inv:
  assumes inv: "spin_inv s" and pc: "pcs s c = Swapped L"
  shows "spin_inv (goto c Run (set_lock L (lk_cpu_update (\<lambda>_. Some c)) (spin s)) s)"
proof (rule spin_inv_same [OF inv])
  have none: "lk_cpu (locks (spin s) L) = None"
    using spin_inv_window [OF inv, of c L] pc by simp
  have "L \<in> owns s c" using pc by (simp add: owns_def)
  then have only: "L \<in> owns s d \<Longrightarrow> d = c" for d
    using spin_inv_owner [OF inv] by blast
  fix d
  show "owns (goto c Run (set_lock L (lk_cpu_update (\<lambda>_. Some c)) (spin s)) s) d = owns s d"
    using pc none by (auto simp: owns_def)
  fix M
  assume "in_window (pcs (goto c Run (set_lock L (lk_cpu_update (\<lambda>_. Some c)) (spin s)) s) d) M"
  then have d: "d \<noteq> c" and w: "in_window (pcs s d) M" by (auto split: if_splits)
  then have "M \<noteq> L" using only [of d] by (auto simp: owns_def)
  then show "lk_cpu (locks (spin (goto c Run (set_lock L (lk_cpu_update (\<lambda>_. Some c)) (spin s)) s)) M)
      = None"
    using spin_inv_window [OF inv w] by simp
qed (use pc spin_inv_sie [OF inv] in \<open>auto split: if_splits\<close>)

lemma rel_enter_inv:
  assumes inv: "spin_inv s" and pc: "pcs s c = Run" and h: "spin_holding c L (spin s)"
  shows "spin_inv (goto c (Unowned L) (set_lock L (lk_cpu_update (\<lambda>_. None)) (spin s)) s)"
proof (rule spin_inv_same [OF inv])
  have c: "lk_cpu (locks (spin s) L) = Some c" using h by (simp add: spin_holding_def)
  fix d
  show "owns (goto c (Unowned L) (set_lock L (lk_cpu_update (\<lambda>_. None)) (spin s)) s) d = owns s d"
    using pc c by (auto simp: owns_def)
qed (use pc spin_inv_sie [OF inv] spin_inv_window [OF inv] in \<open>auto split: if_splits\<close>)

lemma pop_off_InrD:
  assumes "pop_off c s = Inr t"
  shows "locks t = locks s" "noff (cpus t d) = (if d = c then noff (cpus s c) - 1 else noff (cpus s d))"
    "d \<noteq> c \<Longrightarrow> sie (cpus t d) = sie (cpus s d)" "\<not> sie (cpus s c)"
    "sie (cpus t c) \<Longrightarrow> noff (cpus s c) = 1"
  using assms by (auto simp: spin_defs Let_def split: if_splits)

lemma rel_done_inv:
  assumes inv: "spin_inv s" and pc: "pcs s c = Cleared" and pop: "pop_off c (spin s) = Inr t"
  shows "spin_inv (goto c Run t s)"
proof (rule spin_inv_same [OF inv])
  note p = pop_off_InrD [OF pop]
  fix d
  show "owns (goto c Run t s) d = owns s d"
    using pc by (auto simp: owns_def p(1))
  show "in_window (pcs (goto c Run t s) d) M \<Longrightarrow> lk_cpu (locks (spin (goto c Run t s)) M) = None" for M
    using spin_inv_window [OF inv] by (auto simp: p(1) split: if_splits)
  show "\<not> sie (cpus (spin (goto c Run t s)) d)" if "0 < noff (cpus (spin (goto c Run t s)) d)"
    using that spin_inv_sie [OF inv, of d] p(2) [of d] p(3) [of d] p(5) by (cases "d = c") auto
qed (use pc pop_off_InrD [OF pop] in auto)

lemma lstep_inv: "lstep s t \<Longrightarrow> spin_inv s \<Longrightarrow> spin_inv t"
proof (induction rule: lstep.induct)
  case (acq_enter s c L)
  show ?case
    by (rule spin_inv_same [OF acq_enter.prems])
      (use acq_enter.hyps spin_inv_window [OF acq_enter.prems] spin_inv_sie [OF acq_enter.prems] in
        \<open>auto simp: owns_def split: if_splits\<close>)
next
  case (acq_spin s c L)
  show ?case
    by (rule spin_inv_same [OF acq_spin.prems])
      (use acq_spin.hyps spin_inv_window [OF acq_spin.prems] spin_inv_sie [OF acq_spin.prems] in
        \<open>auto simp: owns_def split: if_splits\<close>)
next
  case (enable s c)
  show ?case
    by (rule spin_inv_same [OF enable.prems])
      (use enable.hyps spin_inv_window [OF enable.prems] spin_inv_sie [OF enable.prems] in
        \<open>auto simp: owns_def intr_on_def set_cpu_def split: if_splits\<close>)
qed (blast intro: acq_swap_inv acq_done_inv rel_enter_inv rel_clear_inv rel_done_inv)+

lemma mreach_inv: "mreach s \<Longrightarrow> spin_inv s"
  by (induction rule: mreach.induct) (blast intro: mstart_inv lstep_inv)+

lemma holding_owns: "spin_holding c L (spin s) \<Longrightarrow> L \<in> owns s c"
  by (simp add: spin_holding_def owns_def)

lemma owns_noff:
  assumes "spin_inv s" and "L \<in> owns s c"
  shows "noff (cpus (spin s) c) > 0"
proof -
  have "card (owns s c) > 0"
    using spin_inv_cpu [OF assms(1), of c] assms(2) by (auto simp: cpu_inv_def card_gt_0_iff)
  moreover have "pending (pcs s c) \<ge> 0" by (simp add: pending_def split: pc.splits)
  ultimately show ?thesis
    using spin_inv_cpu [OF assms(1), of c] by (simp add: cpu_inv_def)
qed

section \<open>The view of one CPU\<close>

text \<open>
  Kernel code runs on one CPU at a time and looks at locks only through \<^verbatim>\<open>acquire\<close>, \<^verbatim>\<open>release\<close>
  and \<^verbatim>\<open>holding\<close>. What it sees is the set of locks its CPU holds. The components below extend the
  record \<open>kst\<close> with their own state.
\<close>

record kst =
  held :: "lockid set"

definition holding :: "lockid \<Rightarrow> 'z kst_scheme \<Rightarrow> bool" where
  "holding L s \<longleftrightarrow> L \<in> held s"

definition acquire :: "lockid \<Rightarrow> 'z kst_scheme \<Rightarrow> 'z kst_scheme res" where
  "acquire L s =
     (if holding L s then Inl (Panic ''acquire'') else Inr (s\<lparr>held := insert L (held s)\<rparr>))"

definition release :: "lockid \<Rightarrow> 'z kst_scheme \<Rightarrow> 'z kst_scheme res" where
  "release L s =
     (if \<not> holding L s then Inl (Panic ''release'') else Inr (s\<lparr>held := held s - {L}\<rparr>))"

text \<open>\<^verbatim>\<open>initlock\<close> leaves the lock free.\<close>

definition init_lock :: "lockid \<Rightarrow> 'z kst_scheme \<Rightarrow> 'z kst_scheme" where
  "init_lock L s = s\<lparr>held := held s - {L}\<rparr>"

text \<open>Code that runs with a lock and releases it on every path out.\<close>

definition with_lock ::
  "lockid \<Rightarrow> ('z kst_scheme \<Rightarrow> ('a \<times> 'z kst_scheme) res) \<Rightarrow> 'z kst_scheme \<Rightarrow> ('a \<times> 'z kst_scheme) res"
where
  "with_lock L body s =
     bindR (acquire L s) (\<lambda>s.
     bindR (body s) (\<lambda>(r, s).
     bindR (release L s) (\<lambda>s. Inr (r, s))))"

lemma acquire_free [simp]: "L \<notin> held s \<Longrightarrow> acquire L s = Inr (s\<lparr>held := insert L (held s)\<rparr>)"
  by (simp add: acquire_def holding_def)

lemma release_held [simp]: "L \<in> held s \<Longrightarrow> release L s = Inr (s\<lparr>held := held s - {L}\<rparr>)"
  by (simp add: release_def holding_def)

lemma with_lock_ok:
  assumes "L \<notin> held s"
    and "body (s\<lparr>held := insert L (held s)\<rparr>) = Inr (r, t)"
    and "held t = insert L (held s)"
  shows "with_lock L body s = Inr (r, t\<lparr>held := held s\<rparr>)"
  using assms by (simp add: with_lock_def)

lemma with_lock_fail:
  assumes "L \<notin> held s" and "body (s\<lparr>held := insert L (held s)\<rparr>) = Inl e"
  shows "with_lock L body s = Inl e"
  using assms by (simp add: with_lock_def)

text \<open>
  The view is what the code on the machine computes: on a CPU whose lock words are not held by
  other CPUs, \<^verbatim>\<open>acquire\<close> and \<^verbatim>\<open>release\<close> of \<^verbatim>\<open>spinlock.c\<close> act on \<open>held\<close> as the functions above.
\<close>

definition held_of :: "nat \<Rightarrow> spin_st \<Rightarrow> kst" where
  "held_of c s = \<lparr>held = {L. spin_holding c L s}\<rparr>"

definition uncontended :: "nat \<Rightarrow> spin_st \<Rightarrow> bool" where
  "uncontended c s \<longleftrightarrow>
     (\<forall>L. if locked (locks s L) = 0 then lk_cpu (locks s L) = None else lk_cpu (locks s L) = Some c) \<and>
     finite (held (held_of c s)) \<and>
     noff (cpus s c) \<ge> int (card (held (held_of c s))) \<and>
     (noff (cpus s c) > 0 \<longrightarrow> \<not> sie (cpus s c))"

lemma spin_acquire_view:
  assumes "uncontended c s"
  shows "map_sum id (held_of c) (spin_acquire c L s) = acquire L (held_of c s)"
proof (cases "spin_holding c L s")
  case True
  then show ?thesis
    by (simp add: spin_acquire_def acquire_def holding_def held_of_def Let_def spin_holding_def)
next
  case False
  then have "locked (locks s L) = 0"
    using assms by (auto simp: uncontended_def spin_holding_def split: if_splits)
  then have "spin_acquire c L s = Inr (set_lock L (lk_cpu_update (\<lambda>_. Some c))
      (set_lock L (locked_update (\<lambda>_. 1)) (push_off c s)))"
    by (simp add: spin_acquire_def spin_holding_def Let_def)
  then show ?thesis
    using False
    by (auto simp: held_of_def acquire_def holding_def spin_holding_def)
qed

lemma spin_release_view:
  assumes "uncontended c s"
  shows "map_sum id (held_of c) (spin_release c L s) = release L (held_of c s)"
proof (cases "spin_holding c L s")
  case True
  let ?s = "set_lock L (locked_update (\<lambda>_. 0)) (set_lock L (lk_cpu_update (\<lambda>_. None)) s)"
  have "L \<in> held (held_of c s)" using True by (simp add: held_of_def)
  then have "card (held (held_of c s)) > 0"
    using assms by (auto simp: uncontended_def card_gt_0_iff)
  then have "noff (cpus s c) > 0" and "\<not> sie (cpus s c)"
    using assms by (auto simp: uncontended_def)
  then have "\<exists>t. pop_off c ?s = Inr t"
    by (simp add: pop_off_def intr_get_def Let_def)
  then obtain t where t: "pop_off c ?s = Inr t" ..
  then have "spin_release c L s = Inr t"
    using True by (simp add: spin_release_def Let_def)
  moreover have "held_of c t = \<lparr>held = {M. spin_holding c M s} - {L}\<rparr>"
    using pop_off_InrD(1) [OF t] by (auto simp: held_of_def spin_holding_def)
  ultimately show ?thesis
    using True by (simp add: release_def holding_def held_of_def)
qed (simp add: spin_release_def release_def holding_def held_of_def)

section \<open>Properties\<close>

definition boot :: mstate where
  "boot = \<lparr>spin = \<lparr>locks = (\<lambda>_. \<lparr>locked = 0, lk_name = [], lk_cpu = None\<rparr>),
                   cpus = (\<lambda>_. \<lparr>noff = 0, intena = False, sie = False\<rparr>)\<rparr>,
           pcs = (\<lambda>_. Run)\<rparr>"

lemma boot_start: "mstart boot"
  by (simp add: boot_def mstart_def)

lemma boot_acquired:
  "\<exists>s. mreach s \<and> L_kmem \<in> owns s 0 \<and> pcs s 0 = Swapped L_kmem"
proof -
  let ?a = "goto 0 (Spin L_kmem) (push_off 0 (spin boot)) boot"
  let ?b = "goto 0 (Swapped L_kmem) (set_lock L_kmem (locked_update (\<lambda>_. 1)) (spin ?a)) ?a"
  have "lstep boot ?a" by (rule lstep.acq_enter) (simp_all add: boot_def spin_holding_def)
  moreover have "lstep ?a ?b" by (rule lstep.acq_swap) (simp_all add: boot_def)
  ultimately have "mreach ?b" using mreach.start [OF boot_start] by (blast intro: mreach.step)
  then show ?thesis by (intro exI [of _ ?b]) (simp add: owns_def)
qed

text \<open>
  C9: In every state the CPUs reach by interleaving \<^verbatim>\<open>acquire\<close>, \<^verbatim>\<open>release\<close> and interrupt enabling at
  the grain of single memory accesses, a lock is owned (from the successful atomic swap to the
  store that clears the lock word) by at most one CPU, its lock word is then nonzero, and the owner
  runs with interrupts off.
\<close>

theorem spinlock_mutual_exclusion:
  assumes "mreach s" and "L \<in> owns s c"
  shows "locked (locks (spin s) L) \<noteq> 0 \<and> \<not> sie (cpus (spin s) c) \<and> (\<forall>d. L \<in> owns s d \<longrightarrow> d = c)"
  using mreach_inv [OF assms(1)] assms(2)
  by (metis owns_noff spin_inv_locked spin_inv_owner spin_inv_sie)

theorem spinlock_mutual_exclusion_witness:
  "\<exists>s. mreach s \<and> L_kmem \<in> owns s 0 \<and> \<not> sie (cpus (spin s) 0) \<and> L_kmem \<notin> owns s 1"
proof -
  obtain s where "mreach s" "L_kmem \<in> owns s 0" using boot_acquired by blast
  then show ?thesis
    using spinlock_mutual_exclusion [of s L_kmem 0] by (intro exI [of _ s]) auto
qed





end
