(* ===== verification/Allocator.thy ===== *)
theory Allocator
  imports Prelude
begin

text \<open>
  The contract of a memory allocator, which the page allocator, the buddy allocator, the
  slab allocator and the allocator of user processes meet: a successful allocation takes an extent out of the free space, freeing
  an allocated extent puts it back. The locale proves from it, once, what a client relies on
  over any sequence of calls: live extents never overlap, the allocator never fails on the
  client's own handles, and no space is lost.
\<close>

datatype ('k, 'w) aop = Alloc 'k | Free nat | Use nat 'w

text \<open>
  A client that allocates, frees the \<open>i\<close>-th of the handles it has (counting from the most
  recent one), and writes what it likes inside the \<open>i\<close>-th of them.
\<close>

fun alloc_run ::
  "('k \<Rightarrow> 's \<Rightarrow> ('h option \<times> 's) res) \<Rightarrow> ('h \<Rightarrow> 's \<Rightarrow> 's res) \<Rightarrow> ('h \<Rightarrow> 'w \<Rightarrow> 's \<Rightarrow> 's) \<Rightarrow>
   ('k, 'w) aop list \<Rightarrow> 's \<times> 'h list \<Rightarrow> ('s \<times> 'h list) res"
where
  "alloc_run a d u [] (s, live) = Inr (s, live)"
| "alloc_run a d u (Alloc k # ops) (s, live) =
     bindR (a k s) (\<lambda>(r, s).
       alloc_run a d u ops (s, case r of None \<Rightarrow> live | Some h \<Rightarrow> h # live))"
| "alloc_run a d u (Free i # ops) (s, live) =
     (if i < length live
      then bindR (d (live ! i) s) (\<lambda>s. alloc_run a d u ops (s, take i live @ drop (Suc i) live))
      else alloc_run a d u ops (s, live))"
| "alloc_run a d u (Use i w # ops) (s, live) =
     alloc_run a d u ops (if i < length live then u (live ! i) w s else s, live)"

definition apart :: "('h \<Rightarrow> 'u set) \<Rightarrow> 'h list \<Rightarrow> bool" where
  "apart ext live \<longleftrightarrow> sorted_wrt (\<lambda>g h. ext g \<inter> ext h = {}) live"

lemma apart_Cons: "apart ext (h # live) \<longleftrightarrow> (\<forall>g \<in> set live. ext h \<inter> ext g = {}) \<and> apart ext live"
  by (auto simp: apart_def)

lemma apart_append:
  "apart ext (xs @ ys) \<longleftrightarrow> apart ext xs \<and> apart ext ys \<and> (\<forall>g \<in> set xs. \<forall>h \<in> set ys. ext g \<inter> ext h = {})"
  by (simp add: apart_def sorted_wrt_append)

lemma apart_remove:
  assumes "apart ext live"
  shows "apart ext (take i live @ drop (Suc i) live)"
proof (cases "i < length live")
  case True
  then have "live = take i live @ live ! i # drop (Suc i) live" by (rule id_take_nth_drop)
  then have "apart ext (take i live @ live ! i # drop (Suc i) live)" using assms by simp
  then show ?thesis by (simp add: apart_append apart_Cons)
qed (use assms in simp)

lemma apart_removed:
  assumes "apart ext live" and "i < length live" and "g \<in> set (take i live @ drop (Suc i) live)"
  shows "ext (live ! i) \<inter> ext g = {}"
proof -
  have "live = take i live @ live ! i # drop (Suc i) live" by (rule id_take_nth_drop [OF assms(2)])
  then have "apart ext (take i live @ live ! i # drop (Suc i) live)" using assms(1) by simp
  then show ?thesis using assms(3) by (auto simp: apart_append apart_Cons)
qed

lemma set_remove_nth:
  assumes "i < length xs"
  shows "set xs = insert (xs ! i) (set (take i xs @ drop (Suc i) xs))"
proof -
  have "xs = take i xs @ xs ! i # drop (Suc i) xs" by (rule id_take_nth_drop [OF assms])
  then have "set xs = set (take i xs @ xs ! i # drop (Suc i) xs)" by simp
  then show ?thesis by simp
qed

locale allocator =
  fixes ok :: "'k \<Rightarrow> bool"
    and inv :: "'s \<Rightarrow> bool"
    and free :: "'s \<Rightarrow> 'u set"
    and wf :: "'s \<Rightarrow> 'h \<Rightarrow> bool"
    and ext :: "'h \<Rightarrow> 'u set"
    and alloc :: "'k \<Rightarrow> 's \<Rightarrow> ('h option \<times> 's) res"
    and dealloc :: "'h \<Rightarrow> 's \<Rightarrow> 's res"
    and touch :: "'h \<Rightarrow> 'w \<Rightarrow> 's \<Rightarrow> 's"
  assumes alloc_returns: "inv s \<Longrightarrow> ok k \<Longrightarrow> \<exists>r t. alloc k s = Inr (r, t)"
    and alloc_Some: "inv s \<Longrightarrow> ok k \<Longrightarrow> alloc k s = Inr (Some h, t) \<Longrightarrow>
      inv t \<and> wf t h \<and> ext h \<subseteq> free s \<and> free t = free s - ext h \<and>
      (\<forall>g. wf s g \<longrightarrow> ext g \<inter> free s = {} \<longrightarrow> wf t g)"
    and alloc_None: "inv s \<Longrightarrow> ok k \<Longrightarrow> alloc k s = Inr (None, t) \<Longrightarrow>
      inv t \<and> free t = free s \<and> (\<forall>g. wf s g \<longrightarrow> ext g \<inter> free s = {} \<longrightarrow> wf t g)"
    and dealloc_ok: "inv s \<Longrightarrow> wf s h \<Longrightarrow> ext h \<inter> free s = {} \<Longrightarrow>
      \<exists>t. dealloc h s = Inr t \<and> inv t \<and> free t = free s \<union> ext h \<and>
        (\<forall>g. wf s g \<longrightarrow> ext g \<inter> free s = {} \<longrightarrow> ext g \<inter> ext h = {} \<longrightarrow> wf t g)"
    and touch_ok: "inv s \<Longrightarrow> wf s h \<Longrightarrow> ext h \<inter> free s = {} \<Longrightarrow>
      inv (touch h w s) \<and> free (touch h w s) = free s \<and>
      (\<forall>g. wf s g \<longrightarrow> ext g \<inter> free s = {} \<longrightarrow> g = h \<or> ext g \<inter> ext h = {} \<longrightarrow> wf (touch h w s) g)"
begin

definition live_ok :: "'s \<Rightarrow> 'h list \<Rightarrow> bool" where
  "live_ok s live \<longleftrightarrow> inv s \<and> apart ext live \<and> (\<forall>h \<in> set live. wf s h \<and> ext h \<inter> free s = {})"

definition space :: "'s \<Rightarrow> 'h list \<Rightarrow> 'u set" where
  "space s live = free s \<union> \<Union> (ext ` set live)"

lemma alloc_step:
  assumes "live_ok s live" and "ok k" and "alloc k s = Inr (r, t)"
  shows "live_ok t (case r of None \<Rightarrow> live | Some h \<Rightarrow> h # live) \<and>
    space t (case r of None \<Rightarrow> live | Some h \<Rightarrow> h # live) = space s live"
proof (cases r)
  case None
  then show ?thesis
    using assms alloc_None [of s k t] by (auto simp: live_ok_def space_def)
next
  case (Some h)
  then have h: "inv t" "wf t h" "ext h \<subseteq> free s" "free t = free s - ext h"
      "\<And>g. wf s g \<Longrightarrow> ext g \<inter> free s = {} \<Longrightarrow> wf t g"
    using assms alloc_Some [of s k h t] by (auto simp: live_ok_def)
  have "live_ok t (h # live)"
    using assms(1) h by (fastforce simp: live_ok_def apart_Cons)
  moreover have "space t (h # live) = space s live"
    using h by (auto simp: space_def)
  ultimately show ?thesis by (simp add: Some)
qed

lemma dealloc_step:
  assumes "live_ok s live" and "i < length live"
  shows "\<exists>t. dealloc (live ! i) s = Inr t \<and> live_ok t (take i live @ drop (Suc i) live) \<and>
    space t (take i live @ drop (Suc i) live) = space s live"
proof -
  let ?h = "live ! i" and ?rest = "take i live @ drop (Suc i) live"
  have "wf s ?h" "ext ?h \<inter> free s = {}" "inv s"
    using assms by (auto simp: live_ok_def)
  then obtain t where t: "dealloc ?h s = Inr t" "inv t" "free t = free s \<union> ext ?h"
      "\<And>g. wf s g \<Longrightarrow> ext g \<inter> free s = {} \<Longrightarrow> ext g \<inter> ext ?h = {} \<Longrightarrow> wf t g"
    using dealloc_ok [of s ?h] by blast
  have "ext g \<inter> ext ?h = {}" if "g \<in> set ?rest" for g
    using apart_removed [of ext, OF _ assms(2) that] assms(1) by (auto simp: live_ok_def)
  moreover have "set live = insert ?h (set ?rest)" by (rule set_remove_nth [OF assms(2)])
  ultimately have "live_ok t ?rest" "space t ?rest = space s live"
    using assms(1) t apart_remove [of ext live i]
    by (auto simp: live_ok_def space_def)
  then show ?thesis using t(1) by blast
qed

lemma touch_step:
  assumes "live_ok s live" and "i < length live"
  shows "live_ok (touch (live ! i) w s) live \<and> space (touch (live ! i) w s) live = space s live"
proof -
  let ?h = "live ! i"
  have h: "inv s" "wf s ?h" "ext ?h \<inter> free s = {}" using assms by (auto simp: live_ok_def)
  note touched = touch_ok [OF h, of w]
  have "wf (touch ?h w s) g" if g: "g \<in> set live" for g
  proof -
    have "g = ?h \<or> ext g \<inter> ext ?h = {}"
      using apart_removed [of ext live i g] g set_remove_nth [OF assms(2)] assms by (auto simp: live_ok_def)
    moreover have "wf s g" "ext g \<inter> free s = {}" using assms(1) g by (auto simp: live_ok_def)
    ultimately show ?thesis using touched by blast
  qed
  then show ?thesis using assms(1) touched by (auto simp: live_ok_def space_def)
qed

theorem run_safe:
  assumes "live_ok s live" and "\<forall>k. Alloc k \<in> set ops \<longrightarrow> ok k"
  shows "\<exists>t live'. alloc_run alloc dealloc touch ops (s, live) = Inr (t, live') \<and> live_ok t live' \<and>
    space t live' = space s live"
  using assms
proof (induction ops arbitrary: s live)
  case (Cons op ops)
  show ?case
  proof (cases op)
    case (Alloc k)
    then have k: "ok k" using Cons.prems(2) by simp
    obtain r u where u: "alloc k s = Inr (r, u)"
      using alloc_returns [of s k] k Cons.prems(1) by (auto simp: live_ok_def)
    from alloc_step [OF Cons.prems(1) k u] Cons.prems(2)
      Cons.IH [of u "case r of None \<Rightarrow> live | Some h \<Rightarrow> h # live"]
    show ?thesis by (simp add: Alloc u)
  next
    case (Free i)
    show ?thesis
    proof (cases "i < length live")
      case True
      then obtain u where u: "dealloc (live ! i) s = Inr u"
          "live_ok u (take i live @ drop (Suc i) live)"
          "space u (take i live @ drop (Suc i) live) = space s live"
        using dealloc_step [OF Cons.prems(1)] by blast
      from Cons.IH [OF u(2)] Cons.prems(2) show ?thesis by (simp add: Free True u)
    next
      case False
      with Cons show ?thesis by (simp add: Free)
    qed
  next
    case (Use i w)
    show ?thesis
    proof (cases "i < length live")
      case True
      from touch_step [OF Cons.prems(1) True, of w] Cons.prems(2) Cons.IH [of "touch (live ! i) w s" live]
      show ?thesis by (simp add: Use True)
    qed (use Cons Use in simp)
  qed
qed simp

end

end
