(* ===== verification/Kalloc.thy ===== *)
theory Kalloc
  imports Cstring Spinlock Allocator
begin

text \<open>
  \<^verbatim>\<open>kernel/kalloc.c\<close>, the allocator of whole physical pages. The free list runs through the
  first eight bytes of the free pages themselves; the model keeps it there, in the byte memory.
  The address \<^verbatim>\<open>end\<close>, which the linker script defines, is the parameter \<open>kend\<close>.
\<close>

section \<open>Definitions\<close>

text \<open>\<^verbatim>\<open>kernel/riscv.h\<close>, \<^verbatim>\<open>kernel/memlayout.h\<close>, \<^verbatim>\<open>kernel/slab.h\<close>\<close>

definition PGSIZE :: addr where "PGSIZE = 4096"

definition PGROUNDUP :: "addr \<Rightarrow> addr" where
  "PGROUNDUP sz = (sz + PGSIZE - 1) AND NOT (PGSIZE - 1)"

definition PGROUNDDOWN :: "addr \<Rightarrow> addr" where
  "PGROUNDDOWN a = a AND NOT (PGSIZE - 1)"

definition KERNBASE :: addr where "KERNBASE = 0x80000000"

definition PHYSTOP :: addr where "PHYSTOP = KERNBASE + 128 * 1024 * 1024"

definition BLOCK_SIZE :: addr where "BLOCK_SIZE = 4096"

definition SLAB_RESERVED_BLOCKS :: addr where "SLAB_RESERVED_BLOCKS = 1024"

text \<open>Physical memory and \<^verbatim>\<open>kmem.freelist\<close>.\<close>

record phys_st = kst +
  mem :: memory
  freelist :: addr

definition page_kfree :: "addr \<Rightarrow> addr \<Rightarrow> 'z phys_st_scheme \<Rightarrow> 'z phys_st_scheme res" where
  "page_kfree kend pa s =
     (if pa mod PGSIZE \<noteq> 0 \<or> pa < kend \<or> pa \<ge> PHYSTOP then Inl (Panic ''page_kfree'')
      else
        (let s = s\<lparr>mem := memset (mem s) pa 1 (ucast PGSIZE)\<rparr> in
         bindR (acquire L_kmem s) (\<lambda>s.
           let s = s\<lparr>mem := store64 (mem s) pa (freelist s)\<rparr>;
               s = s\<lparr>freelist := pa\<rparr>
           in release L_kmem s)))"

definition kalloc :: "'z phys_st_scheme \<Rightarrow> (addr \<times> 'z phys_st_scheme) res" where
  "kalloc s =
     bindR (acquire L_kmem s) (\<lambda>s.
       let r = freelist s;
           s = (if r \<noteq> 0 then s\<lparr>freelist := load64 (mem s) r\<rparr> else s)
       in bindR (release L_kmem s) (\<lambda>s.
            Inr (r, if r \<noteq> 0 then s\<lparr>mem := memset (mem s) r 5 (ucast PGSIZE)\<rparr> else s)))"

partial_function (option) freerange_loop ::
  "addr \<Rightarrow> addr \<Rightarrow> addr \<Rightarrow> 'z phys_st_scheme \<Rightarrow> 'z phys_st_scheme res option"
where
  "freerange_loop kend p pa_end s =
     (if p + PGSIZE \<le> pa_end
      then (case page_kfree kend p s of
              Inl e \<Rightarrow> Some (Inl e)
            | Inr s' \<Rightarrow> freerange_loop kend (p + PGSIZE) pa_end s')
      else Some (Inr s))"

definition freerange ::
  "addr \<Rightarrow> addr \<Rightarrow> addr \<Rightarrow> 'z phys_st_scheme \<Rightarrow> 'z phys_st_scheme res"
where
  "freerange kend pa_start pa_end s =
     bindR (of_loop (freerange_loop kend (PGROUNDUP pa_start) pa_end s)) id"

definition kinit :: "addr \<Rightarrow> 'z phys_st_scheme \<Rightarrow> 'z phys_st_scheme res" where
  "kinit kend s =
     freerange kend kend (PHYSTOP - SLAB_RESERVED_BLOCKS * BLOCK_SIZE) (init_lock L_kmem s)"

section \<open>Pages\<close>

definition page_bytes :: "addr \<Rightarrow> addr set" where
  "page_bytes p = {x. x - p < PGSIZE}"

definition aligned :: "addr \<Rightarrow> bool" where
  "aligned p \<longleftrightarrow> p mod PGSIZE = 0"

lemma aligned_unat: "aligned p \<longleftrightarrow> unat p mod 4096 = 0"
  by (simp add: aligned_def PGSIZE_def word_unat_eq_iff unat_mod)

lemma alignedE:
  assumes "aligned p"
  obtains k where "unat p = 4096 * k"
  using assms by (auto simp: aligned_unat)

lemma page_bytes_iff:
  assumes "aligned p"
  shows "x \<in> page_bytes p \<longleftrightarrow> unat x div 4096 = unat p div 4096"
proof -
  obtain a where a: "unat p = 4096 * a" using assms by (rule alignedE)
  have "4096 * a < 2 ^ 64" using unat64_less [of p] by (simp add: a)
  then have "4096 * a + 4096 \<le> 2 ^ 64" by simp
  then have "unat (x - p) < 4096 \<longleftrightarrow> 4096 * a \<le> unat x \<and> unat x < 4096 * a + 4096"
    using unat64_less [of x] by (auto simp: unat_sub_if' a)
  then show ?thesis
    by (auto simp: page_bytes_def PGSIZE_def word_less_nat_alt a)
qed

lemma page_bytes_disjoint:
  "aligned p \<Longrightarrow> aligned q \<Longrightarrow> p \<noteq> q \<Longrightarrow> page_bytes p \<inter> page_bytes q = {}"
  by (auto simp: page_bytes_iff aligned_unat word_unat_eq_iff)

lemma page_bytes_self: "p \<in> page_bytes p"
  by (simp add: page_bytes_def PGSIZE_def)

lemma page_bytes_offset:
  assumes "k < 4096"
  shows "p + of_nat k \<in> page_bytes p"
  using assms by (simp add: page_bytes_def PGSIZE_def word_less_nat_alt)

lemma load64_cong:
  "(\<And>k. k < 8 \<Longrightarrow> m (a + of_nat k) = m' (a + of_nat k)) \<Longrightarrow> load64 m a = load64 m' a"
proof -
  assume *: "\<And>k. k < 8 \<Longrightarrow> m (a + of_nat k) = m' (a + of_nat k)"
  from * [of 0] * [of 1] * [of 2] * [of 3] * [of 4] * [of 5] * [of 6] * [of 7]
  show ?thesis by (simp add: load64_def)
qed

lemma load64_page_cong:
  assumes "\<And>x. x \<in> page_bytes p \<Longrightarrow> m x = m' x"
  shows "load64 m p = load64 m' p"
  by (rule load64_cong) (simp add: assms page_bytes_offset)


section \<open>Invariant\<close>

definition page_ok :: "addr \<Rightarrow> addr \<Rightarrow> bool" where
  "page_ok kend p \<longleftrightarrow> aligned p \<and> 0 < kend \<and> kend \<le> p \<and> p < PHYSTOP"

definition kmem_pages :: "addr \<Rightarrow> 'z phys_st_scheme \<Rightarrow> addr list \<Rightarrow> bool" where
  "kmem_pages kend s ps \<longleftrightarrow>
     chain (load64 (mem s)) (freelist s) ps \<and> (\<forall>p \<in> set ps. page_ok kend p) \<and> L_kmem \<notin> held s"

definition kmem_inv :: "addr \<Rightarrow> 'z phys_st_scheme \<Rightarrow> bool" where
  "kmem_inv kend s \<longleftrightarrow> (\<exists>ps. kmem_pages kend s ps)"

definition kmem_free :: "'z phys_st_scheme \<Rightarrow> addr set" where
  "kmem_free s = {p. \<exists>ps. chain (load64 (mem s)) (freelist s) ps \<and> p \<in> set ps}"

definition free_bytes :: "'z phys_st_scheme \<Rightarrow> addr set" where
  "free_bytes s = \<Union> (page_bytes ` kmem_free s)"

definition scribble :: "addr set \<Rightarrow> memory \<Rightarrow> memory \<Rightarrow> memory" where
  "scribble A w m = (\<lambda>x. if x \<in> A then w x else m x)"

lemma page_ok_nz: "page_ok kend p \<Longrightarrow> p \<noteq> 0"
  by (auto simp: page_ok_def)

lemma kmem_free_eq: "kmem_pages kend s ps \<Longrightarrow> kmem_free s = set ps"
  by (auto simp: kmem_free_def kmem_pages_def dest: chain_unique)

lemma kmem_pages_mem:
  assumes "kmem_pages kend s ps" and "\<And>x. x \<in> free_bytes s \<Longrightarrow> m x = mem s x"
    and "freelist t = freelist s" and "mem t = m" and "held t = held s"
  shows "kmem_pages kend t ps"
proof -
  have "load64 m p = load64 (mem s) p" if "p \<in> set ps" for p
    by (rule load64_page_cong)
      (use assms(2) that kmem_free_eq [OF assms(1)] in \<open>auto simp: free_bytes_def\<close>)
  then have "chain (load64 m) (freelist s) ps"
    using assms(1) chain_cong [of ps "load64 m" "load64 (mem s)"] by (simp add: kmem_pages_def)
  then show ?thesis using assms by (simp add: kmem_pages_def)
qed

section \<open>The operations\<close>

lemma page_kfree_panic:
  "page_kfree kend pa s = Inl (Panic ''page_kfree'')"
  if "\<not> aligned pa \<or> pa < kend \<or> PHYSTOP \<le> pa"
  using that by (auto simp: page_kfree_def aligned_def)

definition freed_mem :: "memory \<Rightarrow> addr \<Rightarrow> addr \<Rightarrow> memory" where
  "freed_mem m pa fl = store64 (memset m pa 1 (ucast PGSIZE)) pa fl"

lemma freed_mem_link [simp]: "load64 (freed_mem m pa fl) pa = fl"
  by (simp add: freed_mem_def)

lemma memset_page: "memset m p c (ucast PGSIZE) x = (if x \<in> page_bytes p then ucast c else m x)"
  by (simp add: memset_eq page_bytes_def PGSIZE_def)

lemma freed_mem_other: "x \<notin> page_bytes pa \<Longrightarrow> freed_mem m pa fl x = m x"
proof -
  assume x: "x \<notin> page_bytes pa"
  then have "8 \<le> x - pa" by (simp add: page_bytes_def PGSIZE_def word_less_nat_alt word_le_nat_alt)
  then show ?thesis using x by (simp add: freed_mem_def store64_other memset_page)
qed

lemma page_kfree_eq:
  assumes "page_ok kend pa" and "L_kmem \<notin> held s"
  shows "page_kfree kend pa s = Inr (s\<lparr>mem := freed_mem (mem s) pa (freelist s), freelist := pa\<rparr>)"
  using assms by (auto simp: page_kfree_def freed_mem_def page_ok_def aligned_def)

lemma page_kfree_pages:
  assumes s: "kmem_pages kend s ps" and pa: "page_ok kend pa" "pa \<notin> kmem_free s"
  shows "\<exists>t. page_kfree kend pa s = Inr t \<and> kmem_pages kend t (pa # ps) \<and> held t = held s \<and>
    (\<forall>x. x \<notin> page_bytes pa \<longrightarrow> mem t x = mem s x)"
proof -
  let ?m = "freed_mem (mem s) pa (freelist s)"
  have "load64 ?m p = load64 (mem s) p" if p: "p \<in> set ps" for p
  proof (rule load64_page_cong)
    fix x assume "x \<in> page_bytes p"
    moreover have "page_bytes p \<inter> page_bytes pa = {}"
      using s pa p kmem_free_eq [OF s]
      by (intro page_bytes_disjoint) (auto simp: kmem_pages_def page_ok_def)
    ultimately show "?m x = mem s x" by (intro freed_mem_other) auto
  qed
  then have "chain (load64 ?m) (freelist s) ps"
    using s chain_cong [of ps "load64 ?m" "load64 (mem s)"] by (simp add: kmem_pages_def)
  then show ?thesis
    using s pa page_ok_nz [OF pa(1)]
    by (auto simp: page_kfree_eq kmem_pages_def freed_mem_other)
qed

lemma kalloc_empty:
  assumes "kmem_pages kend s []"
  shows "kalloc s = Inr (0, s)"
  using assms by (simp add: kalloc_def kmem_pages_def)

lemma kalloc_pages:
  assumes s: "kmem_pages kend s (p # ps)"
  shows "\<exists>t. kalloc s = Inr (p, t) \<and> kmem_pages kend t ps \<and> held t = held s \<and>
    mem t = memset (mem s) p 5 (ucast PGSIZE)"
proof -
  let ?m = "memset (mem s) p 5 (ucast PGSIZE)"
  have d: "distinct (p # ps)"
    by (rule chain_distinct [of "load64 (mem s)" "freelist s"]) (use s in \<open>simp add: kmem_pages_def\<close>)
  have "load64 ?m q = load64 (mem s) q" if q: "q \<in> set ps" for q
  proof (rule load64_page_cong)
    fix x assume "x \<in> page_bytes q"
    moreover have "page_bytes q \<inter> page_bytes p = {}"
      using s q d by (intro page_bytes_disjoint) (auto simp: kmem_pages_def page_ok_def)
    ultimately show "?m x = mem s x" by (auto simp: memset_page)
  qed
  then have "chain (load64 ?m) (load64 (mem s) p) ps"
    using s chain_cong [of ps "load64 ?m" "load64 (mem s)"] by (simp add: kmem_pages_def)
  then show ?thesis
    using s by (auto simp: kmem_pages_def kalloc_def)
qed

section \<open>The contract\<close>

definition kalloc_opt :: "unit \<Rightarrow> 'z phys_st_scheme \<Rightarrow> (addr option \<times> 'z phys_st_scheme) res" where
  "kalloc_opt k s = bindR (kalloc s) (\<lambda>(p, s). Inr (if p = 0 then None else Some p, s))"

definition page_write :: "addr \<Rightarrow> memory \<Rightarrow> 'z phys_st_scheme \<Rightarrow> 'z phys_st_scheme" where
  "page_write p w s = s\<lparr>mem := scribble (page_bytes p) w (mem s)\<rparr>"

lemma kalloc_opt_cases:
  assumes "kmem_inv kend s"
  obtains "kalloc_opt k s = Inr (None, s)" "kmem_free s = {}"
  | p ps t where "kalloc_opt k s = Inr (Some p, t)" "kmem_pages kend s (p # ps)" "kmem_pages kend t ps"
proof -
  obtain ps where ps: "kmem_pages kend s ps" using assms by (auto simp: kmem_inv_def)
  show thesis
  proof (cases ps)
    case Nil
    then show thesis using that(1) kalloc_empty [of kend s] ps kmem_free_eq [OF ps]
      by (simp add: kalloc_opt_def)
  next
    case (Cons p qs)
    moreover have "p \<noteq> 0" using ps Cons by (simp add: kmem_pages_def)
    ultimately show thesis using that(2) [of p _ qs] kalloc_pages [of kend s p qs] ps
      by (auto simp: kalloc_opt_def)
  qed
qed

lemma kmem_pages_inv: "kmem_pages kend s ps \<Longrightarrow> kmem_inv kend s"
  by (auto simp: kmem_inv_def)

lemma free_bytes_eq: "kmem_pages kend s ps \<Longrightarrow> free_bytes s = \<Union> (page_bytes ` set ps)"
  by (simp add: free_bytes_def kmem_free_eq)

lemma kalloc_opt_Some:
  assumes "kmem_inv kend s" and "kalloc_opt k s = Inr (Some h, t)"
  shows "kmem_inv kend t \<and> page_ok kend h \<and> page_bytes h \<subseteq> free_bytes s \<and>
    free_bytes t = free_bytes s - page_bytes h"
  using assms(1)
proof (cases rule: kalloc_opt_cases [where k = k])
  case (2 p ps u)
  have [simp]: "p = h" "u = t" using 2 assms(2) by auto
  have "distinct (h # ps)"
    by (rule chain_distinct [of "load64 (mem s)" "freelist s"]) (use 2 in \<open>simp add: kmem_pages_def\<close>)
  then have "page_bytes q \<inter> page_bytes h = {}" if "q \<in> set ps" for q
    using 2(2) that by (intro page_bytes_disjoint) (auto simp: kmem_pages_def page_ok_def)
  then show ?thesis
    using free_bytes_eq [OF 2(2)] free_bytes_eq [OF 2(3)] 2(2) kmem_pages_inv [OF 2(3)]
    by (auto simp: kmem_pages_def)
qed (use assms(2) in simp)

lemma page_kfree_contract:
  assumes "kmem_inv kend s" and "page_ok kend h" and "page_bytes h \<inter> free_bytes s = {}"
  shows "\<exists>t. page_kfree kend h s = Inr t \<and> kmem_inv kend t \<and> free_bytes t = free_bytes s \<union> page_bytes h"
proof -
  obtain ps where ps: "kmem_pages kend s ps" using assms(1) by (auto simp: kmem_inv_def)
  have "h \<notin> kmem_free s" using assms(3) page_bytes_self [of h] by (auto simp: free_bytes_def)
  then obtain t where t: "page_kfree kend h s = Inr t" "kmem_pages kend t (h # ps)"
    using page_kfree_pages [OF ps assms(2)] by blast
  then show ?thesis
    using free_bytes_eq [OF ps] free_bytes_eq [OF t(2)] kmem_pages_inv [OF t(2)] by auto
qed

lemma page_write_contract:
  assumes "kmem_inv kend s" and "page_bytes h \<inter> free_bytes s = {}"
  shows "kmem_inv kend (page_write h w s) \<and> free_bytes (page_write h w s) = free_bytes s"
proof -
  obtain ps where ps: "kmem_pages kend s ps" using assms(1) by (auto simp: kmem_inv_def)
  have "kmem_pages kend (page_write h w s) ps"
    by (rule kmem_pages_mem [OF ps, of "scribble (page_bytes h) w (mem s)"])
      (use assms(2) in \<open>auto simp: page_write_def scribble_def\<close>)
  then show ?thesis
    using free_bytes_eq [OF ps] free_bytes_eq [of kend "page_write h w s" ps] kmem_pages_inv by auto
qed

interpretation kmem_alloc: allocator "\<lambda>_. True" "kmem_inv kend" free_bytes "\<lambda>_. page_ok kend" page_bytes
  kalloc_opt "page_kfree kend" page_write
  for kend :: addr
proof (unfold_locales, goal_cases)
  case (1 s k)
  then show ?case by (cases rule: kalloc_opt_cases [where k = k]) auto
next
  case (2 s k h t)
  then show ?case using kalloc_opt_Some [of kend s k h t] by blast
next
  case (3 s k t)
  then show ?case
    using kalloc_opt_cases [of kend s k "kmem_inv kend t \<and> free_bytes t = free_bytes s"] by auto
next
  case (4 s h)
  then show ?case using page_kfree_contract [of kend s h] by blast
next
  case (5 s h w)
  then show ?case using page_write_contract [of kend s h w] by blast
qed

section \<open>Initialisation\<close>

lemma PGROUNDUP_unat:
  assumes "unat a \<le> 2 ^ 63"
  shows "unat (PGROUNDUP a) = (unat a + 4095) div 4096 * 4096"
proof -
  have "PGROUNDUP a = (a + 4095) AND NOT (mask 12)"
    by (simp add: PGROUNDUP_def PGSIZE_def mask_eq_exp_minus_1 add_diff_eq [symmetric])
  moreover have "unat (a + 4095) = unat a + 4095"
    using assms by (simp add: unat_plus_if')
  ultimately show ?thesis using unat_and_not_mask [of "a + 4095" 12] by simp
qed

lemma PGROUNDUP_aligned: "unat a \<le> 2 ^ 63 \<Longrightarrow> aligned (PGROUNDUP a)"
  by (simp add: aligned_unat PGROUNDUP_unat)

lemma aligned_step:
  assumes "aligned p" and "unat p + 4096 < 2 ^ 64"
  shows "aligned (p + PGSIZE)" and "unat (p + PGSIZE) = unat p + 4096"
  using assms by (simp_all add: aligned_unat PGSIZE_def unat_plus_if')

text \<open>The pages that lie whole between two addresses.\<close>

definition pages_between :: "addr \<Rightarrow> addr \<Rightarrow> addr set" where
  "pages_between a b = {p. aligned p \<and> a \<le> p \<and> unat p + 4096 \<le> unat b}"

lemma pages_between_step:
  assumes "aligned p" and "unat p + 4096 \<le> unat b"
  shows "pages_between p b = insert p (pages_between (p + PGSIZE) b)"
proof -
  have u: "unat (p + PGSIZE) = unat p + 4096"
    using aligned_step [OF assms(1)] assms(2) unat64_less [of b] by linarith
  have "p \<le> q \<and> q \<noteq> p \<longleftrightarrow> p + PGSIZE \<le> q" if q: "aligned q" for q
  proof -
    obtain j k where "unat p = 4096 * j" "unat q = 4096 * k"
      using q assms(1) by (auto elim!: alignedE)
    then show ?thesis by (auto simp: word_le_nat_alt u word_unat_eq_iff)
  qed
  then show ?thesis
    using assms by (auto simp: pages_between_def)
qed

lemma freerange_loop_pages:
  "aligned p \<Longrightarrow> kend \<le> p \<Longrightarrow> 0 < kend \<Longrightarrow> pa_end \<le> PHYSTOP \<Longrightarrow> p \<le> PHYSTOP + PGSIZE \<Longrightarrow>
   kmem_pages kend s ps \<Longrightarrow> (\<forall>q \<in> set ps. q < p) \<Longrightarrow>
   \<exists>t qs. freerange_loop kend p pa_end s = Some (Inr t) \<and> kmem_pages kend t qs \<and>
     set qs = set ps \<union> pages_between p pa_end"
proof (induction "unat pa_end - unat p" arbitrary: p s ps rule: less_induct)
  case less
  let ?p = "p + PGSIZE"
  have b: "unat pa_end \<le> 0x88000000" "unat p \<le> 0x88001000"
    using less.prems(4,5) by (simp_all add: PHYSTOP_def KERNBASE_def PGSIZE_def word_le_nat_alt)
  have p: "aligned ?p" "unat ?p = unat p + 4096"
    using aligned_step [OF less.prems(1)] b by simp_all
  show ?case
  proof (cases "?p \<le> pa_end")
    case False
    then have "pages_between p pa_end = {}"
      using p by (auto simp: pages_between_def word_le_nat_alt)
    then show ?thesis
      using less.prems(6) False by (intro exI [of _ s] exI [of _ ps]) (simp add: freerange_loop.simps)
  next
    case True
    then have le: "unat p + 4096 \<le> unat pa_end" using p by (simp add: word_le_nat_alt)
    then have ok: "page_ok kend p"
      using less.prems b by (simp add: page_ok_def PHYSTOP_def KERNBASE_def word_less_nat_alt)
    have "p \<notin> kmem_free s" using less.prems kmem_free_eq [OF less.prems(6)] by auto
    then obtain u where u: "page_kfree kend p s = Inr u" "kmem_pages kend u (p # ps)"
      using page_kfree_pages [OF less.prems(6) ok] by blast
    have "\<forall>q \<in> set (p # ps). q < ?p"
      using less.prems(7) p(2) by (auto simp: word_less_nat_alt)
    moreover have "kend \<le> ?p" "?p \<le> PHYSTOP + PGSIZE"
      using less.prems b le p by (auto simp: word_le_nat_alt PHYSTOP_def KERNBASE_def PGSIZE_def)
    moreover have "unat pa_end - unat ?p < unat pa_end - unat p" using le p by linarith
    ultimately obtain t qs where "freerange_loop kend ?p pa_end u = Some (Inr t)"
        "kmem_pages kend t qs" "set qs = set (p # ps) \<union> pages_between ?p pa_end"
      using less.hyps [of ?p u "p # ps"] less.prems(3,4) p u(2) le by auto
    then show ?thesis
      using True u(1) pages_between_step [OF less.prems(1) le]
      by (auto simp: freerange_loop.simps [of kend p])
  qed
qed

lemma pages_between_PGROUNDUP:
  assumes "unat a \<le> 2 ^ 63"
  shows "pages_between (PGROUNDUP a) b = pages_between a b"
proof -
  have "PGROUNDUP a \<le> q \<longleftrightarrow> a \<le> q" if q: "aligned q" for q
  proof -
    obtain k where "unat q = 4096 * k" using q by (rule alignedE)
    then show ?thesis by (auto simp: word_le_nat_alt PGROUNDUP_unat [OF assms])
  qed
  then show ?thesis by (auto simp: pages_between_def)
qed

definition kalloc_top :: addr where
  "kalloc_top = PHYSTOP - SLAB_RESERVED_BLOCKS * BLOCK_SIZE"

lemma kalloc_top_val: "kalloc_top = 0x87C00000"
  by (simp add: kalloc_top_def PHYSTOP_def KERNBASE_def SLAB_RESERVED_BLOCKS_def BLOCK_SIZE_def)

lemma kinit_kmem:
  assumes "0 < kend" and "kend \<le> kalloc_top" and "freelist s = 0"
  shows "\<exists>t. kinit kend s = Inr t \<and> kmem_inv kend t \<and> kmem_free t = pages_between kend kalloc_top"
proof -
  have k: "unat kend \<le> 0x87C00000" using assms(2) by (simp add: kalloc_top_val word_le_nat_alt)
  then have u: "unat (PGROUNDUP kend) = (unat kend + 4095) div 4096 * 4096"
    by (simp add: PGROUNDUP_unat)
  have "unat kend \<le> unat (PGROUNDUP kend) \<and> unat (PGROUNDUP kend) \<le> 0x88001000"
    using k unfolding u by linarith
  then have g: "kend \<le> PGROUNDUP kend" "PGROUNDUP kend \<le> PHYSTOP + PGSIZE"
    by (simp_all add: word_le_nat_alt PHYSTOP_def KERNBASE_def PGSIZE_def)
  have "kalloc_top \<le> PHYSTOP" by (simp add: kalloc_top_val PHYSTOP_def KERNBASE_def)
  moreover have "kmem_pages kend (init_lock L_kmem s) []"
    using assms(3) by (simp add: kmem_pages_def init_lock_def)
  ultimately obtain t qs where t: "freerange_loop kend (PGROUNDUP kend) kalloc_top (init_lock L_kmem s) = Some (Inr t)"
      "kmem_pages kend t qs" "set qs = pages_between (PGROUNDUP kend) kalloc_top"
    using freerange_loop_pages [OF PGROUNDUP_aligned g(1) assms(1) _ g(2), of kalloc_top "init_lock L_kmem s" "[]"] k
    by auto
  then show ?thesis
    using k kmem_pages_inv [OF t(2)] kmem_free_eq [OF t(2)]
    by (simp add: kinit_def freerange_def kalloc_top_def [symmetric] pages_between_PGROUNDUP)
qed

section \<open>Properties\<close>

text \<open>
  C7: After \<^verbatim>\<open>kinit\<close>, whatever sequence of \<^verbatim>\<open>kalloc\<close>, \<^verbatim>\<open>page_kfree\<close> of pages it holds, and writes
  of any bytes inside the pages it holds a client makes, nothing panics; at every moment the pages
  it holds are page-aligned, lie between \<^verbatim>\<open>end\<close> and \<^verbatim>\<open>PHYSTOP\<close>, do not overlap each other or the
  free pages, and free and held pages together are all whole pages between \<^verbatim>\<open>end\<close> and the
  region reserved for the slab allocator.
\<close>

theorem kalloc_run_safe:
  assumes "0 < kend" and "kend \<le> kalloc_top" and "freelist s = 0"
  shows "\<exists>t0 t live. kinit kend s = Inr t0 \<and>
    alloc_run kalloc_opt (page_kfree kend) page_write ops (t0, []) = Inr (t, live) \<and>
    kmem_inv kend t \<and> apart page_bytes live \<and>
    (\<forall>h \<in> set live. page_ok kend h \<and> page_bytes h \<inter> free_bytes t = {}) \<and>
    free_bytes t \<union> \<Union> (page_bytes ` set live) = \<Union> (page_bytes ` pages_between kend kalloc_top)"
proof -
  obtain t0 where t0: "kinit kend s = Inr t0" "kmem_inv kend t0"
      "kmem_free t0 = pages_between kend kalloc_top"
    using kinit_kmem [OF assms] by blast
  then have "kmem_alloc.live_ok kend t0 []" by (simp add: kmem_alloc.live_ok_def apart_def)
  from kmem_alloc.run_safe [OF this, of ops] obtain t live where
      "alloc_run kalloc_opt (page_kfree kend) page_write ops (t0, []) = Inr (t, live)"
      "kmem_alloc.live_ok kend t live" "kmem_alloc.space t live = kmem_alloc.space t0 []"
    by blast
  then show ?thesis
    using t0 by (auto simp: kmem_alloc.live_ok_def kmem_alloc.space_def free_bytes_def)
qed

theorem kalloc_run_safe_witness:
  "\<exists>t0 t live. kinit 0x80024000 \<lparr>held = {}, mem = (\<lambda>_. 0), freelist = 0\<rparr> = Inr t0 \<and>
    alloc_run kalloc_opt (page_kfree 0x80024000) page_write [Alloc (), Use 0 (\<lambda>_. 7), Free 0] (t0, []) =
      Inr (t, live) \<and> apart page_bytes live"
  using kalloc_run_safe [of "0x80024000" "\<lparr>held = {}, mem = (\<lambda>_. 0), freelist = 0\<rparr>"
      "[Alloc (), Use 0 (\<lambda>_. 7), Free 0]"]
  by (auto simp: kalloc_top_val)

text \<open>
  C14: \<^verbatim>\<open>kalloc\<close> returns the head of the free list filled with the byte 5, or a null pointer
  exactly when the list is empty; it removes that page and no other, touches no other byte, and
  leaves the locks as they were.
\<close>

theorem kalloc_takes_head:
  assumes "kmem_pages kend s ps"
  shows "\<exists>t. kalloc s = Inr (case ps of [] \<Rightarrow> 0 | p # _ \<Rightarrow> p, t) \<and> kmem_pages kend t (tl ps) \<and>
    held t = held s \<and>
    mem t = (\<lambda>x. if ps \<noteq> [] \<and> x \<in> page_bytes (hd ps) then 5 else mem s x)"
proof (cases ps)
  case Nil
  then show ?thesis using kalloc_empty [of kend s] assms by simp
next
  case (Cons p qs)
  then show ?thesis using kalloc_pages [of kend s p qs] assms by (auto simp: memset_page fun_eq_iff)
qed

lemma one_page:
  "kmem_pages 0x80024000 \<lparr>held = {}, mem = (\<lambda>_. 0), freelist = 0x80025000\<rparr> [0x80025000]"
  by (simp add: kmem_pages_def load64_def page_ok_def aligned_def PGSIZE_def PHYSTOP_def KERNBASE_def)

theorem kalloc_takes_head_witness:
  "\<exists>t. kalloc \<lparr>held = {}, mem = (\<lambda>_. 0), freelist = 0x80025000\<rparr> = Inr (0x80025000, t) \<and>
    kmem_pages 0x80024000 t [] \<and> mem t 0x80025FFF = 5 \<and> mem t 0x80026000 = 0"
  using kalloc_takes_head [OF one_page] by (auto simp: page_bytes_def PGSIZE_def)

text \<open>
  C15: \<^verbatim>\<open>page_kfree\<close> panics exactly on an address that is not page-aligned, lies below \<^verbatim>\<open>end\<close> or at or
  above \<^verbatim>\<open>PHYSTOP\<close>, or when its caller already holds the allocator's lock; otherwise the page becomes
  the head of the free list, so that the next \<^verbatim>\<open>kalloc\<close> returns it.
\<close>

theorem page_kfree_kalloc:
  assumes "pa \<noteq> 0"
  shows "(\<not> aligned pa \<or> pa < kend \<or> PHYSTOP \<le> pa \<longrightarrow> page_kfree kend pa s = Inl (Panic ''page_kfree'')) \<and>
    (aligned pa \<and> kend \<le> pa \<and> pa < PHYSTOP \<longrightarrow>
      (if L_kmem \<in> held s then page_kfree kend pa s = Inl (Panic ''acquire'')
       else \<exists>t u. page_kfree kend pa s = Inr t \<and> kalloc t = Inr (pa, u) \<and>
         freelist u = freelist s \<and> held u = held s))"
  using assms
  by (auto simp: page_kfree_def aligned_def acquire_def holding_def kalloc_def not_le [symmetric])

theorem page_kfree_kalloc_witness:
  "\<exists>t u. page_kfree 0x80024000 0x80025000 \<lparr>held = {}, mem = (\<lambda>_. 0), freelist = 0x80026000\<rparr> = Inr t \<and>
     kalloc t = Inr (0x80025000, u) \<and> freelist u = 0x80026000"
  using page_kfree_kalloc [of "0x80025000" "0x80024000" "\<lparr>held = {}, mem = (\<lambda>_. 0), freelist = 0x80026000\<rparr>"]
  by (auto simp: aligned_def PGSIZE_def PHYSTOP_def KERNBASE_def)

end
