(* ===== verification/Buddy_Abs.thy ===== *)
theory Buddy_Abs
  imports Main "HOL-Library.Word"
begin

text \<open>
  The abstract buddy system: a region of \<open>2 ^ K\<close> blocks numbered from 0, and for every order
  \<open>o\<close> a set of free chunks of \<open>2 ^ o\<close> blocks. The theory holds the arithmetic of buddies and
  parents, the two abstract operations on the family of sets (\<open>split\<close> of a chunk in
  \<^verbatim>\<open>buddy_alloc\<close>, merging in \<^verbatim>\<open>buddy_free\<close>), and what full coalescing means: the free chunks
  are exactly the maximal aligned free runs, so they are determined by the free blocks alone.
\<close>

unbundle bit_operations_syntax

section \<open>Buddies\<close>

definition bud :: "nat \<Rightarrow> nat \<Rightarrow> nat" where
  "bud k i = i XOR 2 ^ k"

definition par :: "nat \<Rightarrow> nat \<Rightarrow> nat" where
  "par k i = (if bit i k then i - 2 ^ k else i)"

definition cells :: "nat \<Rightarrow> nat \<Rightarrow> nat set" where
  "cells k i = {i ..< i + 2 ^ k}"

lemma bud_mult: "bud k (2 ^ k * q) = 2 ^ k * (if even q then q + 1 else q - 1)"
proof -
  have "bud k (2 ^ k * q) = push_bit k q XOR push_bit k 1"
    by (simp add: bud_def push_bit_eq_mult mult.commute)
  also have "\<dots> = push_bit k (q XOR 1)" by (simp only: push_bit_xor)
  finally show ?thesis by (auto simp: xor_Suc_0_eq push_bit_eq_mult mult.commute)
qed

lemma bit_mult: "bit (2 ^ k * q :: nat) k = odd q"
  by (simp add: bit_iff_odd)

lemma par_mult: "par k (2 ^ k * q) = 2 ^ k * (if even q then q else q - 1)"
  by (auto simp: par_def bit_mult right_diff_distrib')

lemma dvd_SucE:
  assumes "2 ^ k dvd (i::nat)"
  obtains q where "i = 2 ^ k * q" "2 ^ Suc k dvd i \<longleftrightarrow> even q"
proof -
  from assms obtain q where q: "i = 2 ^ k * q" by (rule dvdE)
  moreover have "2 ^ Suc k dvd i \<longleftrightarrow> even q"
    by (simp add: q)
  ultimately show thesis by (rule that)
qed

lemma bud_left: "2 ^ Suc k dvd i \<Longrightarrow> bud k i = i + 2 ^ k"
  using bud_mult [of k "2 * (i div 2 ^ Suc k)"] dvd_mult_div_cancel [of "2 ^ Suc k" i]
  by (simp add: algebra_simps)

lemma par_left: "2 ^ Suc k dvd i \<Longrightarrow> par k i = i"
  using par_mult [of k "2 * (i div 2 ^ Suc k)"] dvd_mult_div_cancel [of "2 ^ Suc k" i]
  by (simp add: algebra_simps)

lemma bud_right:
  assumes "2 ^ k dvd i" "\<not> 2 ^ Suc k dvd i"
  shows "2 ^ k \<le> i" "bud k i = i - 2 ^ k" "par k i = i - 2 ^ k" "2 ^ Suc k dvd (i - 2 ^ k)"
proof -
  from assms(1) obtain q where "i = 2 ^ k * q" "2 ^ Suc k dvd i \<longleftrightarrow> even q" by (rule dvd_SucE)
  then have q: "i = 2 ^ k * q" "odd q" using assms(2) by auto
  then obtain r where r: "q = Suc (2 * r)" by (auto elim: oddE)
  then have i: "i = 2 ^ k + 2 ^ Suc k * r" by (simp add: q(1) algebra_simps)
  show "2 ^ k \<le> i" by (simp add: i)
  show "bud k i = i - 2 ^ k" "par k i = i - 2 ^ k"
    using q(2) by (simp_all add: q(1) bud_mult par_mult right_diff_distrib')
  show "2 ^ Suc k dvd (i - 2 ^ k)" by (simp add: i)
qed

lemma bud_bud [simp]: "bud k (bud k i) = i"
  by (simp add: bud_def xor.assoc)

lemma bud_neq [simp]: "bud k i \<noteq> i"
proof
  assume "bud k i = i"
  then have "i XOR (i XOR 2 ^ k) = 0" by (simp add: bud_def)
  then show False by (simp flip: xor.assoc)
qed

lemma bud_dvd: "2 ^ k dvd i \<Longrightarrow> 2 ^ k dvd bud k i"
  by (metis bud_mult dvdE dvd_triv_left)

lemma par_dvd: "2 ^ k dvd i \<Longrightarrow> 2 ^ Suc k dvd par k i"
  by (cases "2 ^ Suc k dvd i") (simp_all add: par_left bud_right del: power_Suc)

lemma cells_par: "2 ^ k dvd i \<Longrightarrow> cells (Suc k) (par k i) = cells k i \<union> cells k (bud k i)"
proof -
  assume i: "2 ^ k dvd i"
  show ?thesis
  proof (cases "2 ^ Suc k dvd i")
    case True
    then show ?thesis by (auto simp: cells_def par_left [OF True] bud_left [OF True])
  next
    case False
    from bud_right [OF i False] show ?thesis by (auto simp: cells_def)
  qed
qed

lemma cells_disjoint_bud: "2 ^ k dvd i \<Longrightarrow> cells k i \<inter> cells k (bud k i) = {}"
proof -
  assume i: "2 ^ k dvd i"
  show ?thesis
  proof (cases "2 ^ Suc k dvd i")
    case True
    then show ?thesis by (auto simp: cells_def bud_left [OF True])
  next
    case False
    from bud_right [OF i False] show ?thesis by (auto simp: cells_def)
  qed
qed

lemma cells_self [simp]: "i \<in> cells k i"
  by (simp add: cells_def)

lemma cells_subset_iff: "cells k i \<subseteq> cells l j \<longleftrightarrow> j \<le> i \<and> i + 2 ^ k \<le> j + 2 ^ l"
  by (simp add: cells_def)

lemma cells_div: "2 ^ k dvd i \<Longrightarrow> c \<in> cells k i \<longleftrightarrow> c div 2 ^ k = i div 2 ^ k"
proof -
  assume "2 ^ k dvd i"
  then obtain q where q: "i = 2 ^ k * q" by (auto elim: dvdE)
  have "c div 2 ^ k = q \<longleftrightarrow> 2 ^ k * q \<le> c \<and> c < 2 ^ k * q + 2 ^ k"
    using div_nat_eqI [of "2 ^ k" q c]
    by (auto simp: dividend_less_times_div add.commute)
  then show ?thesis by (auto simp: q cells_def)
qed

text \<open>Two aligned chunks overlap only if one lies inside the other.\<close>

lemma cells_nested:
  assumes "2 ^ k dvd i" "2 ^ l dvd j" "k \<le> l" "c \<in> cells k i" "c \<in> cells l j"
  shows "cells k i \<subseteq> cells l j"
proof
  fix d assume "d \<in> cells k i"
  have l: "(2::nat) ^ l = 2 ^ k * 2 ^ (l - k)"
    using \<open>k \<le> l\<close> by (metis le_add_diff_inverse power_add)
  have "x div 2 ^ l = x div 2 ^ k div 2 ^ (l - k)" for x :: nat
    unfolding l by (rule div_mult2_eq)
  moreover have "d div 2 ^ k = c div 2 ^ k"
    using \<open>d \<in> cells k i\<close> assms(1,4) by (simp add: cells_div)
  ultimately show "d \<in> cells l j" using assms(2,5) by (simp add: cells_div)
qed

section \<open>Families of free chunks\<close>

type_synonym chunks = "nat \<Rightarrow> nat set"

definition chunk_ok :: "nat \<Rightarrow> nat \<Rightarrow> nat \<Rightarrow> bool" where
  "chunk_ok K k i \<longleftrightarrow> k \<le> K \<and> 2 ^ k dvd i \<and> i + 2 ^ k \<le> 2 ^ K"

definition chunks_ok :: "nat \<Rightarrow> chunks \<Rightarrow> bool" where
  "chunks_ok K F \<longleftrightarrow> (\<forall>k i. i \<in> F k \<longrightarrow> chunk_ok K k i) \<and>
     (\<forall>k i l j. i \<in> F k \<and> j \<in> F l \<and> cells k i \<inter> cells l j \<noteq> {} \<longrightarrow> k = l \<and> i = j)"

definition coalesced :: "nat \<Rightarrow> chunks \<Rightarrow> bool" where
  "coalesced K F \<longleftrightarrow> (\<forall>k < K. \<forall>i \<in> F k. bud k i \<notin> F k)"

definition free_cells :: "chunks \<Rightarrow> nat set" where
  "free_cells F = (\<Union>k. \<Union>i \<in> F k. cells k i)"

definition add_chunk :: "nat \<Rightarrow> nat \<Rightarrow> chunks \<Rightarrow> chunks" where
  "add_chunk k i F = F(k := insert i (F k))"

definition del_chunk :: "nat \<Rightarrow> nat \<Rightarrow> chunks \<Rightarrow> chunks" where
  "del_chunk k i F = F(k := F k - {i})"

lemma add_chunk_iff: "j \<in> add_chunk k i F l \<longleftrightarrow> (l = k \<and> j = i) \<or> j \<in> F l"
  by (auto simp: add_chunk_def)

lemma del_chunk_iff: "j \<in> del_chunk k i F l \<longleftrightarrow> \<not> (l = k \<and> j = i) \<and> j \<in> F l"
  by (auto simp: del_chunk_def)

lemma free_cells_iff: "c \<in> free_cells F \<longleftrightarrow> (\<exists>k i. i \<in> F k \<and> c \<in> cells k i)"
  by (auto simp: free_cells_def)

lemma free_cells_add: "free_cells (add_chunk k i F) = free_cells F \<union> cells k i"
  by (rule set_eqI) (simp add: free_cells_iff add_chunk_iff, blast)

lemma chunk_unique:
  "chunks_ok K F \<Longrightarrow> i \<in> F k \<Longrightarrow> j \<in> F l \<Longrightarrow> c \<in> cells k i \<Longrightarrow> c \<in> cells l j \<Longrightarrow> k = l \<and> i = j"
  unfolding chunks_ok_def by blast

lemma chunks_ok_chunk: "chunks_ok K F \<Longrightarrow> i \<in> F k \<Longrightarrow> chunk_ok K k i"
  by (auto simp: chunks_ok_def)

lemma free_cells_del:
  assumes "chunks_ok K F" and "i \<in> F k"
  shows "free_cells (del_chunk k i F) = free_cells F - cells k i"
proof (rule set_eqI)
  fix c
  show "c \<in> free_cells (del_chunk k i F) \<longleftrightarrow> c \<in> free_cells F - cells k i"
    using chunk_unique [OF assms(1) assms(2), of _ _ c] by (fastforce simp: free_cells_iff del_chunk_iff)
qed

lemma chunks_ok_del: "chunks_ok K F \<Longrightarrow> chunks_ok K (del_chunk k i F)"
  unfolding chunks_ok_def del_chunk_iff by blast

lemma chunks_ok_add:
  assumes "chunks_ok K F" and "chunk_ok K k i" and "cells k i \<inter> free_cells F = {}"
  shows "chunks_ok K (add_chunk k i F)"
proof -
  have d: "cells k i \<inter> cells l j = {}" if "j \<in> F l" for l j
    using assms(3) that by (force simp: free_cells_iff)
  then have d': "cells l j \<inter> cells k i = {}" if "j \<in> F l" for l j using that by blast
  show ?thesis
    unfolding chunks_ok_def add_chunk_iff
  proof (intro conjI allI impI)
    fix l j assume "(l = k \<and> j = i) \<or> j \<in> F l"
    then show "chunk_ok K l j" using assms(2) chunks_ok_chunk [OF assms(1)] by blast
  next
    fix l j l' j'
    assume *: "((l = k \<and> j = i) \<or> j \<in> F l) \<and> ((l' = k \<and> j' = i) \<or> j' \<in> F l') \<and>
      cells l j \<inter> cells l' j' \<noteq> {}"
    then show "l = l'" using d d' chunk_unique [OF assms(1)] by blast
    from * show "j = j'" using d d' chunk_unique [OF assms(1)] by blast
  qed
qed

lemma coalesced_del: "coalesced K F \<Longrightarrow> coalesced K (del_chunk k i F)"
  by (auto simp: coalesced_def del_chunk_iff)

lemma coalesced_add:
  assumes "coalesced K F" and "bud k i \<notin> F k"
  shows "coalesced K (add_chunk k i F)"
  using assms by (auto simp: coalesced_def add_chunk_iff bud_neq [symmetric])

lemma dvd_bound:
  assumes "d dvd x" and "d dvd n" and "x < (n::nat)"
  shows "x + d \<le> n"
proof -
  obtain a b where ab: "x = d * a" "n = d * b" using assms(1,2) by (auto elim!: dvdE)
  then have "a < b" using assms(3) by (metis mult_less_cancel1)
  then have "d * Suc a \<le> d * b" by (intro mult_le_mono2) simp
  then show ?thesis by (simp add: ab add.commute)
qed

lemma chunk_ok_par:
  assumes "chunk_ok K k i" and "k < K"
  shows "chunk_ok K (Suc k) (par k i)"
proof -
  have i: "2 ^ k dvd i" "i + 2 ^ k \<le> 2 ^ K" using assms by (auto simp: chunk_ok_def)
  have "par k i \<le> i" by (simp add: par_def)
  also have "i < i + 2 ^ k" by simp
  finally have "par k i < 2 ^ K" using i(2) by linarith
  then have "par k i + 2 ^ Suc k \<le> 2 ^ K"
    using par_dvd [OF i(1)] assms(2) by (intro dvd_bound le_imp_power_dvd) simp_all
  then show ?thesis using par_dvd [OF i(1)] assms(2) by (simp add: chunk_ok_def del: power_Suc)
qed

lemma cells_mono_eq:
  assumes "cells k i \<subseteq> cells k j"
  shows "i = j"
  using assms by (simp add: cells_subset_iff)

section \<open>Full coalescing\<close>

text \<open>Every aligned free run lies inside one free chunk.\<close>

lemma free_run_covered:
  assumes F: "chunks_ok K F" "coalesced K F"
  shows "k \<le> K \<Longrightarrow> 2 ^ k dvd i \<Longrightarrow> cells k i \<subseteq> free_cells F \<Longrightarrow>
    \<exists>l j. k \<le> l \<and> j \<in> F l \<and> cells k i \<subseteq> cells l j"
proof (induction k arbitrary: i)
  case 0
  have "i \<in> free_cells F" using 0 cells_self [of i 0] by blast
  then obtain l j where "j \<in> F l" "i \<in> cells l j" by (auto simp: free_cells_iff)
  then show ?case by (intro exI [of _ l] exI [of _ j]) (auto simp: cells_def)
next
  case (Suc k)
  have d: "2 ^ k dvd i" using Suc.prems(2) by (rule dvd_trans [OF le_imp_power_dvd, rotated]) simp
  have u: "cells (Suc k) i = cells k i \<union> cells k (i + 2 ^ k)"
    using cells_par [OF d] by (simp add: par_left [OF Suc.prems(2)] bud_left [OF Suc.prems(2)])
  have d': "2 ^ k dvd i + 2 ^ k" using d by simp
  obtain l j where l: "k \<le> l" "j \<in> F l" "cells k i \<subseteq> cells l j"
    using Suc.IH [OF _ d] Suc.prems u by auto
  obtain l' j' where l': "k \<le> l'" "j' \<in> F l'" "cells k (i + 2 ^ k) \<subseteq> cells l' j'"
    using Suc.IH [OF _ d'] Suc.prems u by auto
  have ok: "2 ^ l dvd j" "2 ^ l' dvd j'"
    using chunks_ok_chunk [OF F(1)] l(2) l'(2) by (auto simp: chunk_ok_def)
  have one: ?case if "Suc k \<le> m" "g \<in> F m" "c \<in> cells (Suc k) i" "c \<in> cells m g" for m g c
    using cells_nested [OF Suc.prems(2) _ that(1,3,4)] chunks_ok_chunk [OF F(1) that(2)] that(1,2)
    by (auto simp: chunk_ok_def)
  show ?case
  proof (cases "k = l \<and> k = l'")
    case True
    then have "i = j" "i + 2 ^ k = j'" using l(3) l'(3) cells_mono_eq by blast+
    then have "i \<in> F k" "bud k i \<in> F k"
      using True l(2) l'(2) bud_left [OF Suc.prems(2)] by metis+
    then show ?thesis using F(2) Suc.prems(1) by (auto simp: coalesced_def)
  next
    case False
    then show ?thesis
      using one [of l j i] one [of l' j' "i + 2 ^ k"] l l' u cells_self [of i k] cells_self [of "i + 2 ^ k" k]
      by (metis UnI1 UnI2 Suc_leI le_neq_implies_less subsetD)
  qed
qed

text \<open>The free chunks are the maximal aligned free runs.\<close>

lemma chunks_canonical:
  assumes F: "chunks_ok K F" "coalesced K F"
  shows "i \<in> F k \<longleftrightarrow> chunk_ok K k i \<and> cells k i \<subseteq> free_cells F \<and>
    (k < K \<longrightarrow> \<not> cells (Suc k) (par k i) \<subseteq> free_cells F)"
proof (intro iffI conjI impI notI)
  assume i: "i \<in> F k"
  show ok: "chunk_ok K k i" by (rule chunks_ok_chunk [OF F(1) i])
  show "cells k i \<subseteq> free_cells F" using i by (auto simp: free_cells_def)
  assume k: "k < K" and sub: "cells (Suc k) (par k i) \<subseteq> free_cells F"
  have d: "2 ^ k dvd i" using ok by (simp add: chunk_ok_def)
  obtain l j where l: "Suc k \<le> l" "j \<in> F l" "cells (Suc k) (par k i) \<subseteq> cells l j"
    using free_run_covered [OF F _ par_dvd [OF d] sub] k by auto
  then have "i \<in> cells l j" using cells_par [OF d] cells_self [of i k] by blast
  then show False using chunk_unique [OF F(1) i l(2) cells_self] l(1) by auto
next
  assume *: "chunk_ok K k i \<and> cells k i \<subseteq> free_cells F \<and>
    (k < K \<longrightarrow> \<not> cells (Suc k) (par k i) \<subseteq> free_cells F)"
  then have d: "2 ^ k dvd i" "k \<le> K" by (auto simp: chunk_ok_def)
  obtain l j where l: "k \<le> l" "j \<in> F l" "cells k i \<subseteq> cells l j"
    using free_run_covered [OF F d(2,1)] * by auto
  show "i \<in> F k"
  proof (cases "k = l")
    case True
    then show ?thesis using l cells_mono_eq [of k i j] by auto
  next
    case False
    have j: "2 ^ l dvd j" "l \<le> K" using chunks_ok_chunk [OF F(1) l(2)] by (auto simp: chunk_ok_def)
    have "i \<in> cells (Suc k) (par k i)" using cells_par [OF d(1)] cells_self [of i k] by blast
    moreover have "i \<in> cells l j" using l(3) cells_self [of i k] by blast
    ultimately have "cells (Suc k) (par k i) \<subseteq> cells l j"
      using cells_nested [OF par_dvd [OF d(1)] j(1)] False l(1) by simp
    also have "\<dots> \<subseteq> free_cells F" using l(2) by (auto simp: free_cells_def)
    finally show ?thesis using * False l(1) j(2) by auto
  qed
qed

lemma chunks_determined:
  assumes "chunks_ok K F" "coalesced K F" "chunks_ok K G" "coalesced K G"
    and "free_cells F = free_cells G"
  shows "F = G"
  by (rule ext, rule set_eqI)
    (simp only: chunks_canonical [OF assms(1,2)] chunks_canonical [OF assms(3,4)] assms(5))

lemma whole_region:
  "chunks_ok K ((\<lambda>_. {})(K := {0}))" "coalesced K ((\<lambda>_. {})(K := {0}))"
  "free_cells ((\<lambda>_. {})(K := {0})) = {0 ..< 2 ^ K}"
  by (auto simp: chunks_ok_def chunk_ok_def coalesced_def free_cells_iff cells_def split: if_splits)

end
