(* ===== verification/Buddy.thy ===== *)
theory Buddy
  imports Kalloc Buddy_Abs "HOL-Library.Signed_Division"
begin

text \<open>
  \<^verbatim>\<open>kernel/buddy.c\<close>, the buddy allocator of runs of 4096-byte blocks. Its free lists are threaded
  through the free chunks in the byte memory. An access to \<^verbatim>\<open>free_list\<close> outside the array, a null
  dereference and an overflow of \<^verbatim>\<open>int\<close> are faults. Orders, which the code keeps in \<^verbatim>\<open>int\<close>
  variables that it never lets go below 0, are natural numbers.
\<close>

section \<open>Definitions\<close>

definition MAX_ORDER :: nat where "MAX_ORDER = 15"

definition INT_MAX :: int where "INT_MAX = 2147483647"

record buddy_st = phys_st +
  max_order :: nat
  free_list :: "addr list"
  memory_start :: addr
  total_blocks :: int
  free_blocks :: int

function log2_floor_loop :: "int \<Rightarrow> nat \<Rightarrow> nat" where
  "log2_floor_loop x result = (if x > 1 then log2_floor_loop (x div 2) (result + 1) else result)"
  by auto
termination by (relation "measure (\<lambda>(x, _). nat x)") auto

definition log2_floor :: "int \<Rightarrow> nat" where
  "log2_floor x = log2_floor_loop x 0"

partial_function (option) log2_ceil_loop :: "int \<Rightarrow> int \<Rightarrow> nat \<Rightarrow> nat res option" where
  "log2_ceil_loop x pw result =
     (if pw < x
      then (if pw * 2 > INT_MAX then Some (Inl (Fault ''int overflow''))
            else log2_ceil_loop x (pw * 2) (result + 1))
      else Some (Inr result))"

definition log2_ceil :: "int \<Rightarrow> nat res" where
  "log2_ceil x = (if x \<le> 1 then Inr 0 else bindR (of_loop (log2_ceil_loop x 1 0)) id)"

text \<open>\<^verbatim>\<open>round_up_pow2\<close> doubles a 64-bit word and returns it cut to \<^verbatim>\<open>int\<close>.\<close>

partial_function (option) round_up_pow2_loop :: "addr \<Rightarrow> addr \<Rightarrow> addr option" where
  "round_up_pow2_loop sz pw =
     (if pw < sz then round_up_pow2_loop sz (push_bit 1 pw) else Some pw)"

definition round_up_pow2 :: "addr \<Rightarrow> int res" where
  "round_up_pow2 sz =
     bindR (of_loop (round_up_pow2_loop sz 1)) (\<lambda>pw. Inr (sint (ucast pw :: uint32)))"

definition block_index :: "addr \<Rightarrow> 'z buddy_st_scheme \<Rightarrow> addr" where
  "block_index ptr s = word_of_int (sint (ptr - memory_start s) sdiv 4096)"

definition get_buddy :: "addr \<Rightarrow> nat \<Rightarrow> 'z buddy_st_scheme \<Rightarrow> addr" where
  "get_buddy ptr order s =
     (let buddy_index = block_index ptr s XOR push_bit order 1
      in memory_start s + buddy_index * BLOCK_SIZE)"

definition get_parent :: "addr \<Rightarrow> nat \<Rightarrow> 'z buddy_st_scheme \<Rightarrow> addr" where
  "get_parent ptr order s =
     (let parent_index = block_index ptr s AND NOT (push_bit order 1)
      in memory_start s + parent_index * BLOCK_SIZE)"

text \<open>Accesses to \<^verbatim>\<open>buddy.free_list[order]\<close> and to \<^verbatim>\<open>block->next\<close>.\<close>

definition fl_get :: "nat \<Rightarrow> 'z buddy_st_scheme \<Rightarrow> addr res" where
  "fl_get order s =
     (if order < length (free_list s) then Inr (free_list s ! order) else Inl (Fault ''free_list''))"

definition fl_set :: "nat \<Rightarrow> addr \<Rightarrow> 'z buddy_st_scheme \<Rightarrow> 'z buddy_st_scheme res" where
  "fl_set order p s =
     (if order < length (free_list s) then Inr (s\<lparr>free_list := (free_list s)[order := p]\<rparr>)
      else Inl (Fault ''free_list''))"

definition get_next :: "addr \<Rightarrow> 'z phys_st_scheme \<Rightarrow> addr res" where
  "get_next p s = (if p = 0 then Inl (Fault ''null'') else Inr (load64 (mem s) p))"

definition set_next :: "addr \<Rightarrow> addr \<Rightarrow> 'z phys_st_scheme \<Rightarrow> 'z phys_st_scheme res" where
  "set_next p v s = (if p = 0 then Inl (Fault ''null'') else Inr (s\<lparr>mem := store64 (mem s) p v\<rparr>))"

partial_function (option) remove_walk :: "memory \<Rightarrow> addr \<Rightarrow> addr \<Rightarrow> addr option" where
  "remove_walk m current block =
     (if current \<noteq> 0 \<and> load64 m current \<noteq> block then remove_walk m (load64 m current) block
      else Some current)"

definition remove_from_list :: "addr \<Rightarrow> nat \<Rightarrow> 'z buddy_st_scheme \<Rightarrow> 'z buddy_st_scheme res" where
  "remove_from_list block order s =
     bindR (fl_get order s) (\<lambda>head.
     if head = block then bindR (get_next block s) (\<lambda>nx. fl_set order nx s)
     else
       bindR (of_loop (remove_walk (mem s) head block)) (\<lambda>current.
       if current \<noteq> 0 then bindR (get_next block s) (\<lambda>nx. set_next current nx s)
       else Inr s))"

definition add_to_list :: "addr \<Rightarrow> nat \<Rightarrow> 'z buddy_st_scheme \<Rightarrow> 'z buddy_st_scheme res" where
  "add_to_list ptr order s =
     bindR (fl_get order s) (\<lambda>head.
     bindR (set_next ptr head s) (\<lambda>s.
     fl_set order ptr s))"

partial_function (option) free_walk :: "memory \<Rightarrow> addr \<Rightarrow> addr \<Rightarrow> bool option" where
  "free_walk m nx block =
     (if nx \<noteq> 0 then (if block = nx then Some True else free_walk m (load64 m nx) block)
      else Some False)"

definition is_block_free :: "addr \<Rightarrow> int \<Rightarrow> 'z buddy_st_scheme \<Rightarrow> bool res" where
  "is_block_free block order s =
     (if order < 0 \<or> order \<ge> int (max_order s) then Inr False
      else bindR (fl_get (nat order) s) (\<lambda>nx. of_loop (free_walk (mem s) nx block)))"

text \<open>\<^verbatim>\<open>while (1 << order > remaining) order--;\<close>\<close>

primrec lower_order :: "nat \<Rightarrow> int \<Rightarrow> nat res" where
  "lower_order 0 remaining = (if 1 > remaining then Inl (Fault ''shift'') else Inr 0)"
| "lower_order (Suc order) remaining =
     (if 2 ^ Suc order > remaining then lower_order order remaining else Inr (Suc order))"

text \<open>
  \<^verbatim>\<open>current\<close> has type \<^verbatim>\<open>struct buddy_block *\<close>, so \<^verbatim>\<open>current += size * BLOCK_SIZE\<close> moves it by 8
  bytes for each unit.
\<close>

partial_function (option) buddy_init_loop ::
  "addr \<Rightarrow> int \<Rightarrow> nat \<Rightarrow> 'z buddy_st_scheme \<Rightarrow> 'z buddy_st_scheme res option"
where
  "buddy_init_loop current remaining order s =
     (if remaining > 0
      then (case lower_order order remaining of
              Inl e \<Rightarrow> Some (Inl e)
            | Inr order \<Rightarrow>
                (case add_to_list current order s of
                   Inl e \<Rightarrow> Some (Inl e)
                 | Inr s \<Rightarrow>
                     (let size = 2 ^ order;
                          current = current + 8 * word_of_int (size * 4096);
                          remaining = remaining - size
                      in buddy_init_loop current remaining order s)))
      else Some (Inr s))"

definition buddy_init :: "addr \<Rightarrow> int \<Rightarrow> 'z buddy_st_scheme \<Rightarrow> 'z buddy_st_scheme res" where
  "buddy_init space block_num s =
     (if block_num < 1 then Inr s
      else bindR (log2_ceil block_num) (\<lambda>k.
        let max_ord = k + 1 in
        if max_ord > MAX_ORDER then Inr s
        else
          (let s = init_lock L_buddy s;
               s = s\<lparr>total_blocks := block_num, free_blocks := block_num, max_order := max_ord\<rparr>;
               s = s\<lparr>free_list := replicate max_ord 0 @ drop max_ord (free_list s)\<rparr>;
               s = s\<lparr>memory_start := space\<rparr>
           in bindR (of_loop (buddy_init_loop space block_num max_ord s)) id)))"

function find_order :: "nat \<Rightarrow> 'z buddy_st_scheme \<Rightarrow> nat res" where
  "find_order found_order s =
     (if found_order \<le> max_order s
      then bindR (fl_get found_order s) (\<lambda>p.
             if p = 0 then find_order (found_order + 1) s else Inr found_order)
      else Inr found_order)"
  by auto
termination by (relation "measure (\<lambda>(k, s). Suc (max_order s) - k)") auto

primrec split_loop ::
  "nat \<Rightarrow> nat \<Rightarrow> addr \<Rightarrow> 'z buddy_st_scheme \<Rightarrow> 'z buddy_st_scheme res"
where
  "split_loop 0 order block s = Inr s"
| "split_loop (Suc found_order) order block s =
     (if Suc found_order > order
      then bindR (add_to_list (block + word_of_int (2 ^ found_order * 4096)) found_order s)
             (split_loop found_order order block)
      else Inr s)"

definition buddy_alloc ::
  "int \<Rightarrow> 'z buddy_st_scheme \<Rightarrow> (addr \<times> 'z buddy_st_scheme) res"
where
  "buddy_alloc num_blocks s =
     (if num_blocks < 1 then Inr (0, s)
      else bindR (log2_ceil num_blocks) (\<lambda>order.
        bindR (acquire L_buddy s) (\<lambda>s.
        if order > max_order s then bindR (release L_buddy s) (\<lambda>s. Inr (0, s))
        else bindR (find_order order s) (\<lambda>found_order.
          if found_order > max_order s then bindR (release L_buddy s) (\<lambda>s. Inr (0, s))
          else bindR (fl_get found_order s) (\<lambda>block.
            bindR (remove_from_list block found_order s) (\<lambda>s.
            bindR (split_loop found_order order block s) (\<lambda>s.
            let s = s\<lparr>free_blocks := free_blocks s - 2 ^ order\<rparr> in
            bindR (release L_buddy s) (\<lambda>s. Inr (block, s)))))))))"

lemma remove_from_list_keeps:
  assumes "remove_from_list p k s = Inr t"
  shows "max_order t = max_order s \<and> memory_start t = memory_start s \<and> held t = held s"
  using assms
  by (auto simp: remove_from_list_def fl_set_def set_next_def split: if_splits elim!: bindR_InrE)

text \<open>The merging loop of \<^verbatim>\<open>buddy_free\<close> leaves the chunk to add: its address and order.\<close>

function merge_loop ::
  "addr \<Rightarrow> nat \<Rightarrow> 'z buddy_st_scheme \<Rightarrow> (addr \<times> nat \<times> 'z buddy_st_scheme) res"
where
  "merge_loop ptr order s =
     (if order < max_order s
      then
        (let buddy_ptr = get_buddy ptr order s in
         bindR (is_block_free buddy_ptr (int order) s) (\<lambda>free.
         if free
         then bindR (remove_from_list buddy_ptr order s) (\<lambda>s.
                merge_loop (get_parent ptr order s) (order + 1) s)
         else Inr (ptr, order, s)))
      else Inr (ptr, order, s))"
  by auto
termination
  by (relation "measure (\<lambda>(p, k, s). max_order s - k)") (auto dest!: remove_from_list_keeps)

definition buddy_free ::
  "addr \<Rightarrow> int \<Rightarrow> 'z buddy_st_scheme \<Rightarrow> 'z buddy_st_scheme res"
where
  "buddy_free ptr num_blocks s =
     (if ptr = 0 \<or> num_blocks < 1 then Inr s
      else bindR (acquire L_buddy s) (\<lambda>s.
        bindR (log2_ceil num_blocks) (\<lambda>order.
        bindR (merge_loop ptr order s) (\<lambda>(ptr, order, s).
        bindR (add_to_list ptr order s) (\<lambda>s.
        bindR (log2_ceil num_blocks) (\<lambda>k.
        let s = s\<lparr>free_blocks := free_blocks s + 2 ^ k\<rparr> in
        release L_buddy s))))))"

declare log2_floor_loop.simps [simp del] find_order.simps [simp del] merge_loop.simps [simp del]

section \<open>Block addresses\<close>

definition blk :: "addr \<Rightarrow> nat \<Rightarrow> addr" where
  "blk base i = base + of_nat (i * 4096)"

definition region :: "addr \<Rightarrow> nat \<Rightarrow> bool" where
  "region base K \<longleftrightarrow> aligned base \<and> 0 < base \<and> K \<le> 13 \<and> unat base + 2 ^ K * 4096 \<le> 2 ^ 64"

lemma apart8_aligned:
  assumes "aligned p" "aligned q" "p \<noteq> q"
  shows "apart8 p q"
proof -
  have "q \<notin> page_bytes p" "p \<notin> page_bytes q"
    using page_bytes_disjoint [OF assms] page_bytes_self by blast+
  then show ?thesis
    by (simp add: apart8_def page_bytes_def PGSIZE_def word_less_nat_alt word_le_nat_alt)
qed

lemma pow_le_8192: "K \<le> 13 \<Longrightarrow> (2::nat) ^ K \<le> 8192"
  using power_increasing [of K 13 "2::nat"] by simp

lemma blk_inj: "i < 2 ^ 50 \<Longrightarrow> j < 2 ^ 50 \<Longrightarrow> blk base i = blk base j \<longleftrightarrow> i = j"
  by (simp add: blk_def of_nat_inj_lt del: of_nat_mult)

lemma blk_unat:
  assumes "region base K" and "i < 2 ^ K"
  shows "unat (blk base i) = unat base + i * 4096"
proof -
  have "i * 4096 < 2 ^ K * 4096" using assms(2) by simp
  then have "unat base + i * 4096 < 2 ^ 64" using assms(1) unfolding region_def by linarith
  then show ?thesis by (simp add: blk_def unat_plus_if' del: of_nat_mult)
qed

lemma blk_ok:
  assumes "region base K" and "i < 2 ^ K"
  shows "blk base i \<noteq> 0" and "aligned (blk base i)"
  using blk_unat [OF assms] assms(1)
  by (auto simp: region_def aligned_unat word_less_nat_alt)

lemma region_small: "region base K \<Longrightarrow> i \<le> 2 ^ K \<Longrightarrow> i < 2 ^ 50" for i :: nat
  using pow_le_8192 [of K] by (simp add: region_def)

lemma block_index_blk:
  assumes "memory_start s = base" and "i < 2 ^ 50"
  shows "block_index (blk base i) s = of_nat i"
proof -
  have "sint (of_nat (i * 4096) :: addr) = int (i * 4096)"
    using assms(2) by (simp add: signed_of_nat signed_take_bit_int_eq_self del: of_nat_mult)
  moreover have "int (i * 4096) sdiv 4096 = int i"
    by (cases "i = 0") (simp_all add: signed_divide_int_def sgn_mult)
  ultimately show ?thesis
    using assms by (simp add: block_index_def blk_def del: of_nat_mult)
qed

lemma push_bit_word: "push_bit k (1 :: addr) = of_nat (2 ^ k)"
  by (simp add: push_bit_eq_mult)

lemma get_buddy_blk:
  assumes "memory_start s = base" and "i < 2 ^ 50"
  shows "get_buddy (blk base i) k s = blk base (bud k i)"
proof -
  have "of_nat i XOR push_bit k 1 = (of_nat (bud k i) :: addr)"
    by (simp only: bud_def push_bit_word of_nat_xor_eq)
  then show ?thesis
    using assms unfolding get_buddy_def Let_def block_index_blk [OF assms]
    by (simp add: blk_def BLOCK_SIZE_def)
qed

lemma of_nat_par:
  assumes "2 ^ k dvd i" and "i < 2 ^ 50"
  shows "of_nat i AND NOT (push_bit k 1) = (of_nat (par k i) :: addr)"
proof (cases "bit i k")
  case True
  then have p: "par k i = bud k i"
    using assms(1) by (auto elim!: dvdE simp: bit_mult par_mult bud_mult)
  have "i \<noteq> 0" using True by (intro notI) simp
  then have "2 ^ k \<le> i" using assms(1) by (simp add: dvd_imp_le)
  then have "(2::nat) ^ k < 2 ^ 50" using assms(2) by (rule le_less_trans)
  then have "k < 50" by (rule power_less_imp_less_exp [rotated]) simp
  then have b: "bit (of_nat i :: addr) k" using True by (simp add: bit_simps)
  have "of_nat i AND NOT (push_bit k 1) = (of_nat i :: addr) XOR push_bit k 1"
    by (rule bit_word_eqI) (use b in \<open>auto simp: bit_simps\<close>)
  then show ?thesis by (simp only: p bud_def push_bit_word of_nat_xor_eq)
next
  case False
  have "of_nat i AND NOT (push_bit k 1) = (of_nat i :: addr)"
    by (rule bit_word_eqI) (use False in \<open>auto simp: bit_simps\<close>)
  then show ?thesis using False by (simp add: par_def)
qed

lemma get_parent_blk:
  assumes "memory_start s = base" and "i < 2 ^ 50" and "2 ^ k dvd i"
  shows "get_parent (blk base i) k s = blk base (par k i)"
  unfolding get_parent_def Let_def block_index_blk [OF assms(1,2)] of_nat_par [OF assms(3,2)]
  by (simp add: blk_def BLOCK_SIZE_def assms(1))

section \<open>Logarithms\<close>

lemma log2_ceil_loop_ok:
  "x \<le> 2 ^ 30 \<Longrightarrow> r \<le> 30 \<Longrightarrow> r = 0 \<or> 2 ^ (r - 1) < x \<Longrightarrow>
   \<exists>k. log2_ceil_loop x (2 ^ r) r = Some (Inr k) \<and> x \<le> 2 ^ k \<and> (k = 0 \<or> 2 ^ (k - 1) < x)"
proof (induction "30 - r" arbitrary: r)
  case 0
  then have "r = 30" by simp
  then show ?case using 0 by (subst log2_ceil_loop.simps) auto
next
  case (Suc d)
  show ?case
  proof (cases "2 ^ r < x")
    case True
    have "(2::int) ^ Suc r \<le> 2 ^ 30" using Suc.hyps(2) by (intro power_increasing) auto
    then have "\<not> 2 ^ r * 2 > INT_MAX" by (simp add: INT_MAX_def)
    then have "log2_ceil_loop x (2 ^ r) r = log2_ceil_loop x (2 ^ Suc r) (Suc r)"
      using True by (subst log2_ceil_loop.simps) (simp add: mult.commute)
    moreover have "\<exists>k. log2_ceil_loop x (2 ^ Suc r) (Suc r) = Some (Inr k) \<and> x \<le> 2 ^ k \<and>
        (k = 0 \<or> 2 ^ (k - 1) < x)"
      using Suc.hyps(2) Suc.prems True by (intro Suc.hyps(1)) auto
    ultimately show ?thesis by simp
  next
    case False
    then show ?thesis using Suc.prems by (subst log2_ceil_loop.simps) auto
  qed
qed

lemma log2_ceil_ok:
  assumes "1 \<le> x" and "x \<le> 2 ^ 30"
  obtains k where "log2_ceil x = Inr k" and "x \<le> 2 ^ k" and "k = 0 \<or> 2 ^ (k - 1) < x"
proof (cases "x = 1")
  case True
  then show thesis by (intro that [of 0]) (simp_all add: log2_ceil_def)
next
  case False
  then show thesis
    using assms log2_ceil_loop_ok [of x 0] that by (auto simp: log2_ceil_def)
qed

lemma log2_ceil_loop_overflow:
  "2 ^ 30 < x \<Longrightarrow> r \<le> 30 \<Longrightarrow> log2_ceil_loop x (2 ^ r) r = Some (Inl (Fault ''int overflow''))"
proof (induction "30 - r" arbitrary: r)
  case 0
  then have "r = 30" by simp
  then show ?case using 0 by (subst log2_ceil_loop.simps) (simp add: INT_MAX_def)
next
  case (Suc d)
  have "(2::int) ^ Suc r \<le> 2 ^ 30" using Suc.hyps(2) by (intro power_increasing) auto
  then have "\<not> 2 ^ r * 2 > INT_MAX" "2 ^ r < x" using Suc.prems(1) by (auto simp: INT_MAX_def)
  then have "log2_ceil_loop x (2 ^ r) r = log2_ceil_loop x (2 ^ Suc r) (Suc r)"
    by (subst log2_ceil_loop.simps) (simp add: mult.commute)
  also have "\<dots> = Some (Inl (Fault ''int overflow''))"
    using Suc.hyps(2) Suc.prems by (intro Suc.hyps(1)) auto
  finally show ?case .
qed

lemma log2_ceil_overflow: "2 ^ 30 < x \<Longrightarrow> log2_ceil x = Inl (Fault ''int overflow'')"
  using log2_ceil_loop_overflow [of x 0] by (simp add: log2_ceil_def)

lemma log2_floor_loop_ok:
  "1 \<le> x \<Longrightarrow> \<exists>k. log2_floor_loop x r = r + k \<and> 2 ^ k \<le> x \<and> x < 2 ^ Suc k"
proof (induction x r rule: log2_floor_loop.induct)
  case (1 x r)
  show ?case
  proof (cases "x > 1")
    case True
    then have "1 \<le> x div 2" by simp
    then obtain k where k: "log2_floor_loop (x div 2) (r + 1) = r + 1 + k" "2 ^ k \<le> x div 2" "x div 2 < 2 ^ Suc k"
      using 1(1) [OF True] by blast
    have "log2_floor_loop x r = r + Suc k" using True k(1) by (subst log2_floor_loop.simps) simp
    moreover have "2 ^ Suc k \<le> x" "x < 2 ^ Suc (Suc k)" using k(2,3) by simp_all
    ultimately show ?thesis by blast
  next
    case False
    then show ?thesis using 1 by (intro exI [of _ 0]) (subst log2_floor_loop.simps, auto)
  qed
qed

text \<open>The order of a request.\<close>

definition order_of :: "int \<Rightarrow> nat" where
  "order_of n = (case log2_ceil n of Inr k \<Rightarrow> k | Inl _ \<Rightarrow> 0)"

lemma order_of:
  assumes "1 \<le> n" and "n \<le> 2 ^ 30"
  shows "log2_ceil n = Inr (order_of n)" and "n \<le> 2 ^ order_of n"
    and "order_of n = 0 \<or> 2 ^ (order_of n - 1) < n"
proof -
  from log2_ceil_ok [OF assms] obtain k where
    "log2_ceil n = Inr k" "n \<le> 2 ^ k" "k = 0 \<or> 2 ^ (k - 1) < n" by blast
  then show "log2_ceil n = Inr (order_of n)" "n \<le> 2 ^ order_of n"
    "order_of n = 0 \<or> 2 ^ (order_of n - 1) < n"
    by (simp_all add: order_of_def)
qed

section \<open>The free lists in memory\<close>

type_synonym flists = "nat \<Rightarrow> nat list"

definition fsets :: "flists \<Rightarrow> chunks" where
  "fsets L k = set (L k)"

definition buddy_rep :: "addr \<Rightarrow> nat \<Rightarrow> 'z buddy_st_scheme \<Rightarrow> flists \<Rightarrow> bool" where
  "buddy_rep base K s L \<longleftrightarrow>
     memory_start s = base \<and> max_order s = Suc K \<and> length (free_list s) = MAX_ORDER \<and>
     free_list s ! Suc K = 0 \<and> (\<forall>k > K. L k = []) \<and>
     (\<forall>k \<le> K. chain (load64 (mem s)) (free_list s ! k) (map (blk base) (L k)))"

definition buddy_ok :: "addr \<Rightarrow> nat \<Rightarrow> 'z buddy_st_scheme \<Rightarrow> flists \<Rightarrow> bool" where
  "buddy_ok base K s L \<longleftrightarrow> region base K \<and> buddy_rep base K s L \<and> chunks_ok K (fsets L)"

text \<open>The bytes of a set of blocks.\<close>

definition block_bytes :: "addr \<Rightarrow> nat set \<Rightarrow> addr set" where
  "block_bytes base C = \<Union> (page_bytes ` blk base ` C)"

lemma chunk_less: "chunk_ok K k i \<Longrightarrow> i < 2 ^ K"
proof -
  assume "chunk_ok K k i"
  then have "i + 2 ^ k \<le> 2 ^ K" by (simp add: chunk_ok_def)
  moreover have "0 < (2::nat) ^ k" by simp
  ultimately show ?thesis by linarith
qed

lemma buddy_ok_less: "buddy_ok base K s L \<Longrightarrow> i \<in> set (L k) \<Longrightarrow> i < 2 ^ K"
  using chunks_ok_chunk [of K "fsets L" i k] chunk_less [of K k i]
  by (simp add: buddy_ok_def fsets_def)

lemma buddy_ok_chain:
  "buddy_ok base K s L \<Longrightarrow> k \<le> K \<Longrightarrow> chain (load64 (mem s)) (free_list s ! k) (map (blk base) (L k))"
  by (simp add: buddy_ok_def buddy_rep_def)

lemma buddy_ok_distinct: "buddy_ok base K s L \<Longrightarrow> distinct (L k)"
  using buddy_ok_chain [of base K s L k] chain_distinct [of "load64 (mem s)" "free_list s ! k" "map (blk base) (L k)"]
  by (cases "k \<le> K") (auto simp: distinct_map buddy_ok_def buddy_rep_def)

lemma buddy_ok_order: "buddy_ok base K s L \<Longrightarrow> k \<le> Suc K \<Longrightarrow> k < length (free_list s)"
  by (auto simp: buddy_ok_def buddy_rep_def region_def MAX_ORDER_def)

lemma store_apart:
  assumes "region base K" "i < 2 ^ K" "j < 2 ^ K" "i \<noteq> j"
  shows "load64 (store64 m (blk base i) v) (blk base j) = load64 m (blk base j)"
proof -
  have "blk base i \<noteq> blk base j"
    using assms region_small [OF assms(1)] by (simp add: blk_inj)
  then have "apart8 (blk base i) (blk base j)"
    using assms blk_ok by (intro apart8_aligned)
  then show ?thesis by (rule load64_store64_apart)
qed

lemma chain_store:
  assumes "region base K" "i < 2 ^ K" "\<forall>j \<in> set js. j < 2 ^ K" "i \<notin> set js"
  shows "chain (load64 (store64 m (blk base i) v)) p (map (blk base) js) = chain (load64 m) p (map (blk base) js)"
proof (rule chain_cong)
  fix x assume "x \<in> set (map (blk base) js)"
  then obtain j where "x = blk base j" "j < 2 ^ K" "i \<noteq> j" using assms(3,4) by auto
  then show "load64 (store64 m (blk base i) v) x = load64 m x"
    using store_apart [OF assms(1,2)] by simp
qed


section \<open>List operations\<close>

definition frame :: "addr \<Rightarrow> nat set \<Rightarrow> 'z buddy_st_scheme \<Rightarrow> 'z buddy_st_scheme \<Rightarrow> bool" where
  "frame base C s t \<longleftrightarrow> held t = held s \<and> freelist t = freelist s \<and>
     total_blocks t = total_blocks s \<and> free_blocks t = free_blocks s \<and>
     buddy_st.more t = buddy_st.more s \<and>
     (\<forall>x. x \<notin> block_bytes base C \<longrightarrow> mem t x = mem s x)"

lemma frame_refl: "frame base C s s"
  by (simp add: frame_def)

lemma frame_mono: "frame base C s t \<Longrightarrow> C \<subseteq> D \<Longrightarrow> frame base D s t"
  unfolding frame_def block_bytes_def by blast

lemma frame_trans: "frame base C s t \<Longrightarrow> frame base C t u \<Longrightarrow> frame base C s u"
  by (auto simp: frame_def)

lemma store64_page_other: "x \<notin> page_bytes p \<Longrightarrow> store64 m p v x = m x"
  by (intro store64_other) (simp add: page_bytes_def PGSIZE_def word_less_nat_alt word_le_nat_alt)

lemma frame_store:
  assumes "i \<in> C" and "mem t = store64 (mem s) (blk base i) v" and "held t = held s"
    and "freelist t = freelist s" and "total_blocks t = total_blocks s"
    and "free_blocks t = free_blocks s" and "buddy_st.more t = buddy_st.more s"
  shows "frame base C s t"
  using assms by (auto simp: frame_def block_bytes_def intro!: store64_page_other)

lemma fsets_upd: "fsets (L(k := xs)) = (fsets L)(k := set xs)"
  by (auto simp: fsets_def fun_eq_iff)

lemma fsets_add: "fsets (L(k := i # L k)) = add_chunk k i (fsets L)"
  by (simp add: fsets_upd add_chunk_def) (simp add: fsets_def)

lemma fsets_del: "distinct (L k) \<Longrightarrow> fsets (L(k := remove1 i (L k))) = del_chunk k i (fsets L)"
  by (simp add: fsets_upd del_chunk_def) (simp add: fsets_def)

lemma list_free_cell: "i \<in> set (L l) \<Longrightarrow> i \<in> free_cells (fsets L)"
  unfolding free_cells_iff fsets_def using cells_self by blast

lemma free_chunk_fresh: "cells k i \<inter> free_cells (fsets L) = {} \<Longrightarrow> i \<notin> set (L l)"
proof
  assume "cells k i \<inter> free_cells (fsets L) = {}" "i \<in> set (L l)"
  moreover from this(2) have "i \<in> free_cells (fsets L)"
    by (rule list_free_cell)
  ultimately show False using cells_self [of i k] by blast
qed

lemma add_to_list_ok:
  assumes s: "buddy_ok base K s L" and i: "chunk_ok K k i" "cells k i \<inter> free_cells (fsets L) = {}"
  shows "\<exists>t. add_to_list (blk base i) k s = Inr t \<and> buddy_ok base K t (L(k := i # L k)) \<and>
    frame base (cells k i) s t"
proof -
  let ?m = "store64 (mem s) (blk base i) (free_list s ! k)"
  let ?t = "s\<lparr>mem := ?m, free_list := (free_list s)[k := blk base i]\<rparr>"
  have r: "region base K" "i < 2 ^ K" "k \<le> K"
    using s i(1) chunk_less [OF i(1)] by (auto simp: buddy_ok_def chunk_ok_def)
  have n: "k < length (free_list s)" using buddy_ok_order [OF s] r(3) by simp
  have "add_to_list (blk base i) k s = Inr ?t"
    using n blk_ok(1) [OF r(1,2)] by (simp add: add_to_list_def fl_get_def fl_set_def set_next_def)
  moreover have c: "chain (load64 ?m) p (map (blk base) (L l)) =
      chain (load64 (mem s)) p (map (blk base) (L l))" for p l
    using buddy_ok_less [OF s] free_chunk_fresh [OF i(2)] by (intro chain_store [OF r(1,2)]) auto
  have "buddy_rep base K ?t (L(k := i # L k))"
    using s r n blk_ok(1) [OF r(1,2)]
    by (auto simp: buddy_ok_def buddy_rep_def c nth_list_update)
  moreover have "chunks_ok K (fsets (L(k := i # L k)))"
    using s i by (simp add: fsets_add buddy_ok_def chunks_ok_add)
  moreover have "frame base (cells k i) s ?t" by (rule frame_store) simp_all
  ultimately show ?thesis using r(1) by (auto simp: buddy_ok_def)
qed

lemma remove_walk_chain:
  "chain (load64 m) p (xs @ x # b # ys) \<Longrightarrow> b \<notin> set (xs @ [x]) \<Longrightarrow> remove_walk m p b = Some x"
proof (induction xs arbitrary: p)
  case Nil
  then show ?case by (subst remove_walk.simps) simp
next
  case (Cons a xs)
  have "load64 m a \<noteq> b" using Cons.prems by (cases xs) auto
  then show ?case using Cons by (subst remove_walk.simps) simp
qed

lemma free_walk_chain: "chain (load64 m) p xs \<Longrightarrow> free_walk m p b = Some (b \<in> set xs)"
proof (induction xs arbitrary: p)
  case Nil
  then show ?case by (subst free_walk.simps) simp
next
  case (Cons a xs)
  then show ?case by (subst free_walk.simps) auto
qed

lemma is_block_free_ok:
  assumes "buddy_ok base K s L" and "k \<le> K" and "j \<le> 2 ^ K"
  shows "is_block_free (blk base j) (int k) s = Inr (j \<in> set (L k))"
proof -
  have "blk base j = blk base i \<longleftrightarrow> i = j" if "i \<in> set (L k)" for i
    using assms(1) that buddy_ok_less [OF assms(1) that] region_small [of base K j] region_small [of base K i] assms(3)
    by (auto simp: blk_inj buddy_ok_def)
  then have "blk base j \<in> set (map (blk base) (L k)) \<longleftrightarrow> j \<in> set (L k)" by auto
  moreover have "max_order s = Suc K" using assms(1) by (simp add: buddy_ok_def buddy_rep_def)
  ultimately show ?thesis
    using assms(2) buddy_ok_order [OF assms(1), of k] free_walk_chain [OF buddy_ok_chain [OF assms(1,2)]]
    by (simp add: is_block_free_def fl_get_def)
qed

lemma buddy_ok_other_list:
  assumes "buddy_ok base K s L" and "x \<in> set (L k)" and "l \<noteq> k"
  shows "x \<notin> set (L l)"
proof
  assume "x \<in> set (L l)"
  then show False
    using assms chunk_unique [of K "fsets L" x k x l x] by (auto simp: buddy_ok_def fsets_def)
qed

lemma split_before:
  assumes "i \<in> set xs" and "xs = [] \<or> hd xs \<noteq> i"
  obtains as x bs where "xs = as @ x # i # bs" and "i \<notin> set (as @ [x])"
proof -
  obtain us bs where u: "xs = us @ i # bs" "i \<notin> set us"
    using assms(1) by (auto dest: split_list_first)
  then have "us \<noteq> []" using assms(2) by auto
  then have "us = butlast us @ [last us]" by simp
  then show thesis using u that [of "butlast us" "last us" bs] by (metis append.assoc append_Cons append_Nil)
qed

lemma remove_head_ok:
  assumes s: "buddy_ok base K s L" and k: "k \<le> K" and L: "L k = i # ys"
  shows "\<exists>t. remove_from_list (blk base i) k s = Inr t \<and> buddy_ok base K t (L(k := ys)) \<and>
    frame base {} s t"
proof -
  let ?t = "s\<lparr>free_list := (free_list s)[k := load64 (mem s) (blk base i)]\<rparr>"
  have n: "k < length (free_list s)" using buddy_ok_order [OF s] k by simp
  have h: "free_list s ! k = blk base i" "blk base i \<noteq> 0"
    "chain (load64 (mem s)) (load64 (mem s) (blk base i)) (map (blk base) ys)"
    using buddy_ok_chain [OF s k] L by auto
  have "remove_from_list (blk base i) k s = Inr ?t"
    using n h by (simp add: remove_from_list_def fl_get_def fl_set_def get_next_def)
  moreover have "buddy_rep base K ?t (L(k := ys))"
    using s k n h by (auto simp: buddy_ok_def buddy_rep_def nth_list_update)
  moreover have "fsets (L(k := ys)) = del_chunk k i (fsets L)"
    using fsets_del [of L k i] buddy_ok_distinct [OF s, of k] L by simp
  ultimately show ?thesis
    using s by (auto simp: buddy_ok_def chunks_ok_del frame_def)
qed

lemma remove_inner_ok:
  assumes s: "buddy_ok base K s L" and k: "k \<le> K" and L: "L k = as @ x # i # bs"
    and i: "i \<notin> set (as @ [x])"
  shows "\<exists>t. remove_from_list (blk base i) k s = Inr t \<and> buddy_ok base K t (L(k := as @ x # bs)) \<and>
    frame base {x} s t"
proof -
  let ?m = "store64 (mem s) (blk base x) (load64 (mem s) (blk base i))"
  let ?t = "s\<lparr>mem := ?m\<rparr>"
  have r: "region base K" using s by (simp add: buddy_ok_def)
  have lt: "j < 2 ^ K" if "j \<in> set (L k)" for j by (rule buddy_ok_less [OF s that])
  have nz: "blk base j \<noteq> 0" if "j \<in> set (L k)" for j by (rule blk_ok(1) [OF r lt [OF that]])
  have inj: "blk base i \<noteq> blk base j" if "j \<in> set (as @ [x])" for j
    using i that lt [of i] lt [of j] region_small [OF r, of i] region_small [OF r, of j] L
    by (auto simp: blk_inj)
  have n: "k < length (free_list s)" using buddy_ok_order [OF s] k by simp
  have c: "chain (load64 (mem s)) (free_list s ! k)
      (map (blk base) as @ blk base x # blk base i # map (blk base) bs)"
    using buddy_ok_chain [OF s k] L by simp
  have w: "remove_walk (mem s) (free_list s ! k) (blk base i) = Some (blk base x)"
    using inj by (intro remove_walk_chain [OF c]) auto
  have h: "free_list s ! k \<noteq> blk base i" using c inj [of "hd (as @ [x])"] by (cases as) auto
  have e: "remove_from_list (blk base i) k s = Inr ?t"
    using n h nz [of i] nz [of x] L
    by (simp add: remove_from_list_def fl_get_def get_next_def set_next_def w)
  have d: "distinct (as @ x # i # bs)" using buddy_ok_distinct [OF s, of k] L by simp
  have "chain (load64 ?m) (free_list s ! k) (map (blk base) as @ blk base x # map (blk base) bs)"
  proof (rule chain_unlink [OF c])
    fix z assume "z \<in> set (map (blk base) as @ map (blk base) bs)"
    then obtain j where "z = blk base j" "j \<in> set (as @ bs)" by auto
    moreover from this have "j < 2 ^ K" "x \<noteq> j" using d lt [of j] L by auto
    ultimately show "load64 ?m z = load64 (mem s) z"
      using store_apart [OF r lt [of x]] L by simp
  qed simp
  moreover have "chain (load64 ?m) (free_list s ! l) (map (blk base) (L l))" if "l \<noteq> k" "l \<le> K" for l
    using buddy_ok_other_list [OF s, of x k l] L that buddy_ok_less [OF s, of _ l] lt [of x]
      buddy_ok_chain [OF s that(2)] by (subst chain_store [OF r]) auto
  ultimately have "buddy_rep base K ?t (L(k := as @ x # bs))"
    using s k by (auto simp: buddy_ok_def buddy_rep_def)
  moreover have "fsets (L(k := as @ x # bs)) = del_chunk k i (fsets L)"
    using fsets_del [of L k i] buddy_ok_distinct [OF s, of k] d L by (simp add: remove1_append)
  moreover have "frame base {x} s ?t" by (rule frame_store) simp_all
  ultimately show ?thesis
    using s e by (auto simp: buddy_ok_def chunks_ok_del)
qed

lemma remove_from_list_ok:
  assumes s: "buddy_ok base K s L" and k: "k \<le> K" and i: "i \<in> set (L k)"
  shows "\<exists>t. remove_from_list (blk base i) k s = Inr t \<and> buddy_ok base K t (L(k := remove1 i (L k))) \<and>
    frame base (free_cells (fsets L)) s t"
proof (cases "hd (L k) = i")
  case True
  then obtain ys where L: "L k = i # ys" using i by (cases "L k") auto
  show ?thesis
    using remove_head_ok [OF s k L] L by (auto intro: frame_mono)
next
  case False
  then obtain as x bs where L: "L k = as @ x # i # bs" "i \<notin> set (as @ [x])"
    using split_before [OF i] by blast
  have "x \<in> free_cells (fsets L)"
    using L(1) by (intro list_free_cell [of _ _ k]) simp
  then show ?thesis
    using remove_inner_ok [OF s k L] L by (auto intro: frame_mono simp: remove1_append)
qed


section \<open>Allocation\<close>

lemma free_list_zero: "buddy_ok base K s L \<Longrightarrow> k \<le> K \<Longrightarrow> free_list s ! k = 0 \<longleftrightarrow> L k = []"
  using buddy_ok_chain [of base K s L k] by (cases "L k") auto

lemma find_order_ok:
  assumes s: "buddy_ok base K s L"
  shows "k \<le> Suc (Suc K) \<Longrightarrow> \<exists>f. find_order k s = Inr f \<and> k \<le> f \<and> (\<forall>l. k \<le> l \<and> l < f \<longrightarrow> L l = []) \<and>
    (f = Suc (Suc K) \<or> f \<le> K \<and> L f \<noteq> [])"
proof (induction "Suc (Suc K) - k" arbitrary: k)
  case 0
  then have "k = Suc (Suc K)" by simp
  then show ?case using s by (subst find_order.simps) (auto simp: buddy_ok_def buddy_rep_def)
next
  case (Suc d)
  have m: "max_order s = Suc K" "k < length (free_list s)"
    using s Suc.hyps(2) buddy_ok_order [OF s, of k] by (auto simp: buddy_ok_def buddy_rep_def)
  have z: "free_list s ! k = 0 \<longleftrightarrow> L k = []"
    using free_list_zero [OF s, of k] s Suc.hyps(2)
    by (cases "k = Suc K") (auto simp: buddy_ok_def buddy_rep_def)
  have "k \<le> Suc K" "d = Suc (Suc K) - Suc k" using Suc.hyps(2) by simp_all
  show ?case
  proof (cases "L k = []")
    case True
    then have "find_order k s = find_order (Suc k) s"
      using m z \<open>k \<le> Suc K\<close> by (subst find_order.simps) (simp add: fl_get_def)
    moreover obtain f where f: "find_order (Suc k) s = Inr f" "Suc k \<le> f"
        "\<forall>l. Suc k \<le> l \<and> l < f \<longrightarrow> L l = []" "f = Suc (Suc K) \<or> f \<le> K \<and> L f \<noteq> []"
      using Suc.hyps(1) [of "Suc k"] \<open>d = Suc (Suc K) - Suc k\<close> \<open>k \<le> Suc K\<close> by auto
    moreover have "L l = []" if "k \<le> l" "l < f" for l
      using f(3) True that by (cases "l = k") auto
    ultimately show ?thesis by auto
  next
    case False
    then have "find_order k s = Inr k"
      using m z Suc.hyps(2) by (subst find_order.simps) (simp add: fl_get_def)
    moreover have "k \<le> K" using s False by (metis buddy_ok_def buddy_rep_def not_le)
    ultimately show ?thesis using False by auto
  qed
qed

lemma blk_add: "blk base i + word_of_int (2 ^ k * 4096) = blk base (i + 2 ^ k)"
  by (simp add: blk_def algebra_simps)

lemma split_loop_ok:
  "buddy_ok base K s L \<Longrightarrow> coalesced K (fsets L) \<Longrightarrow> chunk_ok K f i \<Longrightarrow>
   cells f i \<inter> free_cells (fsets L) = {} \<Longrightarrow> order \<le> f \<Longrightarrow> \<forall>l. order \<le> l \<and> l < f \<longrightarrow> L l = [] \<Longrightarrow>
   \<exists>t L'. split_loop f order (blk base i) s = Inr t \<and> buddy_ok base K t L' \<and> coalesced K (fsets L') \<and>
     free_cells (fsets L') = free_cells (fsets L) \<union> (cells f i - cells order i) \<and>
     frame base (cells f i) s t"
proof (induction f arbitrary: s L)
  case 0
  then show ?case by (intro exI [of _ s] exI [of _ L]) (auto simp: frame_refl)
next
  case (Suc f)
  show ?case
  proof (cases "order \<le> f")
    case False
    with Suc.prems(5) have "order = Suc f" by simp
    then show ?thesis using Suc.prems by (intro exI [of _ s] exI [of _ L]) (auto simp: frame_refl)
  next
    case True
    let ?j = "i + 2 ^ f" and ?L = "L(f := (i + 2 ^ f) # L f)"
    have ok: "Suc f \<le> K" "2 ^ Suc f dvd i" "i + 2 ^ Suc f \<le> 2 ^ K"
      using Suc.prems(3) by (auto simp: chunk_ok_def)
    have d: "2 ^ f dvd i" using ok(2) by (rule dvd_trans [OF le_imp_power_dvd, rotated]) simp
    have c: "chunk_ok K f i" "chunk_ok K f ?j" using ok d by (auto simp: chunk_ok_def)
    have u: "cells (Suc f) i = cells f i \<union> cells f ?j" "cells f i \<inter> cells f ?j = {}"
      using cells_par [OF d] cells_disjoint_bud [OF d] by (simp_all add: par_left [OF ok(2)] bud_left [OF ok(2)])
    have "cells f ?j \<inter> free_cells (fsets L) = {}" using Suc.prems(4) u by blast
    then obtain t where t: "add_to_list (blk base ?j) f s = Inr t" "buddy_ok base K t ?L"
        "frame base (cells f ?j) s t"
      using add_to_list_ok [OF Suc.prems(1) c(2)] by blast
    have "bud f ?j \<notin> fsets L f" using Suc.prems(6) True by (simp add: fsets_def)
    then have co: "coalesced K (fsets ?L)"
      using Suc.prems(2) by (simp add: fsets_add coalesced_add)
    have fc: "free_cells (fsets ?L) = free_cells (fsets L) \<union> cells f ?j"
      by (simp only: fsets_add free_cells_add)
    have "cells f i \<inter> free_cells (fsets ?L) = {}" using fc u Suc.prems(4) by blast
    moreover have "\<forall>l. order \<le> l \<and> l < f \<longrightarrow> ?L l = []" using Suc.prems(6) by simp
    ultimately obtain t' L' where t': "split_loop f order (blk base i) t = Inr t'" "buddy_ok base K t' L'"
        "coalesced K (fsets L')"
        "free_cells (fsets L') = free_cells (fsets ?L) \<union> (cells f i - cells order i)"
        "frame base (cells f i) t t'"
      using Suc.IH [OF t(2) co c(1) _ True] by blast
    have "cells order i \<subseteq> cells f i" using True by (simp add: cells_subset_iff)
    then have "free_cells (fsets L') = free_cells (fsets L) \<union> (cells (Suc f) i - cells order i)"
      using t'(4) fc u by blast
    moreover have "frame base (cells (Suc f) i) s t'"
      using frame_trans frame_mono t(3) t'(5) u(1) by (metis Un_upper1 Un_upper2)
    moreover have "split_loop (Suc f) order (blk base i) s = Inr t'"
      using True t(1) t'(1) blk_add [of base i f] by simp
    ultimately show ?thesis using t'(2,3) by blast
  qed
qed

section \<open>Merging\<close>

lemma chunk_top: "chunk_ok K K i \<Longrightarrow> i = 0"
  by (simp add: chunk_ok_def)

lemma merge_loop_ok:
  "buddy_ok base K s L \<Longrightarrow> coalesced K (fsets L) \<Longrightarrow> chunk_ok K k i \<Longrightarrow>
   cells k i \<inter> free_cells (fsets L) = {} \<Longrightarrow>
   \<exists>t L' k' i'. merge_loop (blk base i) k s = Inr (blk base i', k', t) \<and> buddy_ok base K t L' \<and>
     coalesced K (fsets L') \<and> chunk_ok K k' i' \<and> cells k' i' \<inter> free_cells (fsets L') = {} \<and>
     cells k' i' \<union> free_cells (fsets L') = cells k i \<union> free_cells (fsets L) \<and>
     bud k' i' \<notin> fsets L' k' \<and> frame base (free_cells (fsets L)) s t"
proof (induction "K - k" arbitrary: k i s L)
  case 0
  then have k: "k = K" by (simp add: chunk_ok_def)
  then have i: "i = 0" using 0 chunk_top by simp
  have n: "2 ^ K \<notin> set (L K)" using buddy_ok_less [OF 0(2)] by blast
  have "memory_start s = base" "max_order s = Suc K"
    using 0 by (auto simp: buddy_ok_def buddy_rep_def)
  then have "merge_loop (blk base i) k s = Inr (blk base i, k, s)"
    using is_block_free_ok [OF 0(2), of K "2 ^ K"] n
    by (subst merge_loop.simps) (simp add: k i get_buddy_blk bud_left)
  then show ?case
    using 0 n k i by (intro exI [of _ s] exI [of _ L] exI [of _ k] exI [of _ i])
      (simp add: frame_refl fsets_def bud_left)
next
  case (Suc d)
  let ?j = "bud k i"
  have k: "k < K" "d = K - Suc k" using Suc.hyps(2) by simp_all
  have d: "2 ^ k dvd i" using Suc.prems by (simp add: chunk_ok_def)
  have m: "memory_start s = base" "max_order s = Suc K" "region base K"
    using Suc.prems by (auto simp: buddy_ok_def buddy_rep_def)
  have p: "chunk_ok K (Suc k) (par k i)" by (rule chunk_ok_par [OF Suc.prems(3) k(1)])
  have u: "cells (Suc k) (par k i) = cells k i \<union> cells k ?j" "cells k i \<inter> cells k ?j = {}"
    using cells_par [OF d] cells_disjoint_bud [OF d] by simp_all
  have "?j \<in> cells (Suc k) (par k i)" using u(1) cells_self by blast
  then have j: "?j \<le> 2 ^ K" using p by (simp add: chunk_ok_def cells_def)
  have i: "i < 2 ^ 50" using chunk_less [OF Suc.prems(3)] region_small [OF m(3), of i] by simp
  have fr: "is_block_free (get_buddy (blk base i) k s) (int k) s = Inr (?j \<in> set (L k))"
    using is_block_free_ok [OF Suc.prems(1), of k ?j] k j get_buddy_blk [OF m(1) i] by simp
  show ?case
  proof (cases "?j \<in> set (L k)")
    case False
    then have "merge_loop (blk base i) k s = Inr (blk base i, k, s)"
      using fr m(2) k by (subst merge_loop.simps) simp
    then show ?thesis
      using Suc.prems False by (intro exI [of _ s] exI [of _ L] exI [of _ k] exI [of _ i])
        (simp add: frame_refl fsets_def)
  next
    case True
    let ?L = "L(k := remove1 ?j (L k))"
    obtain t where t: "remove_from_list (blk base ?j) k s = Inr t" "buddy_ok base K t ?L"
        "frame base (free_cells (fsets L)) s t"
      using remove_from_list_ok [OF Suc.prems(1) _ True] k by auto
    have e: "fsets ?L = del_chunk k ?j (fsets L)"
      using buddy_ok_distinct [OF Suc.prems(1)] by (simp only: fsets_del)
    have fc: "free_cells (fsets ?L) = free_cells (fsets L) - cells k ?j"
      unfolding e using Suc.prems(1) True by (intro free_cells_del) (auto simp: buddy_ok_def fsets_def)
    have sub: "cells k ?j \<subseteq> free_cells (fsets L)"
      using True by (auto simp: free_cells_def fsets_def)
    have m': "memory_start t = base" using t(2) by (simp add: buddy_ok_def buddy_rep_def)
    have step: "merge_loop (blk base i) k s = merge_loop (blk base (par k i)) (Suc k) t"
      using fr m(2) k True t(1) get_buddy_blk [OF m(1) i] get_parent_blk [OF m' i d]
      by (subst merge_loop.simps) simp
    have "cells (Suc k) (par k i) \<inter> free_cells (fsets ?L) = {}"
      unfolding fc u(1) using Suc.prems(4) by blast
    moreover have "coalesced K (fsets ?L)" unfolding e by (rule coalesced_del [OF Suc.prems(2)])
    ultimately obtain t' L' k' i' where r: "merge_loop (blk base (par k i)) (Suc k) t = Inr (blk base i', k', t')"
        "buddy_ok base K t' L'" "coalesced K (fsets L')" "chunk_ok K k' i'"
        "cells k' i' \<inter> free_cells (fsets L') = {}"
        "cells k' i' \<union> free_cells (fsets L') = cells (Suc k) (par k i) \<union> free_cells (fsets ?L)"
        "bud k' i' \<notin> fsets L' k'" "frame base (free_cells (fsets ?L)) t t'"
      using Suc.hyps(1) [of "Suc k" t ?L "par k i"] \<open>d = K - Suc k\<close> t(2) p by blast
    have "cells k' i' \<union> free_cells (fsets L') = cells k i \<union> free_cells (fsets L)"
      unfolding r(6) fc u(1) using sub by blast
    moreover have "frame base (free_cells (fsets L)) s t'"
      by (rule frame_trans [OF t(3) frame_mono [OF r(8)]]) (simp add: fc)
    ultimately show ?thesis using r step by metis
  qed
qed

section \<open>Invariant and contract\<close>

definition buddy_state :: "addr \<Rightarrow> nat \<Rightarrow> 'z buddy_st_scheme \<Rightarrow> flists \<Rightarrow> bool" where
  "buddy_state base K s L \<longleftrightarrow> buddy_ok base K s L \<and> coalesced K (fsets L) \<and> L_buddy \<notin> held s \<and>
     total_blocks s = 2 ^ K \<and> free_blocks s = int (card (free_cells (fsets L)))"

definition buddy_inv :: "addr \<Rightarrow> nat \<Rightarrow> 'z buddy_st_scheme \<Rightarrow> bool" where
  "buddy_inv base K s \<longleftrightarrow> (\<exists>L. buddy_state base K s L)"

definition buddy_cells :: "addr \<Rightarrow> nat \<Rightarrow> 'z buddy_st_scheme \<Rightarrow> nat set" where
  "buddy_cells base K s = {c. \<exists>L. buddy_state base K s L \<and> c \<in> free_cells (fsets L)}"

lemma buddy_ok_unique:
  assumes "buddy_ok base K s L" and "buddy_ok base K s M"
  shows "L = M"
proof
  fix k
  show "L k = M k"
  proof (cases "k \<le> K")
    case True
    have "map (blk base) (L k) = map (blk base) (M k)"
      using buddy_ok_chain [OF assms(1) True] buddy_ok_chain [OF assms(2) True] by (rule chain_unique)
    moreover have "inj_on (blk base) (set (L k) \<union> set (M k))"
    proof (rule inj_onI)
      fix i j assume "i \<in> set (L k) \<union> set (M k)" "j \<in> set (L k) \<union> set (M k)" "blk base i = blk base j"
      moreover have "i < 2 ^ K" "j < 2 ^ K"
        using calculation(1,2) buddy_ok_less [OF assms(1)] buddy_ok_less [OF assms(2)] by auto
      moreover have "region base K" using assms(1) by (simp add: buddy_ok_def)
      ultimately show "i = j" using region_small [of base K i] region_small [of base K j] by (simp add: blk_inj)
    qed
    ultimately show ?thesis by (simp add: inj_on_map_eq_map)
  next
    case False
    then show ?thesis using assms by (simp add: buddy_ok_def buddy_rep_def)
  qed
qed

lemma buddy_cells_eq: "buddy_state base K s L \<Longrightarrow> buddy_cells base K s = free_cells (fsets L)"
  using buddy_ok_unique [of base K s L] by (auto simp: buddy_cells_def buddy_state_def)

lemma free_cells_bounded: "chunks_ok K F \<Longrightarrow> free_cells F \<subseteq> {..< 2 ^ K}"
  using chunks_ok_chunk [of K F] by (fastforce simp: free_cells_iff cells_def chunk_ok_def)

lemma finite_free_cells: "chunks_ok K F \<Longrightarrow> finite (free_cells F)"
  using free_cells_bounded finite_subset by blast

lemma card_cells [simp]: "card (cells k i) = 2 ^ k"
  by (simp add: cells_def)

lemma finite_cells [simp]: "finite (cells k i)"
  by (simp add: cells_def)

lemma buddy_ok_cong:
  assumes "buddy_ok base K s L" and "max_order t = max_order s" and "free_list t = free_list s"
    and "memory_start t = memory_start s" and "mem t = mem s"
  shows "buddy_ok base K t L"
  using assms by (simp add: buddy_ok_def buddy_rep_def)

text \<open>\<^verbatim>\<open>buddy_alloc\<close> on every path.\<close>

definition bframe :: "addr \<Rightarrow> nat set \<Rightarrow> 'z buddy_st_scheme \<Rightarrow> 'z buddy_st_scheme \<Rightarrow> bool" where
  "bframe base C s t \<longleftrightarrow> held t = held s \<and> freelist t = freelist s \<and>
     buddy_st.more t = buddy_st.more s \<and> (\<forall>x. x \<notin> block_bytes base C \<longrightarrow> mem t x = mem s x)"

lemma buddy_alloc_none:
  assumes s: "buddy_state base K s L" and n: "1 \<le> n" "n \<le> 2 ^ 30"
    and e: "\<forall>l \<ge> order_of n. L l = []"
  shows "buddy_alloc n s = Inr (0, s)"
proof -
  let ?s = "s\<lparr>held := insert L_buddy (held s)\<rparr>"
  have ok: "buddy_ok base K ?s L"
    by (rule buddy_ok_cong [of base K s]) (use s in \<open>simp_all add: buddy_state_def\<close>)
  have m: "max_order ?s = Suc K" using ok by (simp add: buddy_ok_def buddy_rep_def)
  have "L_buddy \<notin> held s" using s by (simp add: buddy_state_def)
  moreover have "find_order (order_of n) ?s = Inr (Suc (Suc K))" if "order_of n \<le> Suc K"
    using find_order_ok [OF ok, of "order_of n"] that e by auto
  ultimately show ?thesis
    using n m by (simp add: buddy_alloc_def order_of(1) [OF n])
qed

lemma chunk_ok_smaller: "chunk_ok K f i \<Longrightarrow> k \<le> f \<Longrightarrow> chunk_ok K k i"
proof -
  assume f: "chunk_ok K f i" and k: "k \<le> f"
  then have "2 ^ k dvd i" by (auto simp: chunk_ok_def intro: dvd_trans [OF le_imp_power_dvd])
  moreover have "(2::nat) ^ k \<le> 2 ^ f" using k by (rule power_increasing) simp
  then have "i + 2 ^ k \<le> 2 ^ K" using f unfolding chunk_ok_def by linarith
  ultimately show ?thesis using f k by (simp add: chunk_ok_def)
qed

lemma take_chunk_ok:
  assumes s: "buddy_ok base K s L" "coalesced K (fsets L)" and f: "k \<le> f" "f \<le> K" "L f = i # ys"
    and e: "\<forall>l. k \<le> l \<and> l < f \<longrightarrow> L l = []"
  shows "\<exists>t u M. remove_from_list (blk base i) f s = Inr t \<and> split_loop f k (blk base i) t = Inr u \<and>
    buddy_ok base K u M \<and> coalesced K (fsets M) \<and> chunk_ok K k i \<and> cells k i \<subseteq> free_cells (fsets L) \<and>
    free_cells (fsets M) = free_cells (fsets L) - cells k i \<and> frame base (free_cells (fsets L)) s u"
proof -
  obtain t where t: "remove_from_list (blk base i) f s = Inr t" "buddy_ok base K t (L(f := ys))" "frame base {} s t"
    using remove_head_ok [OF s(1) f(2,3)] by blast
  have e1: "fsets (L(f := ys)) = del_chunk f i (fsets L)"
    using fsets_del [of L f i] buddy_ok_distinct [OF s(1), of f] f(3) by simp
  have iF: "i \<in> fsets L f" using f(3) by (simp add: fsets_def)
  have cok: "chunks_ok K (fsets L)" using s by (auto simp: buddy_ok_def)
  have ci: "chunk_ok K f i" by (rule chunks_ok_chunk [OF cok iF])
  have fc: "free_cells (fsets (L(f := ys))) = free_cells (fsets L) - cells f i"
    unfolding e1 by (rule free_cells_del [OF cok iF])
  have sub: "cells f i \<subseteq> free_cells (fsets L)" using iF by (auto simp: free_cells_def)
  have sub': "cells k i \<subseteq> cells f i" using f(1) by (simp add: cells_subset_iff)
  have "coalesced K (fsets (L(f := ys)))" unfolding e1 by (rule coalesced_del [OF s(2)])
  moreover have "cells f i \<inter> free_cells (fsets (L(f := ys))) = {}" unfolding fc by blast
  moreover have "\<forall>l. k \<le> l \<and> l < f \<longrightarrow> (L(f := ys)) l = []" using e by simp
  ultimately obtain u M where u: "split_loop f k (blk base i) t = Inr u" "buddy_ok base K u M" "coalesced K (fsets M)"
      "free_cells (fsets M) = free_cells (fsets (L(f := ys))) \<union> (cells f i - cells k i)"
      "frame base (cells f i) t u"
    using split_loop_ok [OF t(2) _ ci _ f(1)] by blast
  have "free_cells (fsets M) = free_cells (fsets L) - cells k i"
    unfolding u(4) fc using sub sub' by blast
  moreover have "frame base (free_cells (fsets L)) s u"
    by (rule frame_trans [OF frame_mono [OF t(3)] frame_mono [OF u(5)]]) (use sub in auto)
  moreover have "chunk_ok K k i" by (rule chunk_ok_smaller [OF ci f(1)])
  ultimately show ?thesis using t(1) u(1,2,3) sub sub' by blast
qed

lemma buddy_alloc_some:
  assumes s: "buddy_state base K s L" and n: "1 \<le> n" "n \<le> 2 ^ 30"
    and e: "order_of n \<le> l" "L l \<noteq> []"
  shows "\<exists>i t M. buddy_alloc n s = Inr (blk base i, t) \<and> chunk_ok K (order_of n) i \<and>
    cells (order_of n) i \<subseteq> free_cells (fsets L) \<and> buddy_state base K t M \<and>
    free_cells (fsets M) = free_cells (fsets L) - cells (order_of n) i \<and>
    bframe base (free_cells (fsets L)) s t"
proof -
  let ?s = "s\<lparr>held := insert L_buddy (held s)\<rparr>" and ?k = "order_of n"
  have ok: "buddy_ok base K ?s L"
    by (rule buddy_ok_cong [of base K s]) (use s in \<open>simp_all add: buddy_state_def\<close>)
  have m: "max_order ?s = Suc K" and LK: "\<forall>k > K. L k = []" using ok by (simp_all add: buddy_ok_def buddy_rep_def)
  have lK: "l \<le> K" using e(2) LK by (meson not_le)
  obtain f where f: "find_order ?k ?s = Inr f" "?k \<le> f" "\<forall>l. ?k \<le> l \<and> l < f \<longrightarrow> L l = []"
      "f = Suc (Suc K) \<or> f \<le> K \<and> L f \<noteq> []"
    using find_order_ok [OF ok, of ?k] lK e(1) by auto
  then have f': "f \<le> K" "L f \<noteq> []" using e lK by auto
  then obtain i ys where L: "L f = i # ys" by (cases "L f") auto
  have co: "coalesced K (fsets L)" using s by (simp add: buddy_state_def)
  obtain t u M where t: "remove_from_list (blk base i) f ?s = Inr t" "split_loop f ?k (blk base i) t = Inr u"
      "buddy_ok base K u M" "coalesced K (fsets M)" "chunk_ok K ?k i" "cells ?k i \<subseteq> free_cells (fsets L)"
      "free_cells (fsets M) = free_cells (fsets L) - cells ?k i" "frame base (free_cells (fsets L)) ?s u"
    using take_chunk_ok [OF ok co f(2) f'(1) L f(3)] by blast
  let ?u = "u\<lparr>free_blocks := free_blocks u - 2 ^ ?k, held := held s\<rparr>"
  have h: "fl_get f ?s = Inr (blk base i)"
    using buddy_ok_chain [OF ok f'(1)] L buddy_ok_order [OF ok, of f] f'(1) by (simp add: fl_get_def)
  have nh: "L_buddy \<notin> held s" "insert L_buddy (held s) - {L_buddy} = held s"
    using s by (auto simp: buddy_state_def)
  have "buddy_alloc n s = Inr (blk base i, ?u)"
    using n m f(1,2) f'(1) t(1,2,8) h nh
    by (simp add: buddy_alloc_def order_of(1) [OF n] frame_def)
  moreover have "buddy_ok base K ?u M" by (rule buddy_ok_cong [OF t(3)]) simp_all
  moreover have "int (card (free_cells (fsets M))) = int (card (free_cells (fsets L))) - 2 ^ ?k"
    unfolding t(7) using t(6) finite_free_cells [of K "fsets L"] ok card_mono [of "free_cells (fsets L)" "cells ?k i"]
    by (simp add: card_Diff_subset buddy_ok_def of_nat_diff)
  moreover have "bframe base (free_cells (fsets L)) s ?u" using t(8) by (simp add: frame_def bframe_def)
  ultimately show ?thesis
    using t(4-8) s nh
    by (intro exI [of _ i] exI [of _ ?u] exI [of _ M]) (simp add: buddy_state_def frame_def)
qed

text \<open>\<^verbatim>\<open>buddy_free\<close> of an allocated chunk.\<close>

lemma buddy_free_ok:
  assumes s: "buddy_state base K s L" and n: "1 \<le> n" "n \<le> 2 ^ 30"
    and i: "chunk_ok K (order_of n) i" "cells (order_of n) i \<inter> free_cells (fsets L) = {}"
  shows "\<exists>t M. buddy_free (blk base i) n s = Inr t \<and> buddy_state base K t M \<and>
    free_cells (fsets M) = free_cells (fsets L) \<union> cells (order_of n) i \<and>
    bframe base (free_cells (fsets L) \<union> cells (order_of n) i) s t"
proof -
  let ?s = "s\<lparr>held := insert L_buddy (held s)\<rparr>" and ?k = "order_of n"
  have ok: "buddy_ok base K ?s L"
    by (rule buddy_ok_cong [of base K s]) (use s in \<open>simp_all add: buddy_state_def\<close>)
  have co: "coalesced K (fsets L)" using s by (simp add: buddy_state_def)
  have nz: "blk base i \<noteq> 0" using ok chunk_less [OF i(1)] by (intro blk_ok(1) [of base K]) (auto simp: buddy_ok_def)
  have nh: "L_buddy \<notin> held s" "insert L_buddy (held s) - {L_buddy} = held s"
    using s by (auto simp: buddy_state_def)
  obtain t M k j where t: "merge_loop (blk base i) ?k ?s = Inr (blk base j, k, t)" "buddy_ok base K t M"
      "coalesced K (fsets M)" "chunk_ok K k j" "cells k j \<inter> free_cells (fsets M) = {}"
      "cells k j \<union> free_cells (fsets M) = cells ?k i \<union> free_cells (fsets L)" "bud k j \<notin> fsets M k"
      "frame base (free_cells (fsets L)) ?s t"
    using merge_loop_ok [OF ok co i] by blast
  let ?M = "M(k := j # M k)"
  obtain u where u: "add_to_list (blk base j) k t = Inr u" "buddy_ok base K u ?M" "frame base (cells k j) t u"
    using add_to_list_ok [OF t(2,4,5)] by blast
  let ?u = "u\<lparr>free_blocks := free_blocks u + 2 ^ ?k, held := held s\<rparr>"
  have fM: "free_cells (fsets ?M) = free_cells (fsets L) \<union> cells ?k i"
    unfolding fsets_add free_cells_add using t(6) by blast
  have co': "coalesced K (fsets ?M)" unfolding fsets_add by (rule coalesced_add [OF t(3,7)])
  have fr: "frame base (free_cells (fsets L) \<union> cells ?k i) ?s u"
    by (rule frame_trans [OF frame_mono [OF t(8)] frame_mono [OF u(3)]]) (use t(6) in auto)
  have "buddy_free (blk base i) n s = Inr ?u"
    using n nz nh t(1) u(1) fr by (simp add: buddy_free_def order_of(1) [OF n] frame_def)
  moreover have "buddy_ok base K ?u ?M" by (rule buddy_ok_cong [OF u(2)]) simp_all
  moreover have "int (card (free_cells (fsets ?M))) = int (card (free_cells (fsets L))) + 2 ^ ?k"
    unfolding fM using i(2) finite_free_cells [of K "fsets L"] ok
    by (subst card_Un_disjoint) (auto simp: buddy_ok_def)
  moreover have "bframe base (free_cells (fsets L) \<union> cells ?k i) s ?u" using fr by (simp add: frame_def bframe_def)
  ultimately show ?thesis
    using co' fM s nh fr by (intro exI [of _ ?u] exI [of _ ?M]) (simp add: buddy_state_def frame_def)
qed

section \<open>Initialisation\<close>

lemma log2_ceil_pow2:
  assumes "K \<le> 30"
  shows "log2_ceil (2 ^ K) = Inr K"
proof -
  have "(2::int) ^ K \<le> 2 ^ 30" using assms by (rule power_increasing) simp
  then obtain k where k: "log2_ceil (2 ^ K) = Inr k" "(2::int) ^ K \<le> 2 ^ k" "k = 0 \<or> (2::int) ^ (k - 1) < 2 ^ K"
    using log2_ceil_ok [of "2 ^ K"] by auto
  then have "K \<le> k" "k = 0 \<or> k - 1 < K" by simp_all
  then have "k = K" by linarith
  then show ?thesis using k(1) by simp
qed

lemma order_of_pow2: "K \<le> 30 \<Longrightarrow> order_of (2 ^ K) = K"
  by (simp add: order_of_def log2_ceil_pow2)

lemma lower_order_pow2: "lower_order (Suc K) (2 ^ K) = Inr K"
  by (cases K) simp_all

definition whole :: "nat \<Rightarrow> flists" where
  "whole K = (\<lambda>_. [])(K := [0])"

lemma fsets_whole: "fsets (whole K) = (\<lambda>_. {})(K := {0})"
  by (rule ext) (simp add: fsets_def whole_def)

lemma whole_free: "free_cells (fsets (whole K)) = {0 ..< 2 ^ K}"
  unfolding fsets_whole by (rule whole_region(3))

lemma buddy_init_ok:
  assumes r: "region base K" and fl: "length (free_list s) = MAX_ORDER" "free_list s ! Suc K = 0"
  shows "\<exists>t. buddy_init base (2 ^ K) s = Inr t \<and> buddy_state base K t (whole K)"
proof -
  have K: "K \<le> 13" "base \<noteq> 0" using r by (auto simp: region_def)
  let ?s = "(init_lock L_buddy s)\<lparr>total_blocks := 2 ^ K, free_blocks := 2 ^ K, max_order := Suc K,
      free_list := replicate (Suc K) 0 @ drop (Suc K) (free_list s), memory_start := base\<rparr>"
  let ?t = "?s\<lparr>mem := store64 (mem s) base 0, free_list := (free_list ?s)[K := base]\<rparr>"
  have len: "length (free_list ?s) = MAX_ORDER" using K fl(1) by (simp add: MAX_ORDER_def)
  have "add_to_list base K ?s = Inr ?t"
    using K len by (simp add: add_to_list_def fl_get_def fl_set_def set_next_def MAX_ORDER_def nth_append init_lock_def
        del: replicate_Suc)
  then have "buddy_init_loop base (2 ^ K) (Suc K) ?s = Some (Inr ?t)"
    by (subst buddy_init_loop.simps)
      (simp add: lower_order_pow2 buddy_init_loop.simps Let_def del: lower_order.simps)
  then have "buddy_init base (2 ^ K) s = Inr ?t"
    using K log2_ceil_pow2 [of K] one_le_power [of "2::int" K]
    by (simp add: buddy_init_def MAX_ORDER_def init_lock_def not_less [symmetric])
  moreover have nth: "free_list ?t ! k = (if k = K then base else if k \<le> K then 0 else free_list s ! k)"
    if "k \<le> Suc K" for k
    using that K fl(1)
    by (auto simp: nth_append nth_list_update MAX_ORDER_def less_Suc_eq_le le_Suc_eq simp del: replicate_Suc)
  have "buddy_rep base K ?t (whole K)"
    unfolding buddy_rep_def
  proof (intro conjI allI impI)
    show "length (free_list ?t) = MAX_ORDER" using len by (simp del: replicate_Suc)
    show "free_list ?t ! Suc K = 0" using nth [of "Suc K"] fl(2) by simp
    show "chain (load64 (mem ?t)) (free_list ?t ! k) (map (blk base) (whole K k))" if "k \<le> K" for k
      using nth [of k] that K(2) by (cases "k = K") (simp_all add: whole_def blk_def)
  qed (simp_all add: whole_def)
  moreover have "L_buddy \<notin> held ?t" by (simp add: init_lock_def)
  ultimately show ?thesis
    using r whole_region [of K] by (intro exI [of _ ?t]) (simp add: buddy_state_def buddy_ok_def fsets_whole)
qed

section \<open>The allocator contract\<close>

definition bidx :: "addr \<Rightarrow> addr \<Rightarrow> nat" where
  "bidx base p = unat (p - base) div 4096"

lemma bidx_blk: "i < 2 ^ 50 \<Longrightarrow> bidx base (blk base i) = i"
  by (simp add: bidx_def blk_def del: of_nat_mult)

definition run_cells :: "addr \<Rightarrow> addr \<times> int \<Rightarrow> nat set" where
  "run_cells base h = cells (order_of (snd h)) (bidx base (fst h))"

definition run_ok :: "addr \<Rightarrow> nat \<Rightarrow> addr \<times> int \<Rightarrow> bool" where
  "run_ok base K h \<longleftrightarrow> 1 \<le> snd h \<and> snd h \<le> 2 ^ 30 \<and>
     (\<exists>i. fst h = blk base i \<and> chunk_ok K (order_of (snd h)) i)"

definition buddy_alloc_opt ::
  "int \<Rightarrow> 'z buddy_st_scheme \<Rightarrow> ((addr \<times> int) option \<times> 'z buddy_st_scheme) res"
where
  "buddy_alloc_opt n s = bindR (buddy_alloc n s) (\<lambda>(p, s). Inr (if p = 0 then None else Some (p, n), s))"

definition run_write :: "addr \<Rightarrow> addr \<times> int \<Rightarrow> memory \<Rightarrow> 'z buddy_st_scheme \<Rightarrow> 'z buddy_st_scheme" where
  "run_write base h w s = s\<lparr>mem := scribble (block_bytes base (run_cells base h)) w (mem s)\<rparr>"

lemma block_bytes_disjoint:
  assumes "region base K" and "A \<subseteq> {..< 2 ^ K}" and "B \<subseteq> {..< 2 ^ K}" and "A \<inter> B = {}"
  shows "block_bytes base A \<inter> block_bytes base B = {}"
proof -
  have "page_bytes (blk base i) \<inter> page_bytes (blk base j) = {}" if "i \<in> A" "j \<in> B" for i j
  proof (rule page_bytes_disjoint)
    have lt: "i < 2 ^ K" "j < 2 ^ K" "i \<noteq> j" using that assms by auto
    show "aligned (blk base i)" "aligned (blk base j)" using blk_ok(2) [OF assms(1)] lt by simp_all
    show "blk base i \<noteq> blk base j"
      using lt region_small [OF assms(1), of i] region_small [OF assms(1), of j] by (simp add: blk_inj)
  qed
  then show ?thesis by (fastforce simp: block_bytes_def)
qed

lemma buddy_state_mem:
  assumes s: "buddy_state base K s L"
    and m: "\<And>x. x \<in> block_bytes base (free_cells (fsets L)) \<Longrightarrow> m x = mem s x"
  shows "buddy_state base K (s\<lparr>mem := m\<rparr>) L"
proof -
  have "chain (load64 m) (free_list s ! k) (map (blk base) (L k))" if k: "k \<le> K" for k
  proof -
    have "load64 m (blk base i) = load64 (mem s) (blk base i)" if "i \<in> set (L k)" for i
      using list_free_cell [of i L k] that
      by (intro load64_page_cong m) (auto simp: block_bytes_def)
    then show ?thesis
      using buddy_ok_chain [of base K s L k] s k
        chain_cong [of "map (blk base) (L k)" "load64 m" "load64 (mem s)"] by (auto simp: buddy_state_def)
  qed
  then show ?thesis using s by (simp add: buddy_state_def buddy_ok_def buddy_rep_def)
qed

lemma buddy_alloc_opt_cases:
  assumes s: "buddy_state base K s L" and n: "n \<le> 2 ^ 30"
  obtains "buddy_alloc_opt n s = Inr (None, s)"
  | i t M where "buddy_alloc_opt n s = Inr (Some (blk base i, n), t)" "1 \<le> n" "chunk_ok K (order_of n) i"
      "cells (order_of n) i \<subseteq> free_cells (fsets L)" "buddy_state base K t M"
      "free_cells (fsets M) = free_cells (fsets L) - cells (order_of n) i"
proof (cases "1 \<le> n \<and> (\<exists>l \<ge> order_of n. L l \<noteq> [])")
  case True
  then obtain l where l: "1 \<le> n" "order_of n \<le> l" "L l \<noteq> []" by auto
  obtain i t M where t: "buddy_alloc n s = Inr (blk base i, t)" "chunk_ok K (order_of n) i"
      "cells (order_of n) i \<subseteq> free_cells (fsets L)" "buddy_state base K t M"
      "free_cells (fsets M) = free_cells (fsets L) - cells (order_of n) i"
    using buddy_alloc_some [OF s l(1) n l(2,3)] by blast
  have "blk base i \<noteq> 0"
    using s chunk_less [OF t(2)] by (intro blk_ok(1) [of base K]) (auto simp: buddy_state_def buddy_ok_def)
  then show thesis using t l(1) by (intro that(2)) (auto simp: buddy_alloc_opt_def)
next
  case False
  then have "buddy_alloc n s = Inr (0, s)"
    using buddy_alloc_none [OF s _ n] by (cases "1 \<le> n") (auto simp: buddy_alloc_def)
  then show thesis by (intro that(1)) (simp add: buddy_alloc_opt_def)
qed

lemma run_cells_blk:
  "buddy_state base K s L \<Longrightarrow> chunk_ok K (order_of n) i \<Longrightarrow> run_cells base (blk base i, n) = cells (order_of n) i"
  using chunk_less [of K "order_of n" i] region_small [of base K i]
  by (simp add: run_cells_def bidx_blk buddy_state_def buddy_ok_def)

lemma buddy_state_inv: "buddy_state base K s L \<Longrightarrow> buddy_inv base K s"
  by (auto simp: buddy_inv_def)

interpretation buddy_allocator: allocator "\<lambda>n. n \<le> 2 ^ 30" "buddy_inv base K" "buddy_cells base K"
  "\<lambda>_. run_ok base K" "run_cells base" buddy_alloc_opt "\<lambda>h. buddy_free (fst h) (snd h)" "run_write base"
  for base :: addr and K :: nat
proof (unfold_locales, goal_cases)
  case (1 s n)
  then show ?case by (auto simp: buddy_inv_def elim: buddy_alloc_opt_cases [where n = n])
next
  case (2 s n h t)
  then obtain L where L: "buddy_state base K s L" by (auto simp: buddy_inv_def)
  show ?case
    using buddy_alloc_opt_cases [OF L 2(2)] 2(2,3)
    by cases (auto simp: run_cells_blk [OF L] buddy_cells_eq [OF L] buddy_cells_eq run_ok_def buddy_state_inv)
next
  case (3 s n t)
  then obtain L where L: "buddy_state base K s L" by (auto simp: buddy_inv_def)
  show ?case using buddy_alloc_opt_cases [OF L 3(2)] 3(1,3) by cases auto
next
  case (4 s h)
  then obtain L where L: "buddy_state base K s L" by (auto simp: buddy_inv_def)
  obtain i where i: "1 \<le> snd h" "snd h \<le> 2 ^ 30" "fst h = blk base i" "chunk_ok K (order_of (snd h)) i"
    using 4(2) by (auto simp: run_ok_def)
  then have c: "run_cells base h = cells (order_of (snd h)) i"
    using run_cells_blk [OF L, of "snd h" i] by (metis prod.collapse)
  show ?case
    using buddy_free_ok [OF L i(1,2,4)] 4(3) i(3) buddy_cells_eq [OF L] c
    by (auto simp: buddy_cells_eq buddy_state_inv)
next
  case (5 s h w)
  then obtain L where L: "buddy_state base K s L" by (auto simp: buddy_inv_def)
  have r: "region base K" "chunks_ok K (fsets L)" using L by (auto simp: buddy_state_def buddy_ok_def)
  obtain i where "fst h = blk base i" "chunk_ok K (order_of (snd h)) i"
    using 5(2) by (auto simp: run_ok_def)
  then have "run_cells base h \<subseteq> {..< 2 ^ K}"
    using run_cells_blk [OF L, of "snd h" i] by (auto simp: chunk_ok_def cells_def run_cells_def)
  then have "block_bytes base (run_cells base h) \<inter> block_bytes base (free_cells (fsets L)) = {}"
    using 5(3) free_cells_bounded [OF r(2)] by (intro block_bytes_disjoint [OF r(1)]) (auto simp: buddy_cells_eq [OF L])
  then have w: "buddy_state base K (run_write base h w s) L"
    unfolding run_write_def by (intro buddy_state_mem [OF L]) (auto simp: scribble_def)
  show ?case
    by (simp add: buddy_cells_eq [OF L] buddy_cells_eq [OF w] buddy_state_inv [OF w])
qed

lemma distinct_singleton:
  assumes "distinct xs" and "set xs = {a}"
  shows "xs = [a]"
proof -
  have "length xs = 1" using assms by (metis distinct_card card_1_singleton_iff One_nat_def)
  then show ?thesis using assms(2) by (cases xs) auto
qed

lemma all_free_whole:
  assumes "buddy_state base K s L" and "free_cells (fsets L) = {0 ..< 2 ^ K}"
  shows "L = whole K"
proof
  fix k
  have "fsets L = fsets (whole K)"
    using assms whole_region [of K] unfolding fsets_whole
    by (intro chunks_determined [of K]) (auto simp: buddy_state_def buddy_ok_def)
  then have "set (L k) = set (whole K k)" by (metis fsets_def)
  moreover have "distinct (L k)" using buddy_ok_distinct [of base K s L k] assms(1) by (simp add: buddy_state_def)
  ultimately show "L k = whole K k"
    by (cases "k = K") (simp_all add: whole_def distinct_singleton)
qed

section \<open>Properties\<close>

lemma buddy_boot:
  assumes "region base K" and "length (free_list s) = MAX_ORDER" and "free_list s ! Suc K = 0"
  obtains t where "buddy_init base (2 ^ K) s = Inr t" "buddy_allocator.live_ok base K t []"
    "buddy_allocator.space base K t [] = {0 ..< 2 ^ K}"
proof -
  obtain t where t: "buddy_init base (2 ^ K) s = Inr t" "buddy_state base K t (whole K)"
    using buddy_init_ok [OF assms] by blast
  show thesis
    by (rule that [OF t(1)])
      (simp_all add: buddy_allocator.live_ok_def buddy_allocator.space_def apart_def buddy_state_inv [OF t(2)]
        buddy_cells_eq [OF t(2)] whole_free)
qed

text \<open>
  C3: After \<^verbatim>\<open>buddy_init\<close> of a region of \<open>2 ^ K\<close> blocks, whatever sequence of \<^verbatim>\<open>buddy_alloc\<close> (of up
  to \<open>2 ^ 30\<close> blocks), \<^verbatim>\<open>buddy_free\<close> of runs it holds and writes of any bytes inside the runs it
  holds a client makes, no call panics, faults or loops for ever; the runs it holds are aligned to
  their size, lie inside the region and do not overlap each other or the free blocks; and every
  block of the region is either free or in a run it holds.
\<close>

theorem buddy_run_safe:
  assumes "region base K" and "length (free_list s) = MAX_ORDER" and "free_list s ! Suc K = 0"
    and "\<forall>n. Alloc n \<in> set ops \<longrightarrow> n \<le> 2 ^ 30"
  shows "\<exists>t0 t live. buddy_init base (2 ^ K) s = Inr t0 \<and>
    alloc_run buddy_alloc_opt (\<lambda>h. buddy_free (fst h) (snd h)) (run_write base) ops (t0, []) = Inr (t, live) \<and>
    buddy_inv base K t \<and> apart (run_cells base) live \<and>
    (\<forall>h \<in> set live. run_ok base K h \<and> run_cells base h \<inter> buddy_cells base K t = {}) \<and>
    buddy_cells base K t \<union> \<Union> (run_cells base ` set live) = {0 ..< 2 ^ K}"
proof -
  obtain t0 where t0: "buddy_init base (2 ^ K) s = Inr t0" "buddy_allocator.live_ok base K t0 []"
      "buddy_allocator.space base K t0 [] = {0 ..< 2 ^ K}"
    using buddy_boot [OF assms(1-3)] by blast
  from buddy_allocator.run_safe [OF t0(2) assms(4)] t0 show ?thesis
    by (fastforce simp: buddy_allocator.live_ok_def buddy_allocator.space_def)
qed

definition bss :: buddy_st where
  "bss = \<lparr>held = {}, mem = (\<lambda>_. 0), freelist = 0, max_order = 0, free_list = replicate 15 0,
     memory_start = 0, total_blocks = 0, free_blocks = 0\<rparr>"

lemma bss_region: "region 0x87C00000 10" "length (free_list bss) = MAX_ORDER" "free_list bss ! Suc 10 = 0"
  "region 0x87C00000 1" "free_list bss ! Suc 1 = 0"
  by (simp_all add: region_def aligned_def PGSIZE_def bss_def MAX_ORDER_def nth_replicate del: replicate.simps)

theorem buddy_run_safe_witness:
  "\<exists>t0 t live. buddy_init 0x87C00000 (2 ^ 10) bss = Inr t0 \<and>
    alloc_run buddy_alloc_opt (\<lambda>h. buddy_free (fst h) (snd h)) (run_write 0x87C00000)
      [Alloc 3, Alloc 1024, Use 0 (\<lambda>_. 1), Free 0] (t0, []) = Inr (t, live) \<and>
    buddy_inv 0x87C00000 10 t \<and> apart (run_cells 0x87C00000) live"
  using buddy_run_safe [OF bss_region(1-3), of "[Alloc 3, Alloc 1024, Use 0 (\<lambda>_. 1), Free 0]"] by auto



text \<open>
  C5: \<^verbatim>\<open>buddy_alloc\<close> of \<open>n\<close> blocks returns a null pointer exactly when the region has no free aligned
  run of the needed size (the least power of two not below \<open>n\<close>), and then changes nothing. A run it
  returns is such a run. Fragmentation that merging could have removed never makes it fail.
\<close>

theorem buddy_alloc_fails_iff:
  assumes "buddy_state base K s L" and "1 \<le> n" and "n \<le> 2 ^ 30"
  shows "(if \<exists>i. chunk_ok K (order_of n) i \<and> cells (order_of n) i \<subseteq> free_cells (fsets L)
      then \<exists>i t. buddy_alloc n s = Inr (blk base i, t) \<and> blk base i \<noteq> 0 \<and> chunk_ok K (order_of n) i \<and>
        cells (order_of n) i \<subseteq> free_cells (fsets L)
      else buddy_alloc n s = Inr (0, s)) \<and>
    n \<le> 2 ^ order_of n \<and> (order_of n = 0 \<or> 2 ^ (order_of n - 1) < n)"
proof (cases "\<exists>i. chunk_ok K (order_of n) i \<and> cells (order_of n) i \<subseteq> free_cells (fsets L)")
  case True
  then obtain i where i: "chunk_ok K (order_of n) i" "cells (order_of n) i \<subseteq> free_cells (fsets L)" by blast
  have ok: "chunks_ok K (fsets L)" "coalesced K (fsets L)" "region base K"
    using assms(1) by (auto simp: buddy_state_def buddy_ok_def)
  obtain l j where "order_of n \<le> l" "j \<in> fsets L l"
    using free_run_covered [OF ok(1,2), of "order_of n" i] i by (auto simp: chunk_ok_def)
  then have "L l \<noteq> []" by (auto simp: fsets_def)
  then obtain j t where "buddy_alloc n s = Inr (blk base j, t)" "chunk_ok K (order_of n) j"
      "cells (order_of n) j \<subseteq> free_cells (fsets L)"
    using buddy_alloc_some [OF assms \<open>order_of n \<le> l\<close>] by blast
  then show ?thesis
    using True order_of [OF assms(2,3)] blk_ok(1) [OF ok(3) chunk_less] by auto
next
  case False
  have ok: "chunks_ok K (fsets L)" using assms(1) by (auto simp: buddy_state_def buddy_ok_def)
  have "L l = []" if "order_of n \<le> l" for l
  proof (rule ccontr)
    assume "L l \<noteq> []"
    then obtain j where j: "j \<in> fsets L l" by (metis fsets_def hd_in_set)
    have "chunk_ok K (order_of n) j" by (rule chunk_ok_smaller [OF chunks_ok_chunk [OF ok j] that])
    moreover have "cells (order_of n) j \<subseteq> cells l j" using that by (simp add: cells_subset_iff)
    then have "cells (order_of n) j \<subseteq> free_cells (fsets L)" using j by (auto simp: free_cells_def)
    ultimately show False using False by blast
  qed
  then show ?thesis using False buddy_alloc_none [OF assms] order_of [OF assms(2,3)] by auto
qed

lemma bss_booted: "\<exists>t. buddy_init 0x87C00000 (2 ^ 10) bss = Inr t \<and> buddy_state 0x87C00000 10 t (whole 10)"
  by (rule buddy_init_ok [OF bss_region(1-3)])

theorem buddy_alloc_fails_iff_witness:
  "\<exists>t i u. buddy_init 0x87C00000 (2 ^ 10) bss = Inr t \<and> buddy_alloc 1024 t = Inr (blk 0x87C00000 i, u) \<and>
     blk 0x87C00000 i \<noteq> 0"
proof -
  obtain t where t: "buddy_init 0x87C00000 (2 ^ 10) bss = Inr t" "buddy_state 0x87C00000 10 t (whole 10)"
    using bss_booted by blast
  have "order_of 1024 = 10" using order_of_pow2 [of 10] by simp
  then have "chunk_ok 10 (order_of 1024) 0 \<and> cells (order_of 1024) 0 \<subseteq> free_cells (fsets (whole 10))"
    by (simp add: chunk_ok_def cells_def whole_free)
  then have "\<exists>i. chunk_ok 10 (order_of 1024) i \<and> cells (order_of 1024) i \<subseteq> free_cells (fsets (whole 10))" ..
  from buddy_alloc_fails_iff [OF t(2), of 1024, unfolded if_P [OF this]] t(1) show ?thesis by auto
qed

text \<open>
  C6: Freeing a run just allocated, with the same number of blocks, restores the free lists of every
  order (as sets of chunks), the count of free blocks and the locks, and touches no byte outside
  the blocks that were free.
\<close>

theorem buddy_alloc_free:
  assumes "buddy_state base K s L" and "1 \<le> n" and "n \<le> 2 ^ 30" and "buddy_alloc n s = Inr (p, t)" and "p \<noteq> 0"
  shows "\<exists>u M. buddy_free p n t = Inr u \<and> buddy_state base K u M \<and> fsets M = fsets L \<and>
    free_blocks u = free_blocks s \<and> held u = held s \<and>
    (\<forall>x. x \<notin> block_bytes base (free_cells (fsets L)) \<longrightarrow> mem u x = mem s x)"
proof -
  obtain l where "order_of n \<le> l" "L l \<noteq> []"
    using buddy_alloc_none [OF assms(1-3)] assms(4,5) by auto
  then obtain i M where M: "p = blk base i" "chunk_ok K (order_of n) i"
      "cells (order_of n) i \<subseteq> free_cells (fsets L)" "buddy_state base K t M"
      "free_cells (fsets M) = free_cells (fsets L) - cells (order_of n) i"
      "bframe base (free_cells (fsets L)) s t"
    using buddy_alloc_some [OF assms(1-3)] assms(4) by fastforce
  have "cells (order_of n) i \<inter> free_cells (fsets M) = {}" unfolding M(5) by blast
  then obtain u N where N: "buddy_free p n t = Inr u" "buddy_state base K u N"
      "free_cells (fsets N) = free_cells (fsets M) \<union> cells (order_of n) i"
      "bframe base (free_cells (fsets M) \<union> cells (order_of n) i) t u"
    using buddy_free_ok [OF M(4) assms(2,3) M(2)] M(1) by blast
  have c: "free_cells (fsets M) \<union> cells (order_of n) i = free_cells (fsets L)" unfolding M(5) using M(3) by blast
  have "fsets N = fsets L"
    using N(2,3) assms(1) c by (intro chunks_determined [of K]) (auto simp: buddy_state_def buddy_ok_def)
  then show ?thesis
    using N(1,2,4) M(6) assms(1) c
    by (intro exI [of _ u] exI [of _ N]) (simp add: buddy_state_def bframe_def)
qed

theorem buddy_alloc_free_witness:
  "\<exists>s p t u. buddy_init 0x87C00000 (2 ^ 10) bss = Inr s \<and> buddy_alloc 1024 s = Inr (p, t) \<and>
     buddy_free p 1024 t = Inr u \<and> free_blocks u = free_blocks s"
proof -
  obtain s where s: "buddy_init 0x87C00000 (2 ^ 10) bss = Inr s" "buddy_state 0x87C00000 10 s (whole 10)"
    using bss_booted by blast
  have k: "order_of 1024 = 10" using order_of_pow2 [of 10] by simp
  obtain i t where t: "buddy_alloc 1024 s = Inr (blk 0x87C00000 i, t)" "chunk_ok 10 10 i"
    using buddy_alloc_some [OF s(2), of 1024 10] by (auto simp: k whole_def)
  have "blk 0x87C00000 i \<noteq> 0" using chunk_top [OF t(2)] by (simp add: blk_def)
  then show ?thesis using buddy_alloc_free [OF s(2) _ _ t(1)] s(1) t(1) by auto
qed

text \<open>
  C18: \<^verbatim>\<open>log2_floor\<close> is the floor and \<^verbatim>\<open>log2_ceil\<close> the ceiling of the binary logarithm for
  every argument up to \<open>2 ^ 30\<close>; above it the doubling of \<^verbatim>\<open>power\<close> overflows \<^verbatim>\<open>int\<close>.
\<close>

theorem log2_correct:
  "(1 \<le> x \<longrightarrow> 2 ^ log2_floor x \<le> x \<and> x < 2 ^ Suc (log2_floor x)) \<and>
   (1 \<le> x \<and> x \<le> 2 ^ 30 \<longrightarrow> (\<exists>k. log2_ceil x = Inr k \<and> x \<le> 2 ^ k \<and> (k = 0 \<or> 2 ^ (k - 1) < x))) \<and>
   (2 ^ 30 < x \<longrightarrow> log2_ceil x = Inl (Fault ''int overflow''))"
proof (intro conjI impI)
  assume "1 \<le> x"
  then obtain k where k: "log2_floor_loop x 0 = 0 + k" "2 ^ k \<le> x" "x < 2 ^ Suc k"
    using log2_floor_loop_ok by blast
  then show "2 ^ log2_floor x \<le> x" "x < 2 ^ Suc (log2_floor x)" by (simp_all add: log2_floor_def)
next
  assume "1 \<le> x \<and> x \<le> 2 ^ 30"
  then show "\<exists>k. log2_ceil x = Inr k \<and> x \<le> 2 ^ k \<and> (k = 0 \<or> 2 ^ (k - 1) < x)"
    using log2_ceil_ok [of x] by blast
qed (rule log2_ceil_overflow)

theorem log2_correct_witness:
  "2 ^ log2_floor 1000 \<le> (1000 :: int) \<and> (1000 :: int) < 2 ^ Suc (log2_floor 1000) \<and>
   (\<exists>k. log2_ceil 1000 = Inr k \<and> 1000 \<le> (2 :: int) ^ k)"
  using log2_correct [of 1000] by auto

lemma log2_ceil_small: "log2_ceil 1 = Inr 0" "log2_ceil 2 = Inr 1" "log2_ceil 3 = Inr 2"
  by (simp_all add: log2_ceil_def log2_ceil_loop.simps INT_MAX_def)


lemma init_loop_done: "buddy_init_loop current 0 order s = Some (Inr s)"
  by (simp add: buddy_init_loop.simps)

lemma add_to_list_eq:
  "order < length (free_list s) \<Longrightarrow> ptr \<noteq> 0 \<Longrightarrow> add_to_list ptr order s =
     Inr (s\<lparr>mem := store64 (mem s) ptr (free_list s ! order), free_list := (free_list s)[order := ptr]\<rparr>)"
  by (simp add: add_to_list_def fl_get_def fl_set_def set_next_def)

lemma init_loop_one:
  assumes "current \<noteq> 0" and "0 < length (free_list s)"
  shows "\<exists>t. buddy_init_loop current 1 (Suc 0) s = Some (Inr t) \<and> max_order t = max_order s \<and>
    free_list t = (free_list s)[0 := current] \<and> held t = held s \<and> total_blocks t = total_blocks s"
proof -
  have "lower_order (Suc 0) 1 = Inr 0" by simp
  then show ?thesis
    using assms by (subst buddy_init_loop.simps) (simp add: add_to_list_eq init_loop_done)
qed

lemma init_loop_three:
  assumes "current \<noteq> 0" and "current + 65536 \<noteq> 0" and "3 < length (free_list s)"
  shows "\<exists>t. buddy_init_loop current 3 3 s = Some (Inr t) \<and> max_order t = max_order s \<and>
    free_list t = (free_list s)[1 := current, 0 := current + 65536] \<and> held t = held s \<and>
    total_blocks t = total_blocks s"
proof -
  have lo: "lower_order 3 3 = Inr (Suc 0)" by (simp add: numeral_3_eq_3)
  have len: "Suc 0 < length (free_list s)" using assms(3) by simp
  let ?s = "s\<lparr>mem := store64 (mem s) current (free_list s ! Suc 0), free_list := (free_list s)[Suc 0 := current]\<rparr>"
  have "buddy_init_loop current 3 3 s = buddy_init_loop (current + 65536) 1 (Suc 0) ?s"
    using assms len by (subst buddy_init_loop.simps) (simp add: lo add_to_list_eq)
  moreover have "0 < length (free_list ?s)" using assms(3) by (cases "free_list s") simp_all
  ultimately show ?thesis using init_loop_one [of "current + 65536" ?s] assms(2) by simp
qed

lemma alloc_first_list:
  assumes "log2_ceil n = Inr k" and "1 \<le> n" and "k \<le> max_order s" and "k < length (free_list s)"
    and "free_list s ! k \<noteq> 0" and "L_buddy \<notin> held s"
  shows "\<exists>t. buddy_alloc n s = Inr (free_list s ! k, t)"
proof -
  let ?s = "s\<lparr>held := insert L_buddy (held s)\<rparr>" and ?p = "free_list s ! k"
  have "find_order k ?s = Inr k" using assms by (subst find_order.simps) (simp add: fl_get_def)
  moreover have "split_loop k k ?p u = Inr u" for u :: "'a buddy_st_scheme" by (cases k) simp_all
  ultimately show ?thesis
    using assms by (simp add: buddy_alloc_def fl_get_def remove_from_list_def fl_set_def get_next_def)
qed

text \<open>
  C19: Initialised with three blocks, the allocator puts its second free chunk 65536 bytes above
  the start, outside the three blocks it was given, and hands it out: the pointer step of
  \<^verbatim>\<open>buddy_init\<close> is scaled by the size of \<^verbatim>\<open>struct buddy_block\<close>.
\<close>

theorem buddy_init_misplaces_chunk:
  assumes "base \<noteq> 0" and "base + 65536 \<noteq> 0" and "length (free_list s) = MAX_ORDER"
  shows "\<exists>t u. buddy_init base 3 s = Inr t \<and> buddy_alloc 1 t = Inr (base + 65536, u) \<and> total_blocks t = 3"
proof -
  let ?s = "(init_lock L_buddy s)\<lparr>total_blocks := 3, free_blocks := 3, max_order := 3,
      free_list := replicate 3 0 @ drop 3 (free_list s), memory_start := base\<rparr>"
  obtain t where t: "buddy_init_loop base 3 3 ?s = Some (Inr t)" "max_order t = 3"
      "free_list t = (replicate 3 0 @ drop 3 (free_list s))[1 := base, 0 := base + 65536]"
      "held t = held s - {L_buddy}" "total_blocks t = 3"
    using init_loop_three [OF assms(1,2), of ?s] assms(3) by (auto simp: MAX_ORDER_def init_lock_def)
  have "buddy_init base 3 s = Inr t"
    using t(1) assms(3) by (simp add: buddy_init_def log2_ceil_small MAX_ORDER_def init_lock_def)
  moreover have "free_list t ! 0 = base + 65536" "0 < length (free_list t)"
    using t(3) assms(3) by (simp_all add: MAX_ORDER_def)
  ultimately show ?thesis
    using alloc_first_list [of 1 0 t] t assms(2) by (auto simp: log2_ceil_small)
qed

theorem buddy_init_misplaces_chunk_witness:
  "\<exists>t u. buddy_init 0x87C00000 3 bss = Inr t \<and> buddy_alloc 1 t = Inr (0x87C00000 + 65536, u) \<and> total_blocks t = 3"
  by (rule buddy_init_misplaces_chunk) (simp_all add: bss_def MAX_ORDER_def del: replicate.simps)

text \<open>
  C20: \<^verbatim>\<open>buddy_init\<close> does not clear the list of order \<^verbatim>\<open>max_order\<close>, which \<^verbatim>\<open>buddy_alloc\<close> searches: after
  initialisation with one block over a table with a stale entry of order 1, a request for two
  blocks returns the stale chunk.
\<close>

theorem buddy_init_keeps_stale_list:
  assumes "base \<noteq> 0" and "length (free_list s) = MAX_ORDER" and "free_list s ! 1 = p" and "p \<noteq> 0"
  shows "\<exists>t u. buddy_init base 1 s = Inr t \<and> total_blocks t = 1 \<and> buddy_alloc 2 t = Inr (p, u)"
proof -
  let ?s = "(init_lock L_buddy s)\<lparr>total_blocks := 1, free_blocks := 1, max_order := Suc 0,
      free_list := 0 # drop (Suc 0) (free_list s), memory_start := base\<rparr>"
  obtain t where t: "buddy_init_loop base 1 (Suc 0) ?s = Some (Inr t)" "max_order t = Suc 0"
      "free_list t = base # drop (Suc 0) (free_list s)"
      "held t = held s - {L_buddy}" "total_blocks t = 1"
    using init_loop_one [OF assms(1), of ?s] by (auto simp: init_lock_def)
  have "buddy_init base 1 s = Inr t"
    using t(1) assms(2) by (simp add: buddy_init_def log2_ceil_small MAX_ORDER_def init_lock_def)
  moreover have "free_list t ! Suc 0 = p" "Suc 0 < length (free_list t)"
    using t(3) assms by (simp_all add: MAX_ORDER_def)
  ultimately show ?thesis
    using alloc_first_list [of 2 "Suc 0" t] t assms(4) by (auto simp: log2_ceil_small)
qed

theorem buddy_init_keeps_stale_list_witness:
  "\<exists>t u. buddy_init 0x87C00000 1 (bss\<lparr>free_list := (free_list bss)[1 := 0x87C00000]\<rparr>) = Inr t \<and>
     total_blocks t = 1 \<and> buddy_alloc 2 t = Inr (0x87C00000, u)"
  by (rule buddy_init_keeps_stale_list) (simp_all add: bss_def MAX_ORDER_def del: replicate.simps)

end
