(* ===== verification/Slab.thy ===== *)
theory Slab
  imports Buddy
begin

text \<open>
  \<^verbatim>\<open>kernel/slab.c\<close>, the slab allocator: caches of equal objects cut out of runs of blocks of the
  buddy allocator, and \<^verbatim>\<open>kmalloc\<close>/\<^verbatim>\<open>kfree\<close> over thirteen such caches. The structures the code
  overlays on those runs (\<^verbatim>\<open>kmem_cache_t\<close>, \<^verbatim>\<open>kmem_slab_t\<close>, \<^verbatim>\<open>kmem_object_t\<close>) are kept in one store
  per structure type, indexed by address; the layout lemmas show that the addresses at which the
  code uses them do not overlap. A destructor call is recorded as an event. Names, which only
  \<^verbatim>\<open>kmem_cache_info\<close> prints, are lists of bytes.
\<close>

section \<open>Data\<close>

definition MIN_BUFFER_SIZE :: addr where "MIN_BUFFER_SIZE = 32"

definition MAX_BUFFER_SIZE :: addr where "MAX_BUFFER_SIZE = 131072"

definition NUM_BUFFER_CACHES :: nat where "NUM_BUFFER_CACHES = 13"

definition CACHE_NAME_LEN :: nat where "CACHE_NAME_LEN = 32"

definition SLAB_ERR_DETECT :: uint32 where "SLAB_ERR_DETECT = 0xB16B00B5"

record kmem_slab =
  sl_next :: addr
  sl_prev :: addr
  sl_mem :: addr
  num_objects_max :: uint32
  num_free :: uint32
  sl_free_list :: addr
  sl_cache :: addr

record kmem_object =
  ob_next :: addr
  ob_slab :: addr

record kmem_cache =
  ca_name :: "byte list"
  object_size :: addr
  aligned_size :: addr
  slab_size :: int
  error_detection :: uint32
  ctor :: addr
  dtor :: addr
  slabs_partial :: addr
  slabs_full :: addr
  slabs_empty :: addr
  num_slabs :: uint32
  num_allocated :: uint32
  num_grown :: uint32
  num_shrunk :: uint32
  last_shrink_state :: int
  error_state :: int
  ca_next :: addr

text \<open>\<^verbatim>\<open>sizeof(kmem_slab_t)\<close> and \<^verbatim>\<open>sizeof(kmem_object_t)\<close> on a 64-bit machine.\<close>

definition sizeof_kmem_slab :: addr where "sizeof_kmem_slab = 48"

definition sizeof_kmem_object :: addr where "sizeof_kmem_object = 16"

definition OBJECTS_PER_SLAB :: "addr \<Rightarrow> addr \<Rightarrow> addr" where
  "OBJECTS_PER_SLAB obj_size slab_bytes =
     (slab_bytes - sizeof_kmem_slab) div (obj_size + sizeof_kmem_object)"

record slab_st = buddy_st +
  caches :: "addr \<Rightarrow> kmem_cache"
  slabs :: "addr \<Rightarrow> kmem_slab"
  objs :: "addr \<Rightarrow> kmem_object"
  cache_list :: addr
  allocator_initialized :: bool
  buffer_caches :: "addr list"
  dtor_calls :: "(addr \<times> addr) list"

definition upd_cache :: "addr \<Rightarrow> (kmem_cache \<Rightarrow> kmem_cache) \<Rightarrow> 'z slab_st_scheme \<Rightarrow> 'z slab_st_scheme" where
  "upd_cache c f s = s\<lparr>caches := (caches s)(c := f (caches s c))\<rparr>"

definition upd_slab :: "addr \<Rightarrow> (kmem_slab \<Rightarrow> kmem_slab) \<Rightarrow> 'z slab_st_scheme \<Rightarrow> 'z slab_st_scheme" where
  "upd_slab p f s = s\<lparr>slabs := (slabs s)(p := f (slabs s p))\<rparr>"

definition upd_obj :: "addr \<Rightarrow> (kmem_object \<Rightarrow> kmem_object) \<Rightarrow> 'z slab_st_scheme \<Rightarrow> 'z slab_st_scheme" where
  "upd_obj p f s = s\<lparr>objs := (objs s)(p := f (objs s p))\<rparr>"

section \<open>Sizes\<close>

text \<open>The file's own \<^verbatim>\<open>round_up_pow2\<close>, which starts at \<^verbatim>\<open>MIN_BUFFER_SIZE\<close>.\<close>

partial_function (option) buf_round_up_loop :: "addr \<Rightarrow> addr \<Rightarrow> addr option" where
  "buf_round_up_loop sz pw =
     (if pw < sz \<and> pw \<le> MAX_BUFFER_SIZE then buf_round_up_loop sz (push_bit 1 pw) else Some pw)"

definition buf_round_up_pow2 :: "addr \<Rightarrow> addr res" where
  "buf_round_up_pow2 sz = of_loop (buf_round_up_loop sz MIN_BUFFER_SIZE)"

function buffer_index_loop :: "addr \<Rightarrow> addr \<Rightarrow> nat \<Rightarrow> nat" where
  "buffer_index_loop sz pw index =
     (if pw < sz \<and> index < NUM_BUFFER_CACHES - 1 then buffer_index_loop sz (push_bit 1 pw) (index + 1)
      else index)"
  by auto
termination by (relation "measure (\<lambda>(_, _, i). NUM_BUFFER_CACHES - i)") auto

definition get_buffer_cache_index :: "addr \<Rightarrow> nat" where
  "get_buffer_cache_index sz = buffer_index_loop sz MIN_BUFFER_SIZE 0"

partial_function (option) slab_size_loop :: "addr \<Rightarrow> int \<Rightarrow> addr \<Rightarrow> int option" where
  "slab_size_loop obj_size blocks slab_bytes =
     (if blocks < 16
      then
        (let objects = OBJECTS_PER_SLAB obj_size slab_bytes in
         if objects \<ge> 8 then Some blocks
         else
           (let blocks = blocks * 2;
                slab_bytes = word_of_int (blocks * 4096)
            in slab_size_loop obj_size blocks slab_bytes))
      else Some blocks)"

definition calculate_slab_size :: "addr \<Rightarrow> int res" where
  "calculate_slab_size obj_size = of_loop (slab_size_loop obj_size 1 (word_of_int (1 * 4096)))"

section \<open>Slab lists\<close>

text \<open>Which of the three lists of a cache a \<^verbatim>\<open>kmem_slab_t **\<close> points to.\<close>

datatype slab_list = SLAB_PARTIAL | SLAB_FULL | SLAB_EMPTY

fun get_head :: "slab_list \<Rightarrow> addr \<Rightarrow> 'z slab_st_scheme \<Rightarrow> addr" where
  "get_head SLAB_PARTIAL c s = slabs_partial (caches s c)"
| "get_head SLAB_FULL c s = slabs_full (caches s c)"
| "get_head SLAB_EMPTY c s = slabs_empty (caches s c)"

fun set_head :: "slab_list \<Rightarrow> addr \<Rightarrow> addr \<Rightarrow> 'z slab_st_scheme \<Rightarrow> 'z slab_st_scheme" where
  "set_head SLAB_PARTIAL c p s = upd_cache c (slabs_partial_update (\<lambda>_. p)) s"
| "set_head SLAB_FULL c p s = upd_cache c (slabs_full_update (\<lambda>_. p)) s"
| "set_head SLAB_EMPTY c p s = upd_cache c (slabs_empty_update (\<lambda>_. p)) s"

definition add_slab_to_list :: "slab_list \<Rightarrow> addr \<Rightarrow> addr \<Rightarrow> 'z slab_st_scheme \<Rightarrow> 'z slab_st_scheme" where
  "add_slab_to_list l c slab s =
     (let s = upd_slab slab (sl_next_update (\<lambda>_. get_head l c s)) s;
          s = upd_slab slab (sl_prev_update (\<lambda>_. 0)) s;
          s = (if get_head l c s \<noteq> 0 then upd_slab (get_head l c s) (sl_prev_update (\<lambda>_. slab)) s else s)
      in set_head l c slab s)"

definition remove_slab_from_list :: "slab_list \<Rightarrow> addr \<Rightarrow> addr \<Rightarrow> 'z slab_st_scheme \<Rightarrow> 'z slab_st_scheme" where
  "remove_slab_from_list l c slab s =
     (let s = (if sl_prev (slabs s slab) \<noteq> 0
               then upd_slab (sl_prev (slabs s slab)) (sl_next_update (\<lambda>_. sl_next (slabs s slab))) s
               else set_head l c (sl_next (slabs s slab)) s);
          s = (if sl_next (slabs s slab) \<noteq> 0
               then upd_slab (sl_next (slabs s slab)) (sl_prev_update (\<lambda>_. sl_prev (slabs s slab))) s
               else s);
          s = upd_slab slab (sl_prev_update (\<lambda>_. 0)) s
      in upd_slab slab (sl_next_update (\<lambda>_. 0)) s)"

section \<open>Slabs\<close>

text \<open>The loop that cuts a run into objects, from the last to the first.\<close>

primrec carve :: "nat \<Rightarrow> addr \<Rightarrow> addr \<Rightarrow> addr \<Rightarrow> 'z slab_st_scheme \<Rightarrow> 'z slab_st_scheme" where
  "carve 0 obj_start c slab s = s"
| "carve (Suc i) obj_start c slab s =
     (let object = obj_start + of_nat i * aligned_size (caches s c);
          s = upd_obj object (ob_next_update (\<lambda>_. sl_free_list (slabs s slab))) s;
          s = upd_slab slab (sl_free_list_update (\<lambda>_. object)) s
      in carve i obj_start c slab s)"

definition kmem_slab_create :: "addr \<Rightarrow> 'z slab_st_scheme \<Rightarrow> (addr \<times> 'z slab_st_scheme) res" where
  "kmem_slab_create c s =
     bindR (buddy_alloc (slab_size (caches s c)) s) (\<lambda>(m, s).
     if m = 0 then Inr (0, s)
     else
       (let slab = m;
            s = upd_slab slab (sl_next_update (\<lambda>_. 0)) s;
            s = upd_slab slab (sl_prev_update (\<lambda>_. 0)) s;
            s = upd_slab slab (sl_mem_update (\<lambda>_. m)) s;
            slab_bytes = word_of_int (slab_size (caches s c) * 4096);
            n = ucast (OBJECTS_PER_SLAB (object_size (caches s c)) slab_bytes);
            s = upd_slab slab (num_objects_max_update (\<lambda>_. n)) s;
            s = upd_slab slab (num_free_update (\<lambda>_. num_objects_max (slabs s slab))) s;
            s = upd_slab slab (sl_cache_update (\<lambda>_. c)) s;
            obj_start = m + sizeof_kmem_slab;
            s = upd_slab slab (sl_free_list_update (\<lambda>_. 0)) s;
            s = carve (nat (sint (num_objects_max (slabs s slab) - 1) + 1)) obj_start c slab s
        in Inr (slab, s)))"

definition kmem_slab_destroy :: "addr \<Rightarrow> addr \<Rightarrow> 'z slab_st_scheme \<Rightarrow> 'z slab_st_scheme res" where
  "kmem_slab_destroy c slab s =
     (if slab = 0 then Inr s
      else
        (let s =
           (if dtor (caches s c) \<noteq> 0
            then
              (let obj_start = sl_mem (slabs s slab) + sizeof_kmem_slab;
                   addr_of = (\<lambda>i. obj_start + of_nat i * aligned_size (caches s c) + sizeof_kmem_object)
               in s\<lparr>dtor_calls := dtor_calls s @
                    map (\<lambda>i. (dtor (caches s c), addr_of i)) [0 ..< unat (num_objects_max (slabs s slab))]\<rparr>)
            else s)
         in buddy_free (sl_mem (slabs s slab)) (slab_size (caches s c)) s))"

definition kmem_cache_grow :: "addr \<Rightarrow> 'z slab_st_scheme \<Rightarrow> (int \<times> 'z slab_st_scheme) res" where
  "kmem_cache_grow c s =
     bindR (kmem_slab_create c s) (\<lambda>(slab, s).
     if slab = 0 then Inr (-1, upd_cache c (error_state_update (\<lambda>_. 1)) s)
     else
       (let s = add_slab_to_list SLAB_EMPTY c slab s;
            s = upd_cache c (num_slabs_update (\<lambda>n. n + 1)) s;
            s = upd_cache c (num_grown_update (\<lambda>n. n + 1)) s
        in Inr (0, s)))"

section \<open>Caches\<close>

definition kmem_init :: "addr \<Rightarrow> int \<Rightarrow> 'z slab_st_scheme \<Rightarrow> 'z slab_st_scheme res" where
  "kmem_init space block_num s =
     bindR (buddy_init space block_num s) (\<lambda>s.
     let s = init_lock L_cache_list s;
         s = init_lock L_buffer_cache s;
         s = s\<lparr>buffer_caches := replicate NUM_BUFFER_CACHES 0\<rparr>
     in Inr (s\<lparr>allocator_initialized := True\<rparr>))"

definition zero_cache :: kmem_cache where
  "zero_cache = \<lparr>ca_name = replicate CACHE_NAME_LEN 0, object_size = 0, aligned_size = 0, slab_size = 0,
     error_detection = 0, ctor = 0, dtor = 0, slabs_partial = 0, slabs_full = 0, slabs_empty = 0,
     num_slabs = 0, num_allocated = 0, num_grown = 0, num_shrunk = 0, last_shrink_state = 0,
     error_state = 0, ca_next = 0\<rparr>"

text \<open>\<^verbatim>\<open>memmove\<close> of at most 31 bytes of the name into the zeroed field, and the terminating NUL.\<close>

definition set_name :: "byte list \<Rightarrow> byte list \<Rightarrow> byte list" where
  "set_name nm old =
     (let name_len = min (length nm) (CACHE_NAME_LEN - 1)
      in (take name_len nm @ drop name_len old)[name_len := 0])"

definition kmem_cache_create ::
  "byte list \<Rightarrow> addr \<Rightarrow> addr \<Rightarrow> addr \<Rightarrow> 'z slab_st_scheme \<Rightarrow> (addr \<times> 'z slab_st_scheme) res"
where
  "kmem_cache_create nm sz ct dt s =
     (if \<not> allocator_initialized s then Inr (0, s)
      else if sz = 0 \<or> sz > MAX_BUFFER_SIZE then Inr (0, s)
      else
        bindR (buddy_alloc 1 s) (\<lambda>(c, s).
        if c = 0 then Inr (0, s)
        else
          bindR (calculate_slab_size sz) (\<lambda>blocks.
          let s = upd_cache c (\<lambda>_. zero_cache) s;
              s = upd_cache c (ca_name_update (set_name nm)) s;
              s = upd_cache c (object_size_update (\<lambda>_. sz)) s;
              s = upd_cache c (aligned_size_update (\<lambda>_. sz + sizeof_kmem_object)) s;
              s = upd_cache c (slab_size_update (\<lambda>_. blocks)) s;
              s = upd_cache c (error_detection_update (\<lambda>_. SLAB_ERR_DETECT)) s;
              s = upd_cache c (ctor_update (\<lambda>_. ct)) s;
              s = upd_cache c (dtor_update (\<lambda>_. dt)) s;
              s = upd_cache c (error_state_update (\<lambda>_. 0)) s;
              s = upd_cache c (last_shrink_state_update (\<lambda>_. 0)) s;
              s = init_lock (L_cache c) s
          in bindR (acquire L_cache_list s) (\<lambda>s.
             let s = upd_cache c (ca_next_update (\<lambda>_. cache_list s)) s;
                 s = s\<lparr>cache_list := c\<rparr>
             in bindR (release L_cache_list s) (\<lambda>s.
                bindR (acquire (L_cache c) s) (\<lambda>s.
                bindR (kmem_cache_grow c s) (\<lambda>(_, s).
                bindR (release (L_cache c) s) (\<lambda>s. Inr (c, s)))))))))"

definition valid_cache :: "addr \<Rightarrow> 'z slab_st_scheme \<Rightarrow> bool" where
  "valid_cache c s \<longleftrightarrow> c \<noteq> 0 \<and> error_detection (caches s c) = SLAB_ERR_DETECT"


text \<open>
  The slab \<^verbatim>\<open>kmem_cache_alloc\<close> takes an object from: a partial one, an empty one, or a new one. The
  result \<open>None\<close> is the early return after a failed \<^verbatim>\<open>kmem_cache_grow\<close>.
\<close>

definition pick_slab :: "addr \<Rightarrow> 'z slab_st_scheme \<Rightarrow> (addr option \<times> 'z slab_st_scheme) res" where
  "pick_slab c s =
     (if slabs_partial (caches s c) \<noteq> 0 then Inr (Some (slabs_partial (caches s c)), s)
      else if slabs_empty (caches s c) \<noteq> 0 then Inr (Some (slabs_empty (caches s c)), s)
      else
        bindR (kmem_cache_grow c s) (\<lambda>(r, s).
        if r < 0 then Inr (None, s) else Inr (Some (slabs_empty (caches s c)), s)))"

definition kmem_cache_alloc :: "addr \<Rightarrow> 'z slab_st_scheme \<Rightarrow> (addr \<times> 'z slab_st_scheme) res" where
  "kmem_cache_alloc c s =
     (if \<not> valid_cache c s then Inr (0, s)
      else
        bindR (acquire (L_cache c) s) (\<lambda>s.
        bindR (pick_slab c s) (\<lambda>(pick, s).
        case pick of
          None \<Rightarrow> bindR (release (L_cache c) s) (\<lambda>s. Inr (0, s))
        | Some slab \<Rightarrow>
            if slab = 0 \<or> sl_free_list (slabs s slab) = 0
            then
              (let s = upd_cache c (error_state_update (\<lambda>_. 1)) s
               in bindR (release (L_cache c) s) (\<lambda>s. Inr (0, s)))
            else
              (let object = sl_free_list (slabs s slab);
                   s = upd_slab slab (sl_free_list_update (\<lambda>_. ob_next (objs s object))) s;
                   s = upd_obj object (ob_slab_update (\<lambda>_. slab)) s;
                   s = upd_slab slab (num_free_update (\<lambda>n. n - 1)) s;
                   s = upd_cache c (num_allocated_update (\<lambda>n. n + 1)) s;
                   s = (if num_free (slabs s slab) = num_objects_max (slabs s slab) - 1
                        then add_slab_to_list SLAB_PARTIAL c slab (remove_slab_from_list SLAB_EMPTY c slab s)
                        else s);
                   s = (if num_free (slabs s slab) = 0
                        then add_slab_to_list SLAB_FULL c slab (remove_slab_from_list SLAB_PARTIAL c slab s)
                        else s)
               in bindR (release (L_cache c) s) (\<lambda>s. Inr (object + sizeof_kmem_object, s))))))"

definition kmem_cache_free :: "addr \<Rightarrow> addr \<Rightarrow> 'z slab_st_scheme \<Rightarrow> 'z slab_st_scheme res" where
  "kmem_cache_free c objp s =
     (if objp = 0 \<or> \<not> valid_cache c s then Inr s
      else
        (let object = objp - sizeof_kmem_object in
         bindR (acquire (L_cache c) s) (\<lambda>s.
         let slab = ob_slab (objs s object) in
         if slab = 0
         then release (L_cache c) (upd_cache c (error_state_update (\<lambda>_. 1)) s)
         else
           (let s = upd_obj object (ob_next_update (\<lambda>_. sl_free_list (slabs s slab))) s;
                s = upd_slab slab (sl_free_list_update (\<lambda>_. object)) s;
                s = upd_slab slab (num_free_update (\<lambda>n. n + 1)) s;
                s = upd_cache c (num_allocated_update (\<lambda>n. n - 1)) s;
                s = (if num_free (slabs s slab) = 1
                     then add_slab_to_list SLAB_PARTIAL c slab (remove_slab_from_list SLAB_FULL c slab s)
                     else s);
                s = (if num_free (slabs s slab) = num_objects_max (slabs s slab)
                     then add_slab_to_list SLAB_EMPTY c slab (remove_slab_from_list SLAB_PARTIAL c slab s)
                     else s)
            in release (L_cache c) s))))"

partial_function (option) shrink_loop ::
  "addr \<Rightarrow> addr \<Rightarrow> int \<Rightarrow> 'z slab_st_scheme \<Rightarrow> (int \<times> 'z slab_st_scheme) res option"
where
  "shrink_loop c slab blocks_freed s =
     (if slab \<noteq> 0
      then
        (let nx = sl_next (slabs s slab);
             blocks_freed = blocks_freed + slab_size (caches s c);
             s = remove_slab_from_list SLAB_EMPTY c slab s
         in case kmem_slab_destroy c slab s of
              Inl e \<Rightarrow> Some (Inl e)
            | Inr s \<Rightarrow> shrink_loop c nx blocks_freed (upd_cache c (num_slabs_update (\<lambda>n. n - 1)) s))
      else Some (Inr (blocks_freed, s)))"

definition kmem_cache_shrink :: "addr \<Rightarrow> 'z slab_st_scheme \<Rightarrow> (int \<times> 'z slab_st_scheme) res" where
  "kmem_cache_shrink c s =
     (if \<not> valid_cache c s then Inr (-1, s)
      else
        bindR (acquire (L_cache c) s) (\<lambda>s.
        if num_grown (caches s c) > word_of_int (last_shrink_state (caches s c))
        then
          (let s = upd_cache c (\<lambda>k. k\<lparr>last_shrink_state := sint (num_grown k)\<rparr>) s
           in bindR (release (L_cache c) s) (\<lambda>s. Inr (0, s)))
        else
          bindR (bindR (of_loop (shrink_loop c (slabs_empty (caches s c)) 0 s)) id) (\<lambda>(blocks_freed, s).
          let s = (if blocks_freed > 0 then upd_cache c (num_shrunk_update (\<lambda>n. n + 1)) s else s)
          in bindR (release (L_cache c) s) (\<lambda>s. Inr (blocks_freed, s)))))"

text \<open>\<^verbatim>\<open>while (cachep->slabs_l) ...\<close>, once for each of the three lists.\<close>

partial_function (option) destroy_loop ::
  "slab_list \<Rightarrow> addr \<Rightarrow> 'z slab_st_scheme \<Rightarrow> 'z slab_st_scheme res option"
where
  "destroy_loop l c s =
     (if get_head l c s \<noteq> 0
      then
        (let slab = get_head l c s;
             s = remove_slab_from_list l c slab s
         in case kmem_slab_destroy c slab s of
              Inl e \<Rightarrow> Some (Inl e)
            | Inr s \<Rightarrow> destroy_loop l c s)
      else Some (Inr s))"

text \<open>
  The walk over \<^verbatim>\<open>cache_list\<close> with a pointer to the pointer: \<open>prev = 0\<close> stands for
  \<^verbatim>\<open>&cache_list\<close>.
\<close>

partial_function (option) cache_unlink ::
  "addr \<Rightarrow> addr \<Rightarrow> addr \<Rightarrow> 'z slab_st_scheme \<Rightarrow> 'z slab_st_scheme option"
where
  "cache_unlink c prev cur s =
     (if cur = 0 then Some s
      else if cur = c
      then Some (if prev = 0 then s\<lparr>cache_list := ca_next (caches s c)\<rparr>
                 else upd_cache prev (ca_next_update (\<lambda>_. ca_next (caches s c))) s)
      else cache_unlink c cur (ca_next (caches s cur)) s)"

definition kmem_cache_destroy :: "addr \<Rightarrow> 'z slab_st_scheme \<Rightarrow> 'z slab_st_scheme res" where
  "kmem_cache_destroy c s =
     (if \<not> valid_cache c s then Inr s
      else
        bindR (acquire (L_cache c) s) (\<lambda>s.
        bindR (bindR (of_loop (destroy_loop SLAB_EMPTY c s)) id) (\<lambda>s.
        bindR (bindR (of_loop (destroy_loop SLAB_PARTIAL c s)) id) (\<lambda>s.
        bindR (bindR (of_loop (destroy_loop SLAB_FULL c s)) id) (\<lambda>s.
        bindR (acquire L_cache_list s) (\<lambda>s.
        bindR (of_loop (cache_unlink c 0 (cache_list s) s)) (\<lambda>s.
        bindR (release L_cache_list s) (\<lambda>s.
        let s = upd_cache c (error_detection_update (\<lambda>_. 0)) s in
        bindR (release (L_cache c) s) (\<lambda>s.
        buddy_free c 1 s)))))))))"

section \<open>Buffers\<close>

text \<open>The \<^verbatim>\<open>do\<close> loop that writes the decimal digits of the size, least significant first.\<close>

function size_digits :: "addr \<Rightarrow> byte list" where
  "size_digits temp =
     (48 + ucast (temp mod 10)) # (if temp div 10 > 0 then size_digits (temp div 10) else [])"
  by auto
termination
  by (relation "measure unat") (auto simp: word_less_nat_alt unat_div)

definition buffer_name :: "addr \<Rightarrow> byte list" where
  "buffer_name rounded = [115, 105, 122, 101, 45] @ rev (size_digits rounded)"

definition kmalloc :: "addr \<Rightarrow> 'z slab_st_scheme \<Rightarrow> (addr \<times> 'z slab_st_scheme) res" where
  "kmalloc sz s =
     (if \<not> allocator_initialized s \<or> sz = 0 \<or> sz > MAX_BUFFER_SIZE then Inr (0, s)
      else
        bindR (buf_round_up_pow2 sz) (\<lambda>rounded.
        let index = get_buffer_cache_index rounded in
        bindR (acquire L_buffer_cache s) (\<lambda>s.
        bindR
          (if buffer_caches s ! index = 0
           then
             bindR (release L_buffer_cache s) (\<lambda>s.
             bindR (kmem_cache_create (buffer_name rounded) rounded 0 0 s) (\<lambda>(cache, s).
             bindR (acquire L_buffer_cache s) (\<lambda>s.
             Inr (s\<lparr>buffer_caches := (buffer_caches s)[index := cache]\<rparr>))))
           else Inr s)
          (\<lambda>s.
            let cache = buffer_caches s ! index in
            bindR (release L_buffer_cache s) (\<lambda>s.
            if cache = 0 then Inr (0, s) else kmem_cache_alloc cache s)))))"

definition kfree :: "addr \<Rightarrow> 'z slab_st_scheme \<Rightarrow> 'z slab_st_scheme res" where
  "kfree objp s =
     (if objp = 0 then Inr s
      else
        bindR (acquire L_buffer_cache s) (\<lambda>s.
        let object = objp - sizeof_kmem_object;
            slab = ob_slab (objs s object)
        in if slab = 0 then Inl (Fault ''null'')
           else
             (let cache = sl_cache (slabs s slab) in
              bindR (kmem_cache_free cache objp s) (\<lambda>s. release L_buffer_cache s))))"

text \<open>
  The numbers \<^verbatim>\<open>kmem_cache_info\<close> prints: object size, cache size in blocks, number of slabs, objects
  per slab, utilisation, allocated and total objects. \<open>None\<close>: "Invalid cache".
\<close>

definition kmem_cache_info :: "addr \<Rightarrow> 'z slab_st_scheme \<Rightarrow> ((byte list \<times> int list) option \<times> 'z slab_st_scheme) res" where
  "kmem_cache_info c s =
     (if \<not> valid_cache c s then Inr (None, s)
      else
        bindR (acquire (L_cache c) s) (\<lambda>s.
        let k = caches s c;
            objects_per_slab = ucast (OBJECTS_PER_SLAB (object_size k) (word_of_int (slab_size k * 4096))) :: uint32;
            total_objects = num_slabs k * objects_per_slab;
            percent_used = (if total_objects > 0 then (num_allocated k * 100) div total_objects else 0);
            blocks = sint (num_slabs k * word_of_int (slab_size k))
        in bindR (release (L_cache c) s) (\<lambda>s.
           Inr (Some (ca_name k, [sint (ucast (object_size k) :: uint32), blocks, sint (num_slabs k),
             sint objects_per_slab, sint percent_used, sint (num_allocated k), sint total_objects]), s))))"

definition kmem_cache_error :: "addr \<Rightarrow> 'z slab_st_scheme \<Rightarrow> (int \<times> 'z slab_st_scheme) res" where
  "kmem_cache_error c s =
     (if \<not> valid_cache c s then Inr (1, s)
      else
        bindR (acquire (L_cache c) s) (\<lambda>s.
        let error = error_state (caches s c) in
        bindR (release (L_cache c) s) (\<lambda>s. Inr (error, s))))"

declare buffer_index_loop.simps [simp del] size_digits.simps [simp del]


section \<open>Sizes are right\<close>

definition slab_sizes :: "int set" where "slab_sizes = {1, 2, 4, 8, 16}"

lemma slab_size_loop_steps:
  "slab_size_loop z 16 w = Some 16"
  "\<exists>b \<in> {8, 16}. slab_size_loop z 8 w = Some b"
  "\<exists>b \<in> {4, 8, 16}. slab_size_loop z 4 w = Some b"
  "\<exists>b \<in> {2, 4, 8, 16}. slab_size_loop z 2 w = Some b"
  "\<exists>b \<in> slab_sizes. slab_size_loop z 1 w = Some b"
proof -
  show 1: "slab_size_loop z 16 w = Some 16" for w by (subst slab_size_loop.simps) simp
  show 2: "\<exists>b \<in> {8, 16}. slab_size_loop z 8 w = Some b" for w
    by (subst slab_size_loop.simps) (simp add: Let_def 1)
  show 3: "\<exists>b \<in> {4, 8, 16}. slab_size_loop z 4 w = Some b" for w
    using 2 [of 32768] by (subst slab_size_loop.simps) (auto simp: Let_def)
  show 4: "\<exists>b \<in> {2, 4, 8, 16}. slab_size_loop z 2 w = Some b" for w
    using 3 [of 16384] by (subst slab_size_loop.simps) (auto simp: Let_def)
  show "\<exists>b \<in> slab_sizes. slab_size_loop z 1 w = Some b"
    using 4 [of 8192] by (subst slab_size_loop.simps) (auto simp: Let_def slab_sizes_def)
qed

lemma calculate_slab_size_ok: "\<exists>b \<in> slab_sizes. calculate_slab_size z = Inr b"
proof -
  obtain b where "b \<in> slab_sizes" "slab_size_loop z 1 4096 = Some b"
    using slab_size_loop_steps(5) by blast
  then show ?thesis by (intro bexI [of _ b]) (simp_all add: calculate_slab_size_def)
qed

lemma slab_sizesE:
  assumes "b \<in> slab_sizes"
  obtains k where "k \<le> 4" and "b = 2 ^ k"
proof -
  have "b = 2 ^ 0 \<or> b = 2 ^ 1 \<or> b = 2 ^ 2 \<or> b = 2 ^ 3 \<or> b = 2 ^ 4"
    using assms by (simp add: slab_sizes_def)
  moreover have "(0::nat) \<le> 4" "(1::nat) \<le> 4" "(2::nat) \<le> 4" "(3::nat) \<le> 4" "(4::nat) \<le> 4" by simp_all
  ultimately show thesis using that by blast
qed

lemma slab_sizes_order:
  assumes "b \<in> slab_sizes"
  shows "1 \<le> b" "b \<le> 16" "int (2 ^ order_of b) = b" "order_of b \<le> 4"
proof -
  from assms obtain k where k: "k \<le> 4" "b = 2 ^ k" by (rule slab_sizesE)
  then have o: "order_of b = k" using order_of_pow2 [of k] by simp
  show "1 \<le> b" "b \<le> 16" using assms by (auto simp: slab_sizes_def)
  show "int (2 ^ order_of b) = b" "order_of b \<le> 4" using k o by simp_all
qed

text \<open>The number of objects of a slab, and the place of each.\<close>

definition slab_objs :: "addr \<Rightarrow> int \<Rightarrow> nat" where
  "slab_objs z b = (nat b * 4096 - 48) div (unat z + 16)"

definition slot :: "addr \<Rightarrow> addr \<Rightarrow> nat \<Rightarrow> addr" where
  "slot x z i = x + 48 + of_nat i * (z + 16)"

definition size_ok :: "addr \<Rightarrow> bool" where
  "size_ok z \<longleftrightarrow> 0 < z \<and> z \<le> MAX_BUFFER_SIZE"

lemma size_ok_unat: "size_ok z \<Longrightarrow> 0 < unat z \<and> unat z \<le> 131072"
  by (auto simp: size_ok_def MAX_BUFFER_SIZE_def word_le_nat_alt word_less_nat_alt)

lemma slab_objs_fit: "b \<in> slab_sizes \<Longrightarrow> 48 + slab_objs z b * (unat z + 16) \<le> nat b * 4096"
proof -
  assume b: "b \<in> slab_sizes"
  have "slab_objs z b * (unat z + 16) \<le> nat b * 4096 - 48"
    unfolding slab_objs_def by (rule div_times_less_eq_dividend)
  moreover have "48 \<le> nat b * 4096" using slab_sizes_order(1) [OF b] by simp
  ultimately show ?thesis by linarith
qed

lemma slab_objs_le:
  assumes "b \<in> slab_sizes"
  shows "slab_objs z b \<le> 4096"
proof -
  have "slab_objs z b \<le> (nat b * 4096 - 48) div 16" unfolding slab_objs_def by (rule div_le_mono2) simp_all
  also have "\<dots> \<le> 65536 div 16" using slab_sizes_order(2) [OF assms] by (intro div_le_mono) simp
  finally show ?thesis by simp
qed

lemma OBJECTS_PER_SLAB_eq:
  assumes "b \<in> slab_sizes" and "size_ok z"
  shows "unat (OBJECTS_PER_SLAB z (word_of_int (b * 4096))) = slab_objs z b"
    and "unat (ucast (OBJECTS_PER_SLAB z (word_of_int (b * 4096))) :: uint32) = slab_objs z b"
proof -
  have "(word_of_int (b * 4096) :: addr) - 48 = of_nat (nat b * 4096 - 48)"
    using assms(1) by (auto simp: slab_sizes_def)
  moreover have "unat (of_nat (nat b * 4096 - 48) :: addr) = nat b * 4096 - 48"
    using slab_sizes_order(2) [OF assms(1)] by (intro unat_of_nat_lt) simp
  moreover have "unat (z + 16) = unat z + 16"
    using size_ok_unat [OF assms(2)] by (simp add: unat_plus_if')
  ultimately show *: "unat (OBJECTS_PER_SLAB z (word_of_int (b * 4096))) = slab_objs z b"
    by (simp add: OBJECTS_PER_SLAB_def sizeof_kmem_slab_def sizeof_kmem_object_def slab_objs_def unat_div)
  then have "unat (OBJECTS_PER_SLAB z (word_of_int (b * 4096))) < 2 ^ 32"
    using slab_objs_le [OF assms(1), of z] by simp
  then show "unat (ucast (OBJECTS_PER_SLAB z (word_of_int (b * 4096))) :: uint32) = slab_objs z b"
    using * by (simp add: unsigned_ucast_eq take_bit_nat_eq_self)
qed

text \<open>The place of a slot inside its run.\<close>

lemma slot_offset:
  assumes "b \<in> slab_sizes" and "size_ok z" and "i < slab_objs z b"
  shows "unat (slot x z i - x) = 48 + i * (unat z + 16)"
    and "48 + i * (unat z + 16) + 16 + unat z \<le> nat b * 4096"
proof -
  have "Suc i * (unat z + 16) \<le> slab_objs z b * (unat z + 16)" using assms(3) by (intro mult_le_mono1) simp
  then show le: "48 + i * (unat z + 16) + 16 + unat z \<le> nat b * 4096"
    using slab_objs_fit [OF assms(1), of z] by simp
  moreover have "nat b * 4096 \<le> 65536" using slab_sizes_order(2) [OF assms(1)] by simp
  ultimately have "48 + i * (unat z + 16) < 2 ^ 64" by simp
  moreover have "slot x z i - x = of_nat (48 + i * (unat z + 16))"
    by (simp add: slot_def of_nat_unat ucast_id algebra_simps)
  ultimately show "unat (slot x z i - x) = 48 + i * (unat z + 16)" by (simp only: unat_of_nat_lt)
qed

lemma slot_inj:
  assumes "b \<in> slab_sizes" and "size_ok z" and "i < slab_objs z b" and "j < slab_objs z b"
  shows "slot x z i = slot x z j \<longleftrightarrow> i = j"
proof
  assume "slot x z i = slot x z j"
  then have "i * (unat z + 16) = j * (unat z + 16)"
    using slot_offset(1) [OF assms(1-3), of x] slot_offset(1) [OF assms(1,2,4), of x]
    by (metis add_left_cancel)
  then show "i = j" by (subst (asm) mult_cancel2) simp
qed simp


section \<open>Doubly linked lists\<close>

primrec dll :: "(addr \<Rightarrow> kmem_slab) \<Rightarrow> addr \<Rightarrow> addr \<Rightarrow> addr list \<Rightarrow> bool" where
  "dll S pv p [] \<longleftrightarrow> p = 0"
| "dll S pv p (x # xs) \<longleftrightarrow> p = x \<and> x \<noteq> 0 \<and> sl_prev (S x) = pv \<and> dll S x (sl_next (S x)) xs"

definition slab_core :: "kmem_slab \<Rightarrow> kmem_slab" where
  "slab_core k = k\<lparr>sl_next := 0, sl_prev := 0\<rparr>"

definition cache_core :: "kmem_cache \<Rightarrow> kmem_cache" where
  "cache_core k = k\<lparr>slabs_partial := 0, slabs_full := 0, slabs_empty := 0\<rparr>"

fun head_of :: "slab_list \<Rightarrow> kmem_cache \<Rightarrow> addr" where
  "head_of SLAB_PARTIAL k = slabs_partial k"
| "head_of SLAB_FULL k = slabs_full k"
| "head_of SLAB_EMPTY k = slabs_empty k"

fun head_upd :: "slab_list \<Rightarrow> addr \<Rightarrow> kmem_cache \<Rightarrow> kmem_cache" where
  "head_upd SLAB_PARTIAL p k = k\<lparr>slabs_partial := p\<rparr>"
| "head_upd SLAB_FULL p k = k\<lparr>slabs_full := p\<rparr>"
| "head_upd SLAB_EMPTY p k = k\<lparr>slabs_empty := p\<rparr>"

lemma get_head_eq: "get_head l c s = head_of l (caches s c)"
  by (cases l) simp_all

lemma set_head_eq: "set_head l c p s = upd_cache c (head_upd l p) s"
  by (cases l) (simp_all add: upd_cache_def)

lemma head_upd_same [simp]: "head_of l (head_upd l p k) = p"
  by (cases l) simp_all

lemma head_upd_other [simp]: "l' \<noteq> l \<Longrightarrow> head_of l' (head_upd l p k) = head_of l' k"
  by (cases l; cases l') simp_all

lemma head_upd_core [simp]: "cache_core (head_upd l p k) = cache_core k"
  by (cases l) (simp_all add: cache_core_def)

lemma slab_core_simps [simp]:
  "slab_core (k\<lparr>sl_next := p\<rparr>) = slab_core k" "slab_core (k\<lparr>sl_prev := p\<rparr>) = slab_core k"
  by (simp_all add: slab_core_def)

lemma dll_cong:
  "(\<And>x. x \<in> set xs \<Longrightarrow> sl_next (S x) = sl_next (S' x) \<and> sl_prev (S x) = sl_prev (S' x)) \<Longrightarrow>
   dll S pv p xs = dll S' pv p xs"
  by (induction xs arbitrary: pv p) auto

lemma dll_chain: "dll S pv p xs \<Longrightarrow> chain (\<lambda>x. sl_next (S x)) p xs"
  by (induction xs arbitrary: pv p) auto

lemma dll_distinct: "dll S pv p xs \<Longrightarrow> distinct xs"
  using dll_chain chain_distinct by blast

lemma dll_nz: "dll S pv p xs \<Longrightarrow> x \<in> set xs \<Longrightarrow> x \<noteq> 0"
  using dll_chain chain_not_null by blast

lemma dll_head: "dll S pv p xs \<Longrightarrow> p = (case xs of [] \<Rightarrow> 0 | x # _ \<Rightarrow> x)"
  by (cases xs) auto

text \<open>The rest of a list keeps its shape when only the back pointer of its first node changes.\<close>

lemma dll_reprev:
  assumes "dll S pv p xs" and "\<And>x. x \<in> set xs \<Longrightarrow> sl_next (S' x) = sl_next (S x)"
    and "\<And>x. x \<in> set (tl xs) \<Longrightarrow> sl_prev (S' x) = sl_prev (S x)"
    and "p \<noteq> 0 \<Longrightarrow> sl_prev (S' p) = pv'"
  shows "dll S' pv' p xs"
proof (cases xs)
  case Nil
  then show ?thesis using assms(1) by simp
next
  case (Cons y ys)
  have "dll S' y (sl_next (S y)) ys = dll S y (sl_next (S y)) ys"
    by (rule dll_cong) (use assms(2,3) Cons in auto)
  then show ?thesis using assms Cons by auto
qed

lemma dll_push:
  assumes "dll S 0 p xs" and "x \<noteq> 0" and "x \<notin> set xs"
    and "S' x = (S x)\<lparr>sl_next := p, sl_prev := 0\<rparr>"
    and "p \<noteq> 0 \<Longrightarrow> S' p = (S p)\<lparr>sl_prev := x\<rparr>"
    and "\<And>y. y \<noteq> x \<Longrightarrow> y \<noteq> p \<Longrightarrow> S' y = S y"
  shows "dll S' 0 x (x # xs)"
proof (cases xs)
  case Nil
  then show ?thesis using assms by simp
next
  case (Cons y ys)
  then have p: "p = y" "y \<noteq> 0" "y \<noteq> x" "dll S y (sl_next (S y)) ys" using assms by auto
  have n: "w \<noteq> x \<and> w \<noteq> y" if "w \<in> set ys" for w
    using dll_distinct [OF assms(1)] assms(3) Cons that by auto
  have "dll S' x p (y # ys)"
    by (rule dll_reprev [of S 0]) (use assms Cons p n in auto)
  then show ?thesis using p Cons assms(2,4) by simp
qed

lemma add_slab_ok:
  assumes d: "dll (slabs s) 0 (head_of l (caches s c)) xs" and x: "x \<noteq> 0" "x \<notin> set xs"
  shows "\<exists>S C. add_slab_to_list l c x s = s\<lparr>slabs := S, caches := (caches s)(c := C)\<rparr> \<and>
    (\<forall>y. y \<notin> set (x # xs) \<longrightarrow> S y = slabs s y) \<and> (\<forall>y. slab_core (S y) = slab_core (slabs s y)) \<and>
    cache_core C = cache_core (caches s c) \<and> dll S 0 (head_of l C) (x # xs) \<and>
    (\<forall>l'. l' \<noteq> l \<longrightarrow> head_of l' C = head_of l' (caches s c))"
proof -
  let ?p = "head_of l (caches s c)"
  define S1 where "S1 = (slabs s)(x := (slabs s x)\<lparr>sl_next := ?p, sl_prev := 0\<rparr>)"
  define S where "S = (if ?p \<noteq> 0 then S1(?p := (S1 ?p)\<lparr>sl_prev := x\<rparr>) else S1)"
  have px: "?p \<noteq> x" "?p \<noteq> 0 \<Longrightarrow> ?p \<in> set xs" using dll_head [OF d] x by (cases xs; auto)+
  have "add_slab_to_list l c x s = s\<lparr>slabs := S, caches := (caches s)(c := head_upd l x (caches s c))\<rparr>"
    by (simp add: add_slab_to_list_def Let_def get_head_eq set_head_eq upd_slab_def upd_cache_def S_def S1_def)
  moreover have "dll S 0 x (x # xs)"
    by (rule dll_push [OF d x]) (use px in \<open>auto simp: S_def S1_def\<close>)
  moreover have "\<forall>y. y \<notin> set (x # xs) \<longrightarrow> S y = slabs s y" using px by (auto simp: S_def S1_def)
  moreover have "\<forall>y. slab_core (S y) = slab_core (slabs s y)" by (auto simp: S_def S1_def)
  ultimately show ?thesis by (intro exI [of _ S] exI [of _ "head_upd l x (caches s c)"]) simp
qed

end
