(* ===== verification/Proc_Data.thy ===== *)
theory Proc_Data
  imports Slab
begin

text \<open>
  The data of \<^verbatim>\<open>kernel/proc.h\<close> and \<^verbatim>\<open>kernel/param.h\<close>: the process table and the current process. The
  trapframe of a process is a page of the byte memory; the offsets of its fields are those of
  \<^verbatim>\<open>struct trapframe\<close>. A \<^verbatim>\<open>struct proc *\<close> is the index of the process in the table.
\<close>

definition NPROC :: nat where "NPROC = 64"

definition NOFILE :: nat where "NOFILE = 16"

definition MAXOPBLOCKS :: nat where "MAXOPBLOCKS = 10"

definition LOGBLOCKS :: nat where "LOGBLOCKS = MAXOPBLOCKS * 3"

definition NBUF :: nat where "NBUF = MAXOPBLOCKS * 3"

definition ROOTDEV :: uint32 where "ROOTDEV = 1"

definition MAXVA :: addr where "MAXVA = push_bit (9 + 9 + 9 + 12 - 1) 1"

definition TRAMPOLINE :: addr where "TRAMPOLINE = MAXVA - PGSIZE"

definition TRAPFRAME :: addr where "TRAPFRAME = TRAMPOLINE - PGSIZE"

definition KSTACK :: "nat \<Rightarrow> addr" where
  "KSTACK p = TRAMPOLINE - (of_nat p + 1) * 2 * PGSIZE"

datatype procstate = UNUSED | USED | SLEEPING | RUNNABLE | RUNNING | ZOMBIE

text \<open>The fields of \<^verbatim>\<open>struct context\<close> the C code sets; the others are saved and restored by \<^verbatim>\<open>swtch\<close>.\<close>

record context_regs =
  ctx_ra :: addr
  ctx_sp :: addr

record proc =
  state :: procstate
  chan :: addr
  killed_flag :: int
  xstate :: int
  pid :: int
  parent :: "nat option"
  kstack :: addr
  p_sz :: addr
  pagetable :: addr
  trapframe :: addr
  p_context :: context_regs
  ofile :: "addr list"
  cwd :: addr
  p_name :: "byte list"

record proc_st = slab_st +
  proc_base :: addr
  procs :: "nat \<Rightarrow> proc"
  curproc :: "nat option"
  initproc :: "nat option"
  nextpid :: int

definition upd_proc :: "nat \<Rightarrow> (proc \<Rightarrow> proc) \<Rightarrow> 'z proc_st_scheme \<Rightarrow> 'z proc_st_scheme" where
  "upd_proc p f s = s\<lparr>procs := (procs s)(p := f (procs s p))\<rparr>"

definition sizeof_proc :: addr where "sizeof_proc = 360"

definition proc_addr :: "nat \<Rightarrow> 'z proc_st_scheme \<Rightarrow> addr" where
  "proc_addr p s = proc_base s + of_nat p * sizeof_proc"

text \<open>\<^verbatim>\<open>myproc()\<close>, dereferenced.\<close>

definition myproc :: "'z proc_st_scheme \<Rightarrow> nat res" where
  "myproc s = (case curproc s of None \<Rightarrow> Inl (Fault ''myproc'') | Some p \<Rightarrow> Inr p)"

lemma myproc_Some [simp]: "curproc s = Some p \<Longrightarrow> myproc s = Inr p"
  by (simp add: myproc_def)

lemma upd_proc_simps [simp]:
  "procs (upd_proc p f s) q = (if q = p then f (procs s p) else procs s q)"
  "held (upd_proc p f s) = held s" "mem (upd_proc p f s) = mem s"
  "freelist (upd_proc p f s) = freelist s" "curproc (upd_proc p f s) = curproc s"
  by (simp_all add: upd_proc_def)

end
