(* ===== verification/Vm.thy ===== *)
theory Vm
  imports Proc_Data
begin

text \<open>
  \<^verbatim>\<open>kernel/vm.c\<close>: Sv39 page tables in the byte memory, over the page allocator. A page-table entry is a
  64-bit word in memory, and \<^verbatim>\<open>walk\<close> returns its address. A buffer of the kernel that \<^verbatim>\<open>copyout\<close> reads
  or \<^verbatim>\<open>copyin\<close> writes (a variable or a field of a structure) is a list of bytes; \<^verbatim>\<open>copyin\<close> also returns
  what it copied before a failure. The linker symbol \<^verbatim>\<open>end\<close> is the parameter \<open>kend\<close>.
\<close>

section \<open>Definitions\<close>

text \<open>\<^verbatim>\<open>kernel/riscv.h\<close>\<close>

definition PTE_V :: addr where "PTE_V = push_bit 0 1"
definition PTE_R :: addr where "PTE_R = push_bit 1 1"
definition PTE_W :: addr where "PTE_W = push_bit 2 1"
definition PTE_X :: addr where "PTE_X = push_bit 3 1"
definition PTE_U :: addr where "PTE_U = push_bit 4 1"

definition PA2PTE :: "addr \<Rightarrow> addr" where "PA2PTE pa = push_bit 10 (drop_bit 12 pa)"

definition PTE2PA :: "addr \<Rightarrow> addr" where "PTE2PA pte = push_bit 12 (drop_bit 10 pte)"

definition PTE_FLAGS :: "addr \<Rightarrow> addr" where "PTE_FLAGS pte = pte AND 0x3FF"

definition PX :: "nat \<Rightarrow> addr \<Rightarrow> addr" where "PX level va = drop_bit (12 + 9 * level) va AND 0x1FF"

definition pte_addr :: "addr \<Rightarrow> nat \<Rightarrow> addr \<Rightarrow> addr" where
  "pte_addr pt level va = pt + 8 * PX level va"

definition pte_is :: "addr \<Rightarrow> addr \<Rightarrow> bool" where
  "pte_is pte flag \<longleftrightarrow> pte AND flag \<noteq> 0"

text \<open>The loop of \<^verbatim>\<open>walk\<close> from a level down to 0.\<close>

primrec walk_loop ::
  "nat \<Rightarrow> addr \<Rightarrow> addr \<Rightarrow> bool \<Rightarrow> 'z phys_st_scheme \<Rightarrow> (addr \<times> 'z phys_st_scheme) res"
where
  "walk_loop 0 pt va alloc s = Inr (pte_addr pt 0 va, s)"
| "walk_loop (Suc level) pt va alloc s =
     (let pte = pte_addr pt (Suc level) va in
      if pte_is (load64 (mem s) pte) PTE_V then walk_loop level (PTE2PA (load64 (mem s) pte)) va alloc s
      else if \<not> alloc then Inr (0, s)
      else
        bindR (kalloc s) (\<lambda>(pt, s).
        if pt = 0 then Inr (0, s)
        else
          (let s = s\<lparr>mem := memset (mem s) pt 0 (ucast PGSIZE)\<rparr>;
               s = s\<lparr>mem := store64 (mem s) pte (PA2PTE pt OR PTE_V)\<rparr>
           in walk_loop level pt va alloc s)))"

definition walk :: "addr \<Rightarrow> addr \<Rightarrow> bool \<Rightarrow> 'z phys_st_scheme \<Rightarrow> (addr \<times> 'z phys_st_scheme) res" where
  "walk pt va alloc s = (if va \<ge> MAXVA then Inl (Panic ''walk'') else walk_loop 2 pt va alloc s)"

definition walkaddr :: "addr \<Rightarrow> addr \<Rightarrow> 'z phys_st_scheme \<Rightarrow> addr res" where
  "walkaddr pt va s =
     (if va \<ge> MAXVA then Inr 0
      else
        bindR (walk pt va False s) (\<lambda>(pte, s).
        if pte = 0 then Inr 0
        else if \<not> pte_is (load64 (mem s) pte) PTE_V then Inr 0
        else if \<not> pte_is (load64 (mem s) pte) PTE_U then Inr 0
        else Inr (PTE2PA (load64 (mem s) pte))))"

partial_function (option) mappages_loop ::
  "addr \<Rightarrow> addr \<Rightarrow> addr \<Rightarrow> addr \<Rightarrow> addr \<Rightarrow> 'z phys_st_scheme \<Rightarrow> (int \<times> 'z phys_st_scheme) res option"
where
  "mappages_loop pt a lst pa perm s =
     (case walk pt a True s of
        Inl e \<Rightarrow> Some (Inl e)
      | Inr (pte, s) \<Rightarrow>
          if pte = 0 then Some (Inr (-1, s))
          else if pte_is (load64 (mem s) pte) PTE_V then Some (Inl (Panic ''mappages: remap''))
          else
            (let s = s\<lparr>mem := store64 (mem s) pte (PA2PTE pa OR perm OR PTE_V)\<rparr>
             in if a = lst then Some (Inr (0, s))
                else mappages_loop pt (a + PGSIZE) lst (pa + PGSIZE) perm s))"

definition mappages ::
  "addr \<Rightarrow> addr \<Rightarrow> addr \<Rightarrow> addr \<Rightarrow> addr \<Rightarrow> 'z phys_st_scheme \<Rightarrow> (int \<times> 'z phys_st_scheme) res"
where
  "mappages pt va sz pa perm s =
     (if va mod PGSIZE \<noteq> 0 then Inl (Panic ''mappages: va not aligned'')
      else if sz mod PGSIZE \<noteq> 0 then Inl (Panic ''mappages: size not aligned'')
      else if sz = 0 then Inl (Panic ''mappages: size'')
      else bindR (of_loop (mappages_loop pt va (va + sz - PGSIZE) pa perm s)) id)"

definition kvmmap ::
  "addr \<Rightarrow> addr \<Rightarrow> addr \<Rightarrow> addr \<Rightarrow> addr \<Rightarrow> 'z phys_st_scheme \<Rightarrow> 'z phys_st_scheme res"
where
  "kvmmap kpgtbl va pa sz perm s =
     bindR (mappages kpgtbl va sz pa perm s) (\<lambda>(r, s).
     if r \<noteq> 0 then Inl (Panic ''kvmmap'') else Inr s)"

definition uvmcreate :: "'z phys_st_scheme \<Rightarrow> (addr \<times> 'z phys_st_scheme) res" where
  "uvmcreate s =
     bindR (kalloc s) (\<lambda>(pt, s).
     if pt = 0 then Inr (0, s) else Inr (pt, s\<lparr>mem := memset (mem s) pt 0 (ucast PGSIZE)\<rparr>))"

partial_function (option) uvmunmap_loop ::
  "addr \<Rightarrow> addr \<Rightarrow> addr \<Rightarrow> addr \<Rightarrow> bool \<Rightarrow> 'z phys_st_scheme \<Rightarrow> 'z phys_st_scheme res option"
where
  "uvmunmap_loop kend pt a bound do_free s =
     (if a < bound
      then
        (case walk pt a False s of
           Inl e \<Rightarrow> Some (Inl e)
         | Inr (pte, s) \<Rightarrow>
             if pte = 0 \<or> \<not> pte_is (load64 (mem s) pte) PTE_V
             then uvmunmap_loop kend pt (a + PGSIZE) bound do_free s
             else
               (case (if do_free then page_kfree kend (PTE2PA (load64 (mem s) pte)) s else Inr s) of
                  Inl e \<Rightarrow> Some (Inl e)
                | Inr s \<Rightarrow>
                    uvmunmap_loop kend pt (a + PGSIZE) bound do_free
                      (s\<lparr>mem := store64 (mem s) pte 0\<rparr>)))
      else Some (Inr s))"

definition uvmunmap ::
  "addr \<Rightarrow> addr \<Rightarrow> addr \<Rightarrow> addr \<Rightarrow> bool \<Rightarrow> 'z phys_st_scheme \<Rightarrow> 'z phys_st_scheme res"
where
  "uvmunmap kend pt va npages do_free s =
     (if va mod PGSIZE \<noteq> 0 then Inl (Panic ''uvmunmap: not aligned'')
      else bindR (of_loop (uvmunmap_loop kend pt va (va + npages * PGSIZE) do_free s)) id)"

definition uvmdealloc ::
  "addr \<Rightarrow> addr \<Rightarrow> addr \<Rightarrow> addr \<Rightarrow> 'z phys_st_scheme \<Rightarrow> (addr \<times> 'z phys_st_scheme) res"
where
  "uvmdealloc kend pt oldsz newsz s =
     (if newsz \<ge> oldsz then Inr (oldsz, s)
      else
        bindR
          (if PGROUNDUP newsz < PGROUNDUP oldsz
           then
             (let npages = sint (ucast ((PGROUNDUP oldsz - PGROUNDUP newsz) div PGSIZE) :: uint32)
              in uvmunmap kend pt (PGROUNDUP newsz) (word_of_int npages) True s)
           else Inr s)
          (\<lambda>s. Inr (newsz, s)))"

partial_function (option) uvmalloc_loop ::
  "addr \<Rightarrow> addr \<Rightarrow> addr \<Rightarrow> addr \<Rightarrow> addr \<Rightarrow> addr \<Rightarrow> 'z phys_st_scheme \<Rightarrow> (addr \<times> 'z phys_st_scheme) res option"
where
  "uvmalloc_loop kend pt a oldsz newsz xperm s =
     (if a < newsz
      then
        (case kalloc s of
           Inl e \<Rightarrow> Some (Inl e)
         | Inr (m, s) \<Rightarrow>
             if m = 0 then Some (bindR (uvmdealloc kend pt a oldsz s) (\<lambda>(_, s). Inr (0, s)))
             else
               (case mappages pt a PGSIZE m (PTE_R OR PTE_U OR xperm)
                       (s\<lparr>mem := memset (mem s) m 0 (ucast PGSIZE)\<rparr>) of
                  Inl e \<Rightarrow> Some (Inl e)
                | Inr (r, s) \<Rightarrow>
                    if r \<noteq> 0
                    then Some (bindR (page_kfree kend m s) (\<lambda>s.
                               bindR (uvmdealloc kend pt a oldsz s) (\<lambda>(_, s). Inr (0, s))))
                    else uvmalloc_loop kend pt (a + PGSIZE) oldsz newsz xperm s))
      else Some (Inr (newsz, s)))"

definition uvmalloc ::
  "addr \<Rightarrow> addr \<Rightarrow> addr \<Rightarrow> addr \<Rightarrow> addr \<Rightarrow> 'z phys_st_scheme \<Rightarrow> (addr \<times> 'z phys_st_scheme) res"
where
  "uvmalloc kend pt oldsz newsz xperm s =
     (if newsz < oldsz then Inr (oldsz, s)
      else
        (let oldsz = PGROUNDUP oldsz
         in bindR (of_loop (uvmalloc_loop kend pt oldsz oldsz newsz xperm s)) id))"

text \<open>The recursion and the loop over the 512 entries of \<^verbatim>\<open>freewalk\<close>.\<close>

partial_function (option) freewalk_loop ::
  "addr \<Rightarrow> addr \<Rightarrow> nat \<Rightarrow> 'z phys_st_scheme \<Rightarrow> 'z phys_st_scheme res option"
where
  "freewalk_loop kend pt i s =
     (if i < 512
      then
        (let pte = load64 (mem s) (pt + 8 * of_nat i) in
         if pte_is pte PTE_V \<and> \<not> pte_is pte (PTE_R OR PTE_W OR PTE_X)
         then
           Option.bind (freewalk_loop kend (PTE2PA pte) 0 s) (\<lambda>r.
             case r of
               Inl e \<Rightarrow> Some (Inl e)
             | Inr s \<Rightarrow> freewalk_loop kend pt (i + 1) (s\<lparr>mem := store64 (mem s) (pt + 8 * of_nat i) 0\<rparr>))
         else if pte_is pte PTE_V then Some (Inl (Panic ''freewalk: leaf''))
         else freewalk_loop kend pt (i + 1) s)
      else Some (page_kfree kend pt s))"

definition freewalk :: "addr \<Rightarrow> addr \<Rightarrow> 'z phys_st_scheme \<Rightarrow> 'z phys_st_scheme res" where
  "freewalk kend pt s = bindR (of_loop (freewalk_loop kend pt 0 s)) id"

definition uvmfree :: "addr \<Rightarrow> addr \<Rightarrow> addr \<Rightarrow> 'z phys_st_scheme \<Rightarrow> 'z phys_st_scheme res" where
  "uvmfree kend pt sz s =
     bindR (if sz > 0 then uvmunmap kend pt 0 (PGROUNDUP sz div PGSIZE) True s else Inr s) (\<lambda>s.
     freewalk kend pt s)"

text \<open>The loop of \<^verbatim>\<open>uvmcopy\<close>; \<open>Some i\<close> is the jump to \<^verbatim>\<open>err\<close>.\<close>

partial_function (option) uvmcopy_loop ::
  "addr \<Rightarrow> addr \<Rightarrow> addr \<Rightarrow> addr \<Rightarrow> addr \<Rightarrow> 'z phys_st_scheme \<Rightarrow> (addr option \<times> 'z phys_st_scheme) res option"
where
  "uvmcopy_loop kend old new i sz s =
     (if i < sz
      then
        (case walk old i False s of
           Inl e \<Rightarrow> Some (Inl e)
         | Inr (pte, s) \<Rightarrow>
             if pte = 0 \<or> \<not> pte_is (load64 (mem s) pte) PTE_V
             then uvmcopy_loop kend old new (i + PGSIZE) sz s
             else
               (let pa = PTE2PA (load64 (mem s) pte);
                    flags = PTE_FLAGS (load64 (mem s) pte)
                in case kalloc s of
                     Inl e \<Rightarrow> Some (Inl e)
                   | Inr (m, s) \<Rightarrow>
                       if m = 0 then Some (Inr (Some i, s))
                       else
                         (case mappages new i PGSIZE m flags
                                 (s\<lparr>mem := memmove (mem s) m pa (ucast PGSIZE)\<rparr>) of
                            Inl e \<Rightarrow> Some (Inl e)
                          | Inr (r, s) \<Rightarrow>
                              if r \<noteq> 0
                              then Some (bindR (page_kfree kend m s) (\<lambda>s. Inr (Some i, s)))
                              else uvmcopy_loop kend old new (i + PGSIZE) sz s)))
      else Some (Inr (None, s)))"

definition uvmcopy ::
  "addr \<Rightarrow> addr \<Rightarrow> addr \<Rightarrow> addr \<Rightarrow> 'z phys_st_scheme \<Rightarrow> (int \<times> 'z phys_st_scheme) res"
where
  "uvmcopy kend old new sz s =
     bindR (bindR (of_loop (uvmcopy_loop kend old new 0 sz s)) id) (\<lambda>(r, s).
     case r of
       None \<Rightarrow> Inr (0, s)
     | Some i \<Rightarrow> bindR (uvmunmap kend new 0 (i div PGSIZE) True s) (\<lambda>s. Inr (-1, s)))"

definition uvmclear :: "addr \<Rightarrow> addr \<Rightarrow> 'z phys_st_scheme \<Rightarrow> 'z phys_st_scheme res" where
  "uvmclear pt va s =
     bindR (walk pt va False s) (\<lambda>(pte, s).
     if pte = 0 then Inl (Panic ''uvmclear'')
     else Inr (s\<lparr>mem := store64 (mem s) pte (load64 (mem s) pte AND NOT PTE_U)\<rparr>))"

definition ismapped :: "addr \<Rightarrow> addr \<Rightarrow> 'z phys_st_scheme \<Rightarrow> bool res" where
  "ismapped pt va s =
     bindR (walk pt va False s) (\<lambda>(pte, s).
     if pte = 0 then Inr False
     else if pte_is (load64 (mem s) pte) PTE_V then Inr True
     else Inr False)"

text \<open>
  After a failed \<^verbatim>\<open>mappages\<close> the code calls \<^verbatim>\<open>kfree\<close>, the function of the slab allocator, on a page of the
  page allocator.
\<close>

definition vmfault :: "addr \<Rightarrow> addr \<Rightarrow> 'z proc_st_scheme \<Rightarrow> (addr \<times> 'z proc_st_scheme) res" where
  "vmfault pt va s =
     bindR (myproc s) (\<lambda>p.
     if va \<ge> p_sz (procs s p) then Inr (0, s)
     else
       (let va = PGROUNDDOWN va in
        bindR (ismapped pt va s) (\<lambda>mapped.
        if mapped then Inr (0, s)
        else
          bindR (kalloc s) (\<lambda>(m, s).
          if m = 0 then Inr (0, s)
          else
            bindR (mappages (pagetable (procs s p)) va PGSIZE m (PTE_W OR PTE_U OR PTE_R)
                     (s\<lparr>mem := memset (mem s) m 0 (ucast PGSIZE)\<rparr>)) (\<lambda>(r, s).
            if r \<noteq> 0 then bindR (kfree m s) (\<lambda>s. Inr (0, s))
            else Inr (m, s))))))"

text \<open>\<^verbatim>\<open>memmove\<close> of a buffer of the kernel into memory.\<close>

definition write_bytes :: "memory \<Rightarrow> addr \<Rightarrow> byte list \<Rightarrow> memory" where
  "write_bytes m a bs = (\<lambda>x. if unat (x - a) < length bs then bs ! unat (x - a) else m x)"

definition read_bytes :: "memory \<Rightarrow> addr \<Rightarrow> nat \<Rightarrow> byte list" where
  "read_bytes m a n = map (\<lambda>i. m (a + of_nat i)) [0 ..< n]"

text \<open>The bytes from an address to the end of its page: \<^verbatim>\<open>PGSIZE - (va - va0)\<close>.\<close>

definition page_rest :: "addr \<Rightarrow> nat" where
  "page_rest va = unat (PGSIZE - (va - PGROUNDDOWN va))"

lemma PGROUNDDOWN_unat: "unat (PGROUNDDOWN va) = unat va div 4096 * 4096"
proof -
  have "PGROUNDDOWN va = va AND NOT (mask 12)"
    by (simp add: PGROUNDDOWN_def PGSIZE_def mask_eq_exp_minus_1)
  then show ?thesis using unat_and_not_mask [of va 12] by simp
qed

lemma page_offset: "unat (va - PGROUNDDOWN va) = unat va mod 4096"
  by (simp add: unat_sub_if' PGROUNDDOWN_unat minus_div_mult_eq_mod)

lemma page_rest_eq: "page_rest va = 4096 - unat va mod 4096"
  unfolding page_rest_def
  by (simp add: PGSIZE_def unat_sub_if' [of 4096] page_offset less_imp_le)

lemma page_rest_pos [simp]: "0 < page_rest va"
  by (simp add: page_rest_eq)

text \<open>\<open>copyout\<close> of the bytes \<open>src\<close>.\<close>

function copyout ::
  "addr \<Rightarrow> addr \<Rightarrow> byte list \<Rightarrow> 'z proc_st_scheme \<Rightarrow> (int \<times> 'z proc_st_scheme) res"
where
  "copyout pt dstva src s =
     (if src = [] then Inr (0, s)
      else
        (let va0 = PGROUNDDOWN dstva in
         if va0 \<ge> MAXVA then Inr (-1, s)
         else
           bindR (walkaddr pt va0 s) (\<lambda>pa0.
           bindR (if pa0 = 0 then vmfault pt va0 s else Inr (pa0, s)) (\<lambda>(pa0, s).
           if pa0 = 0 then Inr (-1, s)
           else
             bindR (walk pt va0 False s) (\<lambda>(pte, s).
             if pte = 0 then Inl (Fault ''null'')
             else if \<not> pte_is (load64 (mem s) pte) PTE_W then Inr (-1, s)
             else
               (let n = min (page_rest dstva) (length src);
                    s = s\<lparr>mem := write_bytes (mem s) (pa0 + (dstva - va0)) (take n src)\<rparr>
                in copyout pt (va0 + PGSIZE) (drop n src) s))))))"
  by auto
termination by (relation "measure (\<lambda>(_, _, src, _). length src)") auto

text \<open>\<open>copyin\<close> of \<open>len\<close> bytes; the list is what was stored at \<^verbatim>\<open>dst\<close>.\<close>

function copyin ::
  "addr \<Rightarrow> addr \<Rightarrow> nat \<Rightarrow> 'z proc_st_scheme \<Rightarrow> ((int \<times> byte list) \<times> 'z proc_st_scheme) res"
where
  "copyin pt srcva len s =
     (if len = 0 then Inr ((0, []), s)
      else
        (let va0 = PGROUNDDOWN srcva in
         bindR (walkaddr pt va0 s) (\<lambda>pa0.
         bindR (if pa0 = 0 then vmfault pt va0 s else Inr (pa0, s)) (\<lambda>(pa0, s).
         if pa0 = 0 then Inr ((-1, []), s)
         else
           (let n = min (page_rest srcva) len;
                bs = read_bytes (mem s) (pa0 + (srcva - va0)) n
            in bindR (copyin pt (va0 + PGSIZE) (len - n) s) (\<lambda>((r, rest), s). Inr ((r, bs @ rest), s)))))))"
  by auto
termination by (relation "measure (\<lambda>(_, _, len, _). len)") auto

text \<open>The inner loop of \<^verbatim>\<open>copyinstr\<close> over the rest of one page; the flag is \<^verbatim>\<open>got_null\<close>.\<close>

primrec copystr_page :: "memory \<Rightarrow> nat \<Rightarrow> addr \<Rightarrow> bool \<times> byte list" where
  "copystr_page m 0 p = (False, [])"
| "copystr_page m (Suc n) p =
     (if m p = 0 then (True, [0])
      else (let (got, bs) = copystr_page m n (p + 1) in (got, m p # bs)))"

function copyinstr :: "addr \<Rightarrow> addr \<Rightarrow> nat \<Rightarrow> 'z phys_st_scheme \<Rightarrow> (int \<times> byte list) res" where
  "copyinstr pt srcva maxlen s =
     (if maxlen = 0 then Inr (-1, [])
      else
        (let va0 = PGROUNDDOWN srcva in
         bindR (walkaddr pt va0 s) (\<lambda>pa0.
         if pa0 = 0 then Inr (-1, [])
         else
           (let n = min (page_rest srcva) maxlen;
                (got_null, bs) = copystr_page (mem s) n (pa0 + (srcva - va0))
            in if got_null then Inr (0, bs)
               else bindR (copyinstr pt (va0 + PGSIZE) (maxlen - n) s) (\<lambda>(r, rest). Inr (r, bs @ rest))))))"
  by auto
termination by (relation "measure (\<lambda>(_, _, n, _). n)") auto

declare copyout.simps [simp del] copyin.simps [simp del] copyinstr.simps [simp del]

section \<open>Page-table entries\<close>

lemma pte_consts: "PTE_V = 1" "PTE_R = 2" "PTE_W = 4" "PTE_X = 8" "PTE_U = 16"
  by (simp_all add: PTE_V_def PTE_R_def PTE_W_def PTE_X_def PTE_U_def)

lemma walk_lookup: "\<exists>pte. walk_loop k pt va False s = Inr (pte, s)"
  by (induction k arbitrary: pt) (auto simp: Let_def)

lemma walk_total: "va < MAXVA \<Longrightarrow> \<exists>pte. walk pt va False s = Inr (pte, s)"
  using walk_lookup [of 2 pt va s] by (simp add: walk_def)

lemma walk_high: "MAXVA \<le> va \<Longrightarrow> walk pt va a s = Inl (Panic ''walk'')"
  by (simp add: walk_def)

lemma walkaddr_total: "\<exists>pa. walkaddr pt va s = Inr pa"
proof (cases "va \<ge> MAXVA")
  case False
  then obtain pte where "walk pt va False s = Inr (pte, s)" using walk_total [of va pt s] by (meson not_le)
  then show ?thesis by (simp add: walkaddr_def)
qed (simp add: walkaddr_def)

lemma take_bit_small:
  fixes w :: addr
  assumes "w < 2 ^ k" and "k < 64"
  shows "take_bit k w = w"
proof -
  have "(2::nat) ^ k < 2 ^ 64" using assms(2) by (rule power_strict_increasing) simp
  then have "unat (of_nat (2 ^ k) :: addr) = 2 ^ k" by (rule unat_of_nat_lt)
  then have "unat ((2::addr) ^ k) = 2 ^ k" by simp
  then have "unat w < 2 ^ k" using assms(1) by (simp add: word_less_nat_alt)
  then show ?thesis by (simp add: word_unat_eq_iff unsigned_take_bit_eq take_bit_nat_eq_self)
qed

text \<open>
  C21: A page-table entry gives back the physical address and the flags it was made from, for
  every page-aligned address below \<open>2 ^ 56\<close> and every set of the ten flag bits.
\<close>

theorem pte_roundtrip:
  assumes "aligned pa" and "pa < 2 ^ 56" and "flags < 2 ^ 10"
  shows "PTE2PA (PA2PTE pa OR flags) = pa \<and> PTE_FLAGS (PA2PTE pa OR flags) = flags"
proof
  have "take_bit 12 pa = 0"
    using assms(1) by (simp add: aligned_def PGSIZE_def take_bit_eq_mod)
  then have lo: "\<not> bit pa n" if "n < 12" for n
    using that by (metis bit_take_bit_iff bit_0_eq bot_apply bot_bool_def)
  have tp: "take_bit 56 pa = pa" by (rule take_bit_small [OF assms(2)]) simp
  have tf: "take_bit 10 flags = flags" by (rule take_bit_small [OF assms(3)]) simp
  have hi: "\<not> bit pa n" if "56 \<le> n" for n
    using tp that by (metis bit_take_bit_iff leD)
  have fl: "\<not> bit flags n" if "10 \<le> n" for n
    using tf that by (metis bit_take_bit_iff leD)
  show "PTE2PA (PA2PTE pa OR flags) = pa"
  proof (rule bit_word_eqI)
    fix n assume "n < LENGTH(64)"
    then show "bit (PTE2PA (PA2PTE pa OR flags)) n = bit pa n"
      using lo [of n] hi [of n] fl [of "n - 2"] by (cases "n < 12"; cases "n < 56")
        (auto simp: PTE2PA_def PA2PTE_def bit_simps)
  qed
  show "PTE_FLAGS (PA2PTE pa OR flags) = flags"
  proof (rule bit_word_eqI)
    fix n assume n: "n < LENGTH(64)"
    have m: "(0x3FF :: addr) = mask 10" by (simp add: mask_eq_exp_minus_1)
    show "bit (PTE_FLAGS (PA2PTE pa OR flags)) n = bit flags n"
      using n fl [of n] by (cases "n < 10") (auto simp: PTE_FLAGS_def PA2PTE_def m bit_simps)
  qed
qed

theorem pte_roundtrip_witness:
  "PTE2PA (PA2PTE 0x87FFF000 OR 0x17) = 0x87FFF000 \<and> PTE_FLAGS (PA2PTE 0x87FFF000 OR 0x17) = 0x17"
  by (rule pte_roundtrip) (simp_all add: aligned_def PGSIZE_def)

section \<open>Copying strings\<close>

lemma copystr_page_ok:
  "copystr_page m n p = (got, bs) \<Longrightarrow> length bs \<le> n \<and>
     (if got then bs \<noteq> [] \<and> last bs = 0 \<and> 0 \<notin> set (butlast bs) else length bs = n \<and> 0 \<notin> set bs)"
proof (induction n arbitrary: p got bs)
  case (Suc n)
  obtain g cs where r: "copystr_page m n (p + 1) = (g, cs)" by (cases "copystr_page m n (p + 1)")
  from Suc.IH [OF r] Suc.prems show ?case
    by (cases "m p = 0") (auto simp: r split: if_splits)
qed auto

lemma copyinstr_total: "\<exists>r bs. copyinstr pt va n s = Inr (r, bs) \<and> length bs \<le> n \<and>
  (if r = 0 then bs \<noteq> [] \<and> last bs = 0 \<and> 0 \<notin> set (butlast bs) else r = -1 \<and> 0 \<notin> set bs)"
proof (induction pt va n s rule: copyinstr.induct)
  case (1 pt va n s)
  obtain pa where pa: "walkaddr pt (PGROUNDDOWN va) s = Inr pa" using walkaddr_total by blast
  let ?k = "min (page_rest va) n"
  obtain got bs where c: "copystr_page (mem s) ?k (pa + (va - PGROUNDDOWN va)) = (got, bs)"
    by (cases "copystr_page (mem s) ?k (pa + (va - PGROUNDDOWN va))")
  note ok = copystr_page_ok [OF c]
  show ?case
  proof (cases "n = 0 \<or> pa = 0 \<or> got")
    case True
    then show ?thesis
      using pa c ok by (subst copyinstr.simps) (auto simp: Let_def)
  next
    case False
    have "\<exists>r rest. copyinstr pt (PGROUNDDOWN va + PGSIZE) (n - ?k) s = Inr (r, rest) \<and> length rest \<le> n - ?k \<and>
        (if r = 0 then rest \<noteq> [] \<and> last rest = 0 \<and> 0 \<notin> set (butlast rest) else r = -1 \<and> 0 \<notin> set rest)"
      by (rule 1 [OF _ refl pa _ refl c [symmetric] refl]) (use False in auto)
    then obtain r rest where r: "copyinstr pt (PGROUNDDOWN va + PGSIZE) (n - ?k) s = Inr (r, rest)"
        "length rest \<le> n - ?k"
        "if r = 0 then rest \<noteq> [] \<and> last rest = 0 \<and> 0 \<notin> set (butlast rest) else r = -1 \<and> 0 \<notin> set rest"
      by blast
    have "copyinstr pt va n s = Inr (r, bs @ rest)"
      using False pa c r(1) by (subst copyinstr.simps) (simp add: Let_def)
    then show ?thesis using ok r(2,3) False by (auto simp: butlast_append split: if_splits)
  qed
qed

text \<open>
  C22: \<^verbatim>\<open>copyinstr\<close> always returns, and never panics or faults whatever the address; it stores at most
  \<^verbatim>\<open>max\<close> bytes; it returns 0 exactly when what it stored is a NUL-terminated string with no NUL
  inside, and -1 otherwise.
\<close>

theorem copyinstr_bounded:
  "\<exists>r bs. copyinstr pt va n s = Inr (r, bs) \<and> length bs \<le> n \<and> (r = 0 \<or> r = -1) \<and>
    (r = 0 \<longleftrightarrow> bs \<noteq> [] \<and> last bs = 0 \<and> 0 \<notin> set (butlast bs))"
proof -
  obtain r bs where "copyinstr pt va n s = Inr (r, bs)" "length bs \<le> n"
      "if r = 0 then bs \<noteq> [] \<and> last bs = 0 \<and> 0 \<notin> set (butlast bs) else r = -1 \<and> 0 \<notin> set bs"
    using copyinstr_total [of pt va n s] by blast
  then show ?thesis
    by (intro exI [of _ r] exI [of _ bs]) (metis last_in_set)
qed

section \<open>What a lookup depends on\<close>

lemma walk_loop_mem:
  fixes s t :: "'z phys_st_scheme"
  assumes "mem t = mem s" and "walk_loop k pt va False s = Inr (p, s)"
  shows "walk_loop k pt va False t = Inr (p, t)"
  using assms by (induction k arbitrary: pt) (auto simp: Let_def split: if_splits)

lemma walkaddr_mem:
  fixes s t :: "'z phys_st_scheme"
  assumes "mem t = mem s"
  shows "walkaddr pt va t = walkaddr pt va s"
proof -
  obtain p where p: "walk_loop 2 pt va False s = Inr (p, s)" using walk_lookup [of 2 pt va s] by blast
  then have "walk_loop 2 pt va False t = Inr (p, t)" using assms walk_loop_mem by blast
  with p assms show ?thesis by (simp add: walkaddr_def walk_def)
qed

text \<open>The byte at the user address \<open>va\<close> of a page that is mapped.\<close>

definition user_mapped :: "addr \<Rightarrow> addr \<Rightarrow> 'z phys_st_scheme \<Rightarrow> bool" where
  "user_mapped pt va s \<longleftrightarrow> (case walkaddr pt (PGROUNDDOWN va) s of Inl _ \<Rightarrow> False | Inr pa \<Rightarrow> pa \<noteq> 0)"

definition user_byte :: "addr \<Rightarrow> addr \<Rightarrow> 'z phys_st_scheme \<Rightarrow> byte" where
  "user_byte pt va s =
     (case walkaddr pt (PGROUNDDOWN va) s of Inl _ \<Rightarrow> 0 | Inr pa \<Rightarrow> mem s (pa + (va - PGROUNDDOWN va)))"

lemma user_mapped_mem:
  fixes s t :: "'z phys_st_scheme"
  shows "mem t = mem s \<Longrightarrow> user_mapped pt va t = user_mapped pt va s"
  by (simp add: user_mapped_def walkaddr_mem [of t s])

lemma user_byte_mem:
  fixes s t :: "'z phys_st_scheme"
  shows "mem t = mem s \<Longrightarrow> user_byte pt va t = user_byte pt va s"
  by (simp add: user_byte_def walkaddr_mem [of t s] split: sum.split)

lemma copyin_byte:
  assumes "user_mapped pt va s"
  shows "copyin pt va 1 s = Inr ((0, [user_byte pt va s]), s)"
proof -
  obtain pa where pa: "walkaddr pt (PGROUNDDOWN va) s = Inr pa" "pa \<noteq> 0"
    using assms by (auto simp: user_mapped_def split: sum.splits)
  have "min (page_rest va) 1 = 1" by (metis One_nat_def Suc_leI min.absorb2 page_rest_pos)
  then show ?thesis
    using pa by (subst copyin.simps) (simp add: copyin.simps [of _ _ 0] user_byte_def read_bytes_def)
qed

text \<open>A page table of one page that is its own second and third level and maps address 0 to itself.\<close>

lemma demo_walk:
  assumes "mem s = store64 (\<lambda>_. 0) 4096 1055"
  shows "walkaddr 4096 0 s = Inr 4096"
proof -
  have l: "load64 (mem s) 4096 = 1055" by (simp add: assms)
  have p: "pte_addr 4096 k 0 = 4096" for k by (simp add: pte_addr_def PX_def)
  have q: "PTE2PA 1055 = 4096" "pte_is 1055 PTE_V" "pte_is 1055 PTE_U"
    by (simp_all add: PTE2PA_def pte_is_def pte_consts)
  have "walk_loop 2 4096 0 False s = Inr (4096, s)"
    unfolding numeral_2_eq_2 walk_loop.simps Let_def p l q(1) by (simp add: q)
  then show ?thesis by (simp add: walkaddr_def walk_def l q MAXVA_def)
qed

lemma demo_byte:
  assumes "mem s = store64 (\<lambda>_. 0) 4096 1055"
  shows "user_mapped 4096 0 s" and "user_byte 4096 0 s = 31"
  using demo_walk [OF assms] assms
  by (simp_all add: user_mapped_def user_byte_def PGROUNDDOWN_def store64_def)

end
