(* ===== verification/Sched.thy ===== *)
theory Sched
  imports Vm
begin

text \<open>
  The part of \<^verbatim>\<open>kernel/proc.c\<close> that every blocking operation of the kernel uses, and
  \<^verbatim>\<open>kernel/sleeplock.c\<close>: \<^verbatim>\<open>sched\<close>, \<^verbatim>\<open>yield\<close>, \<^verbatim>\<open>sleep\<close>, \<^verbatim>\<open>wakeup\<close>, \<^verbatim>\<open>kkill\<close>, \<^verbatim>\<open>killed\<close>, one round of the
  \<^verbatim>\<open>scheduler\<close>, and the sleep locks. \<^verbatim>\<open>sleep\<close> is cut at the context switch: \<open>sleep_enter\<close> runs up to it,
  \<open>sleep_exit\<close> from the next time the process is chosen. In code that is run on its own, a call of
  \<^verbatim>\<open>sleep\<close> is the failure \<open>Block\<close>.
\<close>

text \<open>The bytes of a C string literal.\<close>

definition ascii :: "string \<Rightarrow> byte list" where
  "ascii cs = map (\<lambda>c. word_of_nat (of_char c)) cs"

section \<open>Waking and killing\<close>

primrec wakeup_loop :: "nat \<Rightarrow> addr \<Rightarrow> 'z proc_st_scheme \<Rightarrow> 'z proc_st_scheme res" where
  "wakeup_loop 0 c s = Inr s"
| "wakeup_loop (Suc k) c s =
     (let p = NPROC - Suc k in
      bindR
        (if curproc s \<noteq> Some p
         then
           bindR (acquire (L_proc p) s) (\<lambda>s.
           let s = (if state (procs s p) = SLEEPING \<and> chan (procs s p) = c
                    then upd_proc p (state_update (\<lambda>_. RUNNABLE)) s else s)
           in release (L_proc p) s)
         else Inr s)
        (wakeup_loop k c))"

definition wakeup :: "addr \<Rightarrow> 'z proc_st_scheme \<Rightarrow> 'z proc_st_scheme res" where
  "wakeup c s = wakeup_loop NPROC c s"

primrec kkill_loop :: "nat \<Rightarrow> int \<Rightarrow> 'z proc_st_scheme \<Rightarrow> (int \<times> 'z proc_st_scheme) res" where
  "kkill_loop 0 i s = Inr (-1, s)"
| "kkill_loop (Suc k) i s =
     (let p = NPROC - Suc k in
      bindR (acquire (L_proc p) s) (\<lambda>s.
      if pid (procs s p) = i
      then
        (let s = upd_proc p (killed_flag_update (\<lambda>_. 1)) s;
             s = (if state (procs s p) = SLEEPING then upd_proc p (state_update (\<lambda>_. RUNNABLE)) s else s)
         in bindR (release (L_proc p) s) (\<lambda>s. Inr (0, s)))
      else bindR (release (L_proc p) s) (kkill_loop k i)))"

definition kkill :: "int \<Rightarrow> 'z proc_st_scheme \<Rightarrow> (int \<times> 'z proc_st_scheme) res" where
  "kkill i s = kkill_loop NPROC i s"

definition setkilled :: "nat \<Rightarrow> 'z proc_st_scheme \<Rightarrow> 'z proc_st_scheme res" where
  "setkilled p s =
     bindR (acquire (L_proc p) s) (\<lambda>s. release (L_proc p) (upd_proc p (killed_flag_update (\<lambda>_. 1)) s))"

definition killed :: "nat \<Rightarrow> 'z proc_st_scheme \<Rightarrow> (int \<times> 'z proc_st_scheme) res" where
  "killed p s =
     bindR (acquire (L_proc p) s) (\<lambda>s.
     let k = killed_flag (procs s p)
     in bindR (release (L_proc p) s) (\<lambda>s. Inr (k, s)))"

section \<open>Giving up the CPU\<close>

text \<open>
  The checks of \<^verbatim>\<open>sched\<close>. The nesting count of \<^verbatim>\<open>push_off\<close> is the number of locks the CPU holds, and
  interrupts are off exactly while it holds one (\<open>cpu_inv\<close> of the lock model).
\<close>

definition sched_check :: "'z proc_st_scheme \<Rightarrow> 'z proc_st_scheme res" where
  "sched_check s =
     bindR (myproc s) (\<lambda>p.
     if \<not> holding (L_proc p) s then Inl (Panic ''sched p->lock'')
     else if held s \<noteq> {L_proc p} then Inl (Panic ''sched locks'')
     else if state (procs s p) = RUNNING then Inl (Panic ''sched RUNNING'')
     else Inr s)"

definition yield_enter :: "'z proc_st_scheme \<Rightarrow> 'z proc_st_scheme res" where
  "yield_enter s =
     bindR (myproc s) (\<lambda>p.
     bindR (acquire (L_proc p) s) (\<lambda>s.
     sched_check (upd_proc p (state_update (\<lambda>_. RUNNABLE)) s)))"

definition yield_exit :: "'z proc_st_scheme \<Rightarrow> 'z proc_st_scheme res" where
  "yield_exit s = bindR (myproc s) (\<lambda>p. release (L_proc p) s)"

definition sleep_enter :: "addr \<Rightarrow> lockid \<Rightarrow> 'z proc_st_scheme \<Rightarrow> 'z proc_st_scheme res" where
  "sleep_enter c lk s =
     bindR (myproc s) (\<lambda>p.
     bindR (acquire (L_proc p) s) (\<lambda>s.
     bindR (release lk s) (\<lambda>s.
     let s = upd_proc p (chan_update (\<lambda>_. c)) s;
         s = upd_proc p (state_update (\<lambda>_. SLEEPING)) s
     in sched_check s)))"

definition sleep_exit :: "lockid \<Rightarrow> 'z proc_st_scheme \<Rightarrow> 'z proc_st_scheme res" where
  "sleep_exit lk s =
     bindR (myproc s) (\<lambda>p.
     let s = upd_proc p (chan_update (\<lambda>_. 0)) s in
     bindR (release (L_proc p) s) (\<lambda>s. acquire lk s))"

text \<open>
  One iteration of the inner loop of \<^verbatim>\<open>scheduler\<close> for the process \<open>p\<close>, cut at \<^verbatim>\<open>swtch\<close>: with the lock of
  \<open>p\<close> held it is marked running, or the lock is released again; and what follows its return.
\<close>

definition sched_pick :: "nat \<Rightarrow> 'z proc_st_scheme \<Rightarrow> (bool \<times> 'z proc_st_scheme) res" where
  "sched_pick p s =
     bindR (acquire (L_proc p) s) (\<lambda>s.
     if state (procs s p) = RUNNABLE
     then Inr (True, (upd_proc p (state_update (\<lambda>_. RUNNING)) s)\<lparr>curproc := Some p\<rparr>)
     else bindR (release (L_proc p) s) (\<lambda>s. Inr (False, s)))"

definition sched_back :: "nat \<Rightarrow> 'z proc_st_scheme \<Rightarrow> 'z proc_st_scheme res" where
  "sched_back p s = release (L_proc p) (s\<lparr>curproc := None\<rparr>)"

section \<open>Sleep locks\<close>

text \<open>\<^verbatim>\<open>struct sleeplock\<close>; a sleep lock is named by the address of the structure it protects.\<close>

record sleeplock =
  sk_locked :: bool
  sk_pid :: int

record sleep_st = proc_st +
  slocks :: "addr \<Rightarrow> sleeplock"

definition initsleeplock :: "addr \<Rightarrow> 'z sleep_st_scheme \<Rightarrow> 'z sleep_st_scheme" where
  "initsleeplock lk s =
     (init_lock (L_sleep lk) s)\<lparr>slocks := (slocks s)(lk := \<lparr>sk_locked = False, sk_pid = 0\<rparr>)\<rparr>"

definition acquiresleep :: "addr \<Rightarrow> 'z sleep_st_scheme \<Rightarrow> 'z sleep_st_scheme res" where
  "acquiresleep lk s =
     bindR (acquire (L_sleep lk) s) (\<lambda>s.
     if sk_locked (slocks s lk) then Inl Block
     else
       bindR (myproc s) (\<lambda>p.
       release (L_sleep lk) (s\<lparr>slocks := (slocks s)(lk := \<lparr>sk_locked = True, sk_pid = pid (procs s p)\<rparr>)\<rparr>)))"

definition releasesleep :: "addr \<Rightarrow> 'z sleep_st_scheme \<Rightarrow> 'z sleep_st_scheme res" where
  "releasesleep lk s =
     bindR (acquire (L_sleep lk) s) (\<lambda>s.
     let s = s\<lparr>slocks := (slocks s)(lk := \<lparr>sk_locked = False, sk_pid = 0\<rparr>)\<rparr>
     in bindR (wakeup lk s) (\<lambda>s. release (L_sleep lk) s))"

definition holdingsleep :: "addr \<Rightarrow> 'z sleep_st_scheme \<Rightarrow> (bool \<times> 'z sleep_st_scheme) res" where
  "holdingsleep lk s =
     bindR (acquire (L_sleep lk) s) (\<lambda>s.
     bindR (myproc s) (\<lambda>p.
     let r = sk_locked (slocks s lk) \<and> sk_pid (slocks s lk) = pid (procs s p)
     in bindR (release (L_sleep lk) s) (\<lambda>s. Inr (r, s))))"

section \<open>Effect of the operations\<close>

definition no_proc_locks :: "'z kst_scheme \<Rightarrow> bool" where
  "no_proc_locks s \<longleftrightarrow> (\<forall>p. L_proc p \<notin> held s)"

definition woken :: "nat option \<Rightarrow> addr \<Rightarrow> nat \<Rightarrow> proc \<Rightarrow> proc" where
  "woken cur c p r =
     (if cur \<noteq> Some p \<and> state r = SLEEPING \<and> chan r = c then r\<lparr>state := RUNNABLE\<rparr> else r)"

lemma wakeup_loop_eq:
  "no_proc_locks s \<Longrightarrow> k \<le> NPROC \<Longrightarrow>
   wakeup_loop k c s = Inr (s\<lparr>procs := \<lambda>p. if NPROC - k \<le> p \<and> p < NPROC then woken (curproc s) c p (procs s p) else procs s p\<rparr>)"
proof (induction k arbitrary: s)
  case 0
  have "(\<lambda>p. if NPROC - 0 \<le> p \<and> p < NPROC then woken (curproc s) c p (procs s p) else procs s p) = procs s"
    by (rule ext) auto
  then show ?case by (simp only: wakeup_loop.simps) simp
next
  case (Suc k)
  let ?p = "NPROC - Suc k"
  let ?s = "s\<lparr>procs := (procs s)(?p := woken (curproc s) c ?p (procs s ?p))\<rparr>"
  have free: "L_proc ?p \<notin> held s" using Suc.prems(1) by (simp add: no_proc_locks_def)
  have step: "wakeup_loop (Suc k) c s = wakeup_loop k c ?s"
    using free by (simp add: woken_def upd_proc_def Let_def)
  have ih: "wakeup_loop k c ?s =
      Inr (?s\<lparr>procs := \<lambda>p. if NPROC - k \<le> p \<and> p < NPROC then woken (curproc ?s) c p (procs ?s p) else procs ?s p\<rparr>)"
    using Suc.prems by (intro Suc.IH) (simp_all add: no_proc_locks_def)
  have range: "(NPROC - Suc k \<le> p \<and> p < NPROC) = (p = ?p \<or> (NPROC - k \<le> p \<and> p < NPROC))" for p
    using Suc.prems(2) by arith
  have "?p < NPROC - k" using Suc.prems(2) by arith
  then have "(\<lambda>p. if NPROC - k \<le> p \<and> p < NPROC then woken (curproc ?s) c p (procs ?s p) else procs ?s p) =
      (\<lambda>p. if NPROC - Suc k \<le> p \<and> p < NPROC then woken (curproc s) c p (procs s p) else procs s p)"
    unfolding range by (intro ext) auto
  then show ?case unfolding step ih by simp
qed

lemma wakeup_eq:
  "no_proc_locks s \<Longrightarrow>
   wakeup c s = Inr (s\<lparr>procs := \<lambda>p. if p < NPROC then woken (curproc s) c p (procs s p) else procs s p\<rparr>)"
  by (simp add: wakeup_def wakeup_loop_eq)



end
