(* ===== verification/Bio.thy ===== *)
theory Bio
  imports Sched
begin

text \<open>
  The buffer cache, \<^verbatim>\<open>kernel/bio.c\<close>. Buffers are named by the address of their slab object and kept in a
  typed store. The doubly linked list through \<^verbatim>\<open>prev\<close> and \<^verbatim>\<open>next\<close> is the sequence of buffer addresses from
  \<^verbatim>\<open>bcache.head.next\<close> on: its front is the most recently used buffer, its last element \<^verbatim>\<open>bcache.head.prev\<close>.
  The disk is a map from block numbers to block contents; \<open>dwrites\<close> records the sequence of block writes,
  which is what a crash can cut short.
\<close>

definition BSIZE :: nat where "BSIZE = 1024"

type_synonym block = "byte list"

record buf =
  valid :: bool
  dev :: uint32
  blockno :: uint32
  refcnt :: uint32
  data :: block

definition zero_buf :: buf where
  "zero_buf = \<lparr>valid = False, dev = 0, blockno = 0, refcnt = 0, data = replicate BSIZE 0\<rparr>"

definition sizeof_buf :: addr where "sizeof_buf = 1112"

record bio_st = sleep_st +
  bufs :: "addr \<Rightarrow> buf"
  bcache_list :: "addr list"
  buf_cache :: addr
  bcache_count :: int
  disk :: "uint32 \<Rightarrow> block"
  dwrites :: "(uint32 \<times> block) list"

definition upd_buf :: "addr \<Rightarrow> (buf \<Rightarrow> buf) \<Rightarrow> 'z bio_st_scheme \<Rightarrow> 'z bio_st_scheme" where
  "upd_buf b f s = s\<lparr>bufs := (bufs s)(b := f (bufs s b))\<rparr>"

text \<open>
  The contract of the disk driver: \<^verbatim>\<open>virtio_disk_rw\<close> returns when the block has been transferred. The
  sector it uses depends on \<^verbatim>\<open>blockno\<close> only.
\<close>

definition virtio_disk_rw :: "addr \<Rightarrow> bool \<Rightarrow> 'z bio_st_scheme \<Rightarrow> 'z bio_st_scheme" where
  "virtio_disk_rw b write s =
     (let bn = blockno (bufs s b) in
      if write
      then s\<lparr>disk := (disk s)(bn := data (bufs s b)), dwrites := dwrites s @ [(bn, data (bufs s b))]\<rparr>
      else upd_buf b (data_update (\<lambda>_. disk s bn)) s)"

primrec binit_loop :: "nat \<Rightarrow> 'z bio_st_scheme \<Rightarrow> 'z bio_st_scheme res" where
  "binit_loop 0 s = Inr s"
| "binit_loop (Suc k) s =
     bindR (kmem_cache_alloc (buf_cache s) s) (\<lambda>(b, s).
     if b = 0 then Inl (Panic ''binit alloc'')
     else
       (let s = upd_buf b (\<lambda>_. zero_buf) s;
            s = initsleeplock b s
        in binit_loop k (s\<lparr>bcache_list := b # bcache_list s\<rparr>)))"

definition binit :: "'z bio_st_scheme \<Rightarrow> 'z bio_st_scheme res" where
  "binit s =
     (let s = (init_lock L_bcache s)\<lparr>bcache_list := []\<rparr> in
      bindR (kmem_cache_create (ascii ''buf'') sizeof_buf 0 0 s) (\<lambda>(c, s).
      let s = s\<lparr>buf_cache := c\<rparr> in
      if c = 0 then Inl (Panic ''buf_cache'')
      else bindR (binit_loop NBUF s) (\<lambda>s. Inr (s\<lparr>bcache_count := int NBUF\<rparr>))))"

definition bget_scan :: "uint32 \<Rightarrow> uint32 \<Rightarrow> 'z bio_st_scheme \<Rightarrow> addr option" where
  "bget_scan d bn s = find (\<lambda>b. dev (bufs s b) = d \<and> blockno (bufs s b) = bn) (bcache_list s)"

definition bget_lru :: "'z bio_st_scheme \<Rightarrow> addr option" where
  "bget_lru s = find (\<lambda>b. refcnt (bufs s b) = 0) (rev (bcache_list s))"

definition bget :: "uint32 \<Rightarrow> uint32 \<Rightarrow> 'z bio_st_scheme \<Rightarrow> (addr \<times> 'z bio_st_scheme) res" where
  "bget d bn s =
     bindR (acquire L_bcache s) (\<lambda>s.
     case bget_scan d bn s of
       Some b \<Rightarrow>
         (let s = upd_buf b (refcnt_update (\<lambda>n. n + 1)) s in
          bindR (release L_bcache s) (\<lambda>s.
          bindR (acquiresleep b s) (\<lambda>s. Inr (b, s))))
     | None \<Rightarrow>
         (case bget_lru s of
            Some b \<Rightarrow>
              (let s = upd_buf b (\<lambda>r. r\<lparr>dev := d, blockno := bn, valid := False, refcnt := 1\<rparr>) s in
               bindR (release L_bcache s) (\<lambda>s.
               bindR (acquiresleep b s) (\<lambda>s. Inr (b, s))))
          | None \<Rightarrow>
              bindR (kmem_cache_alloc (buf_cache s) s) (\<lambda>(b, s).
              if b = 0 then Inl (Panic ''bget: no memory'')
              else
                (let s = upd_buf b (\<lambda>_. zero_buf) s;
                     s = initsleeplock b s;
                     s = upd_buf b (\<lambda>r. r\<lparr>dev := d, blockno := bn, valid := False, refcnt := 1\<rparr>) s;
                     s = s\<lparr>bcache_list := b # bcache_list s, bcache_count := bcache_count s + 1\<rparr>
                 in bindR (release L_bcache s) (\<lambda>s.
                    bindR (acquiresleep b s) (\<lambda>s. Inr (b, s)))))))"

definition bread :: "uint32 \<Rightarrow> uint32 \<Rightarrow> 'z bio_st_scheme \<Rightarrow> (addr \<times> 'z bio_st_scheme) res" where
  "bread d bn s =
     bindR (bget d bn s) (\<lambda>(b, s).
     if \<not> valid (bufs s b)
     then Inr (b, upd_buf b (valid_update (\<lambda>_. True)) (virtio_disk_rw b False s))
     else Inr (b, s))"

definition bwrite :: "addr \<Rightarrow> 'z bio_st_scheme \<Rightarrow> 'z bio_st_scheme res" where
  "bwrite b s =
     bindR (holdingsleep b s) (\<lambda>(h, s).
     if \<not> h then Inl (Panic ''bwrite'') else Inr (virtio_disk_rw b True s))"

text \<open>The loop that frees unused buffers beyond \<^verbatim>\<open>NBUF\<close>, over the list from its least recently used end.\<close>

primrec brelse_shrink :: "addr list \<Rightarrow> addr \<Rightarrow> 'z bio_st_scheme \<Rightarrow> 'z bio_st_scheme res" where
  "brelse_shrink [] b s = Inr s"
| "brelse_shrink (t # ts) b s =
     (if \<not> bcache_count s > int NBUF then Inr s
      else if t = b \<or> refcnt (bufs s t) \<noteq> 0 then Inr s
      else
        (let s = s\<lparr>bcache_list := rev ts\<rparr> in
         bindR (kmem_cache_free (buf_cache s) t s) (\<lambda>s.
         brelse_shrink ts b (s\<lparr>bcache_count := bcache_count s - 1\<rparr>))))"

definition brelse :: "addr \<Rightarrow> 'z bio_st_scheme \<Rightarrow> 'z bio_st_scheme res" where
  "brelse b s =
     bindR (holdingsleep b s) (\<lambda>(h, s).
     if \<not> h then Inl (Panic ''brelse'')
     else
       bindR (releasesleep b s) (\<lambda>s.
       bindR (acquire L_bcache s) (\<lambda>s.
       let s = upd_buf b (refcnt_update (\<lambda>n. n - 1)) s in
       bindR
         (if refcnt (bufs s b) = 0
          then
            (let s = s\<lparr>bcache_list := b # remove1 b (bcache_list s)\<rparr>
             in brelse_shrink (rev (bcache_list s)) b s)
          else Inr s)
         (release L_bcache))))"

definition bpin :: "addr \<Rightarrow> 'z bio_st_scheme \<Rightarrow> 'z bio_st_scheme res" where
  "bpin b s =
     bindR (acquire L_bcache s) (\<lambda>s. release L_bcache (upd_buf b (refcnt_update (\<lambda>n. n + 1)) s))"

definition bunpin :: "addr \<Rightarrow> 'z bio_st_scheme \<Rightarrow> 'z bio_st_scheme res" where
  "bunpin b s =
     bindR (acquire L_bcache s) (\<lambda>s. release L_bcache (upd_buf b (refcnt_update (\<lambda>n. n - 1)) s))"

section \<open>The cache as one process sees it\<close>

text \<open>
  The state between the operations of a process \<open>p\<close> that works on the device \<open>d\<close> with no other process in the
  middle of an operation: \<open>L\<close> is the set of buffers it has locked and \<open>P\<close> the set of block numbers pinned once.
  No block of the device has two buffers, and a buffer that is neither locked nor pinned agrees with the disk.
\<close>

definition cached :: "uint32 \<Rightarrow> uint32 \<Rightarrow> 'z bio_st_scheme \<Rightarrow> addr \<Rightarrow> bool" where
  "cached d bn s b \<longleftrightarrow> b \<in> set (bcache_list s) \<and> dev (bufs s b) = d \<and> blockno (bufs s b) = bn"

definition pinned :: "uint32 \<Rightarrow> uint32 set \<Rightarrow> buf \<Rightarrow> bool" where
  "pinned d P r \<longleftrightarrow> dev r = d \<and> blockno r \<in> P"

definition buf_ok :: "uint32 \<Rightarrow> uint32 set \<Rightarrow> addr set \<Rightarrow> (uint32 \<Rightarrow> block) \<Rightarrow> addr \<Rightarrow> buf \<Rightarrow> bool" where
  "buf_ok d P L dk b r \<longleftrightarrow>
     length (data r) = BSIZE \<and>
     refcnt r = of_bool (b \<in> L) + of_bool (pinned d P r) \<and>
     (b \<in> L \<longrightarrow> dev r = d \<and> valid r) \<and>
     (pinned d P r \<longrightarrow> valid r) \<and>
     (valid r \<and> dev r = d \<and> b \<notin> L \<and> blockno r \<notin> P \<longrightarrow> data r = dk (blockno r))"

definition bcache_inv :: "uint32 \<Rightarrow> nat \<Rightarrow> uint32 set \<Rightarrow> addr set \<Rightarrow> 'z bio_st_scheme \<Rightarrow> bool" where
  "bcache_inv d p P L s \<longleftrightarrow>
     held s = {} \<and> curproc s = Some p \<and>
     distinct (bcache_list s) \<and> bcache_count s \<le> int NBUF \<and> L \<subseteq> set (bcache_list s) \<and>
     (\<forall>bn. length (disk s bn) = BSIZE) \<and>
     (\<forall>b \<in> set (bcache_list s). buf_ok d P L (disk s) b (bufs s b)) \<and>
     (\<forall>b \<in> set (bcache_list s). sk_locked (slocks s b) = (b \<in> L) \<and>
        (b \<in> L \<longrightarrow> sk_pid (slocks s b) = pid (procs s p))) \<and>
     (\<forall>b c bn. cached d bn s b \<and> cached d bn s c \<longrightarrow> b = c) \<and>
     (\<forall>bn \<in> P. \<exists>b. cached d bn s b)"

text \<open>The content of a block as \<^verbatim>\<open>bread\<close> finds it.\<close>

definition block_view :: "uint32 \<Rightarrow> 'z bio_st_scheme \<Rightarrow> uint32 \<Rightarrow> block" where
  "block_view d s bn =
     (case bget_scan d bn s of
        Some b \<Rightarrow> if valid (bufs s b) then data (bufs s b) else disk s bn
      | None \<Rightarrow> disk s bn)"

lemma bget_scan_Some:
  assumes "bcache_inv d p P L s"
  shows "bget_scan d bn s = Some b \<longleftrightarrow> cached d bn s b"
proof -
  have u: "b = c" if "cached d bn s b" "cached d bn s c" for b c
    using assms that unfolding bcache_inv_def by blast
  show ?thesis
  proof
    assume "bget_scan d bn s = Some b"
    then show "cached d bn s b"
      by (auto simp: bget_scan_def cached_def find_Some_iff)
  next
    assume c: "cached d bn s b"
    then obtain c where "bget_scan d bn s = Some c"
      by (cases "bget_scan d bn s") (auto simp: bget_scan_def cached_def find_None_iff)
    moreover from this have "cached d bn s c"
      by (auto simp: bget_scan_def cached_def find_Some_iff)
    ultimately show "bget_scan d bn s = Some b" using u c by blast
  qed
qed

lemma bget_scan_None:
  "bget_scan d bn s = None \<longleftrightarrow> (\<forall>b. \<not> cached d bn s b)"
  by (auto simp: bget_scan_def cached_def find_None_iff)

lemma block_view_cached:
  "bcache_inv d p P L s \<Longrightarrow> cached d bn s b \<Longrightarrow> valid (bufs s b) \<Longrightarrow> block_view d s bn = data (bufs s b)"
  using bget_scan_Some [of d p P L s bn b] by (simp add: block_view_def)

lemma block_view_disk:
  "bcache_inv d p P L s \<Longrightarrow> (\<And>b. cached d bn s b \<Longrightarrow> \<not> valid (bufs s b)) \<Longrightarrow> block_view d s bn = disk s bn"
  using bget_scan_Some [of d p P L s bn] by (auto simp: block_view_def split: option.split)

lemma inv_buf:
  "bcache_inv d p P L s \<Longrightarrow> b \<in> set (bcache_list s) \<Longrightarrow> buf_ok d P L (disk s) b (bufs s b)"
  by (simp add: bcache_inv_def)

lemma length_block_view:
  assumes "bcache_inv d p P L s" shows "length (block_view d s bn) = BSIZE"
  using assms bget_scan_Some [OF assms, of bn]
  by (auto simp: block_view_def bcache_inv_def buf_ok_def cached_def split: option.split)

lemma held_id: "held s = {} \<Longrightarrow> s\<lparr>held := {}\<rparr> = s"
  by (cases s) simp

lemma acquiresleep_free:
  assumes "held s = {}" "curproc s = Some p" "\<not> sk_locked (slocks s lk)"
  shows "acquiresleep lk s =
    Inr (s\<lparr>slocks := (slocks s)(lk := \<lparr>sk_locked = True, sk_pid = pid (procs s p)\<rparr>)\<rparr>)"
  using assms by (simp add: acquiresleep_def)

lemma holdingsleep_eq:
  assumes "held s = {}" "curproc s = Some p"
  shows "holdingsleep lk s = Inr (sk_locked (slocks s lk) \<and> sk_pid (slocks s lk) = pid (procs s p), s)"
  using assms by (simp add: holdingsleep_def Let_def held_id)

definition wake_all :: "addr \<Rightarrow> 'z proc_st_scheme \<Rightarrow> nat \<Rightarrow> proc" where
  "wake_all c s = (\<lambda>p. if p < NPROC then woken (curproc s) c p (procs s p) else procs s p)"

lemma pid_wake_all [simp]: "pid (wake_all c s p) = pid (procs s p)"
  by (simp add: wake_all_def woken_def)

lemma releasesleep_eq:
  assumes "held s = {}"
  shows "releasesleep lk s =
    Inr (s\<lparr>slocks := (slocks s)(lk := \<lparr>sk_locked = False, sk_pid = 0\<rparr>), procs := wake_all lk s\<rparr>)"
  using assms
  by (simp add: releasesleep_def Let_def wakeup_eq no_proc_locks_def wake_all_def cong: if_cong)

lemma bcache_invI:
  assumes "held s = {}" "curproc s = Some p" "distinct (bcache_list s)" "bcache_count s \<le> int NBUF"
    "L \<subseteq> set (bcache_list s)" "\<And>bn. length (disk s bn) = BSIZE"
    "\<And>b. b \<in> set (bcache_list s) \<Longrightarrow> buf_ok d P L (disk s) b (bufs s b)"
    "\<And>b. b \<in> set (bcache_list s) \<Longrightarrow> sk_locked (slocks s b) = (b \<in> L)"
    "\<And>b. b \<in> L \<Longrightarrow> sk_pid (slocks s b) = pid (procs s p)"
    "\<And>b c bn. cached d bn s b \<Longrightarrow> cached d bn s c \<Longrightarrow> b = c"
    "\<And>bn. bn \<in> P \<Longrightarrow> \<exists>b. cached d bn s b"
  shows "bcache_inv d p P L s"
  unfolding bcache_inv_def using assms by blast

lemma bcache_invD:
  assumes "bcache_inv d p P L s"
  shows "held s = {}" "curproc s = Some p" "distinct (bcache_list s)" "bcache_count s \<le> int NBUF"
    "L \<subseteq> set (bcache_list s)" "length (disk s bn) = BSIZE"
    "b \<in> set (bcache_list s) \<Longrightarrow> sk_locked (slocks s b) = (b \<in> L)"
    "b \<in> L \<Longrightarrow> sk_pid (slocks s b) = pid (procs s p)"
    "bn \<in> P \<Longrightarrow> \<exists>b. cached d bn s b"
  using assms unfolding bcache_inv_def by blast+

lemma inv_uniq: "bcache_inv d p P L s \<Longrightarrow> cached d bn s b \<Longrightarrow> cached d bn s c \<Longrightarrow> b = c"
  unfolding bcache_inv_def by blast

lemma refcnt_0:
  "buf_ok d P L dk b r \<Longrightarrow> refcnt r = 0 \<longleftrightarrow> b \<notin> L \<and> \<not> pinned d P r"
  by (auto simp: buf_ok_def of_bool_def split: if_splits)

text \<open>With more buffers than locked and pinned ones, there is one to recycle.\<close>

lemma bget_lru_free:
  assumes inv: "bcache_inv d p P L s" and "finite P" and "card P + card L < length (bcache_list s)"
  shows "\<exists>b. bget_lru s = Some b \<and> b \<in> set (bcache_list s) \<and> refcnt (bufs s b) = 0"
proof -
  let ?B = "set (bcache_list s)" and ?Q = "{b \<in> set (bcache_list s). pinned d P (bufs s b)}"
  have L: "L \<subseteq> ?B" and dist: "distinct (bcache_list s)" using inv by (simp_all add: bcache_inv_def)
  have "inj_on (\<lambda>b. blockno (bufs s b)) ?Q"
    using inv_uniq [OF inv] by (auto simp: inj_on_def pinned_def cached_def)
  then have "card ?Q \<le> card P"
    by (rule card_inj_on_le) (use assms(2) in \<open>auto simp: pinned_def\<close>)
  moreover have "card (L \<union> ?Q) \<le> card L + card ?Q" by (rule card_Un_le)
  moreover have "card ?B = length (bcache_list s)" using dist by (rule distinct_card)
  ultimately have "card (L \<union> ?Q) < card ?B" using assms(3) by simp
  then have "\<not> ?B \<subseteq> L \<union> ?Q"
    using card_mono [of "L \<union> ?Q" ?B] L finite_subset [OF L] by auto
  then obtain b where "b \<in> ?B" "refcnt (bufs s b) = 0"
    using refcnt_0 [OF inv_buf [OF inv]] by auto
  then have "bget_lru s \<noteq> None" by (auto simp: bget_lru_def find_None_iff)
  then obtain c where c: "bget_lru s = Some c" by blast
  then obtain i where "i < length (rev (bcache_list s))" "refcnt (bufs s c) = 0" "c = rev (bcache_list s) ! i"
    unfolding bget_lru_def find_Some_iff by blast
  then have "refcnt (bufs s c) = 0 \<and> c \<in> ?B"
    using nth_mem [of i "rev (bcache_list s)"] by (simp only: set_rev)
  with c show ?thesis by blast
qed

text \<open>The buffer \<open>b\<close> locked by \<open>bread\<close> for the block \<open>bn\<close>.\<close>

definition got :: "uint32 \<Rightarrow> uint32 \<Rightarrow> uint32 set \<Rightarrow> nat \<Rightarrow> addr \<Rightarrow> 'z bio_st_scheme \<Rightarrow> 'z bio_st_scheme" where
  "got d bn P p b s =
     s\<lparr>slocks := (slocks s)(b := \<lparr>sk_locked = True, sk_pid = pid (procs s p)\<rparr>),
       bufs := (bufs s)(b := \<lparr>valid = True, dev = d, blockno = bn, refcnt = 1 + of_bool (bn \<in> P),
         data = block_view d s bn\<rparr>)\<rparr>"

definition can_get :: "uint32 \<Rightarrow> uint32 \<Rightarrow> 'z bio_st_scheme \<Rightarrow> addr \<Rightarrow> bool" where
  "can_get d bn s b \<longleftrightarrow>
     cached d bn s b \<or>
     (\<forall>c. \<not> cached d bn s c) \<and> b \<in> set (bcache_list s) \<and> refcnt (bufs s b) = 0"

lemma bread_got:
  assumes inv: "bcache_inv d p P L s" and "finite P" and "card P + card L < length (bcache_list s)"
    and free: "\<And>b. b \<in> L \<Longrightarrow> blockno (bufs s b) \<noteq> bn"
  shows "\<exists>b. bread d bn s = Inr (b, got d bn P p b s) \<and> can_get d bn s b \<and> b \<notin> L"
proof -
  have h: "held s = {}" "curproc s = Some p" using inv by (simp_all add: bcache_inv_def)
  have unl: "\<not> sk_locked (slocks s b)" if "b \<in> set (bcache_list s)" "b \<notin> L" for b
    using inv that by (auto simp: bcache_inv_def)
  show ?thesis
  proof (cases "bget_scan d bn s")
    case (Some b)
    then have c: "cached d bn s b" using bget_scan_Some [OF inv] by blast
    then have nL: "b \<notin> L" and b: "b \<in> set (bcache_list s)" using free by (auto simp: cached_def)
    have ok: "buf_ok d P L (disk s) b (bufs s b)" using inv_buf [OF inv b] .
    have scan: "bget_scan d bn (s\<lparr>held := {L_bcache}\<rparr>) = Some b" using Some by (simp add: bget_scan_def)
    have "bread d bn s = Inr (b, got d bn P p b s)"
      using h unl [OF b nL] ok nL c scan Some
      by (cases "bufs s b", cases s)
         (auto simp: bread_def bget_def upd_buf_def Let_def acquiresleep_free [of _ p] got_def virtio_disk_rw_def
           block_view_def buf_ok_def pinned_def cached_def)
    then show ?thesis using c nL by (auto simp: can_get_def)
  next
    case None
    obtain b where lru: "bget_lru s = Some b" and b: "b \<in> set (bcache_list s)" "refcnt (bufs s b) = 0"
      using bget_lru_free [OF assms(1-3)] by blast
    have nL: "b \<notin> L" using refcnt_0 [OF inv_buf [OF inv b(1)]] b(2) by simp
    have nP: "bn \<notin> P" using inv None by (auto simp: bcache_inv_def bget_scan_None)
    have scan: "bget_scan d bn (s\<lparr>held := {L_bcache}\<rparr>) = None" "bget_lru (s\<lparr>held := {L_bcache}\<rparr>) = Some b"
      using None lru by (simp_all add: bget_scan_def bget_lru_def)
    have "bread d bn s = Inr (b, got d bn P p b s)"
      using h unl [OF b(1) nL] nP scan None
      by (cases "bufs s b", cases s)
         (auto simp: bread_def bget_def upd_buf_def Let_def acquiresleep_free [of _ p] got_def virtio_disk_rw_def
           block_view_def)
    moreover have "can_get d bn s b" using None b by (auto simp: can_get_def bget_scan_None)
    ultimately show ?thesis using nL by blast
  qed
qed

lemma got_simps:
  "bcache_list (got d bn P p b s) = bcache_list s" "disk (got d bn P p b s) = disk s"
  "held (got d bn P p b s) = held s" "curproc (got d bn P p b s) = curproc s"
  "procs (got d bn P p b s) = procs s" "bcache_count (got d bn P p b s) = bcache_count s"
  "dwrites (got d bn P p b s) = dwrites s"
  "bufs (got d bn P p b s) c = (if c = b then \<lparr>valid = True, dev = d, blockno = bn,
     refcnt = 1 + of_bool (bn \<in> P), data = block_view d s bn\<rparr> else bufs s c)"
  "slocks (got d bn P p b s) c = (if c = b then \<lparr>sk_locked = True, sk_pid = pid (procs s p)\<rparr> else slocks s c)"
  by (simp_all add: got_def)

lemma can_get_in: "can_get d bn s b \<Longrightarrow> b \<in> set (bcache_list s)"
  by (auto simp: can_get_def cached_def)

lemma cached_got:
  assumes inv: "bcache_inv d p P L s" and get: "can_get d bn s b"
  shows "cached d bn' (got d bn P p b s) c \<longleftrightarrow>
    (if bn' = bn then c = b else cached d bn' s c \<and> c \<noteq> b)"
proof (cases "c = b")
  case True
  then show ?thesis using can_get_in [OF get] by (simp add: cached_def got_simps)
next
  case False
  have "\<not> cached d bn s c"
  proof
    assume c: "cached d bn s c"
    then have "cached d bn s b" using get by (auto simp: can_get_def)
    then show False using inv_uniq [OF inv c] False by blast
  qed
  then show ?thesis using False by (simp add: cached_def got_simps)
qed

lemma got_inv:
  assumes inv: "bcache_inv d p P L s" and get: "can_get d bn s b" and nL: "b \<notin> L"
  shows "bcache_inv d p P (insert b L) (got d bn P p b s)"
proof (rule bcache_invI, unfold got_simps)
  note D = bcache_invD [OF inv] and b = can_get_in [OF get]
  show "held s = {}" "curproc s = Some p" "distinct (bcache_list s)" "bcache_count s \<le> int NBUF"
    "length (disk s bn') = BSIZE" for bn' by (fact D)+
  show "insert b L \<subseteq> set (bcache_list s)" using D(5) b by simp
  fix c assume c: "c \<in> set (bcache_list s)"
  show "buf_ok d P (insert b L) (disk s) c (if c = b then \<lparr>valid = True, dev = d, blockno = bn,
      refcnt = 1 + of_bool (bn \<in> P), data = block_view d s bn\<rparr> else bufs s c)"
    using inv_buf [OF inv c] length_block_view [OF inv, of bn] by (simp add: buf_ok_def pinned_def)
  show "sk_locked (if c = b then \<lparr>sk_locked = True, sk_pid = pid (procs s p)\<rparr> else slocks s c) = (c \<in> insert b L)"
    using D(7) [OF c] by simp
next
  fix c assume "c \<in> insert b L"
  then show "sk_pid (if c = b then \<lparr>sk_locked = True, sk_pid = pid (procs s p)\<rparr> else slocks s c) = pid (procs s p)"
    using bcache_invD(8) [OF inv] by auto
next
  fix x y bn'
  assume "cached d bn' (got d bn P p b s) x" "cached d bn' (got d bn P p b s) y"
  then show "x = y"
    using inv_uniq [OF inv, of bn' x y] cached_got [OF inv get] by (simp split: if_splits)
next
  fix bn' assume P: "bn' \<in> P"
  obtain c where c: "cached d bn' s c" using bcache_invD(9) [OF inv P] by blast
  have "bn' \<noteq> bn \<Longrightarrow> c \<noteq> b"
  proof
    assume "bn' \<noteq> bn" and "c = b"
    then have "refcnt (bufs s b) = 0" using get c by (auto simp: can_get_def cached_def)
    then have "\<not> pinned d P (bufs s b)" using refcnt_0 [OF inv_buf [OF inv can_get_in [OF get]]] by simp
    then show False using c P \<open>c = b\<close> by (simp add: pinned_def cached_def)
  qed
  then show "\<exists>c. cached d bn' (got d bn P p b s) c"
    using c cached_got [OF inv get, of bn'] by (cases "bn' = bn") auto
qed

lemma block_view_eqI:
  assumes inv: "bcache_inv d p P L s" and inv': "bcache_inv d p P' L' t" and "disk t bn = disk s bn"
    and c: "\<And>c. cached d bn t c \<and> valid (bufs t c) \<longleftrightarrow> cached d bn s c \<and> valid (bufs s c)"
    and eq: "\<And>c. cached d bn s c \<Longrightarrow> valid (bufs s c) \<Longrightarrow> data (bufs t c) = data (bufs s c)"
  shows "block_view d t bn = block_view d s bn"
proof (cases "\<exists>c. cached d bn s c \<and> valid (bufs s c)")
  case True
  then obtain x where x: "cached d bn s x" "valid (bufs s x)" by blast
  then have y: "cached d bn t x" "valid (bufs t x)" using c [of x] by blast+
  show ?thesis
    unfolding block_view_cached [OF inv x] block_view_cached [OF inv' y] by (rule eq [OF x])
next
  case False
  have "block_view d s bn = disk s bn" using False by (intro block_view_disk [OF inv]) blast
  moreover have "block_view d t bn = disk t bn" using False c by (intro block_view_disk [OF inv']) blast
  ultimately show ?thesis using assms(3) by simp
qed

lemma got_view:
  assumes inv: "bcache_inv d p P L s" and get: "can_get d bn s b" and nL: "b \<notin> L"
  shows "block_view d (got d bn P p b s) = block_view d s"
proof
  fix bn'
  note inv' = got_inv [OF assms] and C = cached_got [OF inv get]
  consider "bn' = bn" | "bn' \<noteq> bn" "cached d bn' s b" | "bn' \<noteq> bn" "\<not> cached d bn' s b" by blast
  then show "block_view d (got d bn P p b s) bn' = block_view d s bn'"
  proof cases
    case 1
    have "cached d bn (got d bn P p b s) b" using C [of bn b] by simp
    from block_view_cached [OF inv' this] show ?thesis by (simp add: got_simps 1)
  next
    case 2
    have "refcnt (bufs s b) = 0" using get 2 by (auto simp: can_get_def cached_def)
    then have np: "\<not> pinned d P (bufs s b)" using refcnt_0 [OF inv_buf [OF inv can_get_in [OF get]]] by simp
    have "block_view d s bn' = disk s bn'"
    proof (cases "valid (bufs s b)")
      case True
      then show ?thesis
        using block_view_cached [OF inv 2(2) True] inv_buf [OF inv can_get_in [OF get]] np nL 2(2)
        by (simp add: buf_ok_def pinned_def cached_def)
    next
      case False
      show ?thesis
        by (rule block_view_disk [OF inv]) (use inv_uniq [OF inv 2(2)] False in blast)
    qed
    moreover have "\<not> cached d bn' (got d bn P p b s) c" for c
      using C [of bn' c] 2(1) inv_uniq [OF inv 2(2), of c] by metis
    then have "block_view d (got d bn P p b s) bn' = disk (got d bn P p b s) bn'"
      by (intro block_view_disk [OF inv']) blast
    ultimately show ?thesis by (simp only: got_simps)
  next
    case 3
    have eq: "bufs (got d bn P p b s) c = bufs s c" if "cached d bn' s c" for c
      using 3(2) that by (auto simp: got_simps)
    have c: "cached d bn' (got d bn P p b s) c \<longleftrightarrow> cached d bn' s c" for c
      using C [of bn' c] 3 by auto
    show ?thesis
    proof (rule block_view_eqI [OF inv inv'])
      show "disk (got d bn P p b s) bn' = disk s bn'" by (simp only: got_simps)
      show "cached d bn' (got d bn P p b s) c \<and> valid (bufs (got d bn P p b s) c) \<longleftrightarrow>
        cached d bn' s c \<and> valid (bufs s c)" for c
        using eq [of c] unfolding c by metis
      show "data (bufs (got d bn P p b s) c) = data (bufs s c)" if "cached d bn' s c" for c
        using eq [OF that] by metis
    qed
  qed
qed

text \<open>Releasing the locked buffer \<open>b\<close>, and writing the buffer to disk.\<close>

definition put :: "addr \<Rightarrow> 'z bio_st_scheme \<Rightarrow> 'z bio_st_scheme" where
  "put b s =
     s\<lparr>slocks := (slocks s)(b := \<lparr>sk_locked = False, sk_pid = 0\<rparr>), procs := wake_all b s,
       bufs := (bufs s)(b := (bufs s b)\<lparr>refcnt := refcnt (bufs s b) - 1\<rparr>),
       bcache_list := (if refcnt (bufs s b) = 1 then b # remove1 b (bcache_list s) else bcache_list s)\<rparr>"

lemma put_simps:
  "disk (put b s) = disk s" "held (put b s) = held s" "curproc (put b s) = curproc s"
  "procs (put b s) = wake_all b s" "bcache_count (put b s) = bcache_count s" "dwrites (put b s) = dwrites s"
  "bufs (put b s) c = (if c = b then (bufs s b)\<lparr>refcnt := refcnt (bufs s b) - 1\<rparr> else bufs s c)"
  "slocks (put b s) c = (if c = b then \<lparr>sk_locked = False, sk_pid = 0\<rparr> else slocks s c)"
  by (simp_all add: put_def)

lemma set_put: "b \<in> set (bcache_list s) \<Longrightarrow> distinct (bcache_list s) \<Longrightarrow>
  set (bcache_list (put b s)) = set (bcache_list s) \<and> distinct (bcache_list (put b s)) \<and>
  length (bcache_list (put b s)) = length (bcache_list s)"
  by (cases "bcache_list s = []") (auto simp: put_def length_remove1)

lemma shrink_none: "bcache_count s \<le> int NBUF \<Longrightarrow> brelse_shrink ts b s = Inr s"
  by (cases ts) simp_all

lemma brelse_put:
  assumes inv: "bcache_inv d p P L s" and b: "b \<in> L"
  shows "brelse b s = Inr (put b s)"
proof -
  note D = bcache_invD [OF inv]
  have in': "b \<in> set (bcache_list s)" using D(5) b by blast
  have h: "holdingsleep b s = Inr (True, s)"
    using holdingsleep_eq [OF D(1, 2)] D(7) [OF in'] D(8) [OF b] b by simp
  let ?s = "s\<lparr>slocks := (slocks s)(b := \<lparr>sk_locked = False, sk_pid = 0\<rparr>), procs := wake_all b s\<rparr>"
  have c: "bcache_count s \<le> int NBUF" by (fact D)
  have u: "refcnt_update (\<lambda>n. n - 1) r = r\<lparr>refcnt := refcnt r - 1\<rparr>" for r :: buf by (cases r) simp
  have "refcnt (bufs s b) - 1 = 0 \<longleftrightarrow> refcnt (bufs s b) = 1" by simp
  then show ?thesis
    using D(1) c
    by (simp add: brelse_def h releasesleep_eq [OF D(1)] Let_def upd_buf_def shrink_none put_def
        split del: if_split) (cases s, simp add: shrink_none u)
qed

lemma cached_put:
  assumes "b \<in> set (bcache_list s)" and "distinct (bcache_list s)"
  shows "cached d bn (put b s) c = cached d bn s c"
  using set_put [OF assms] by (simp add: cached_def put_simps)

lemma put_inv:
  assumes inv: "bcache_inv d p P L s" and b: "b \<in> L"
    and clean: "blockno (bufs s b) \<notin> P \<Longrightarrow> data (bufs s b) = disk s (blockno (bufs s b))"
  shows "bcache_inv d p P (L - {b}) (put b s)"
proof -
  note D = bcache_invD [OF inv]
  have in': "b \<in> set (bcache_list s)" using D(5) b by blast
  note S = set_put [OF in' D(3)] and C = cached_put [OF in' D(3)]
  show ?thesis
  proof (rule bcache_invI, unfold put_simps C)
    show "held s = {}" "curproc s = Some p" "bcache_count s \<le> int NBUF" "length (disk s bn) = BSIZE" for bn
      by (fact D)+
    show "distinct (bcache_list (put b s))" using S by simp
    show "L - {b} \<subseteq> set (bcache_list (put b s))" using S D(5) by blast
    fix c assume "c \<in> set (bcache_list (put b s))"
    then have c: "c \<in> set (bcache_list s)" using S by simp
    show "buf_ok d P (L - {b}) (disk s) c (if c = b then (bufs s b)\<lparr>refcnt := refcnt (bufs s b) - 1\<rparr> else bufs s c)"
      using inv_buf [OF inv c] b clean by (cases "c = b") (auto simp: buf_ok_def pinned_def)
    show "sk_locked (if c = b then \<lparr>sk_locked = False, sk_pid = 0\<rparr> else slocks s c) = (c \<in> L - {b})"
      using D(7) [OF c] by simp
  next
    fix c assume "c \<in> L - {b}"
    then show "sk_pid (if c = b then \<lparr>sk_locked = False, sk_pid = 0\<rparr> else slocks s c) = pid (wake_all b s p)"
      using D(8) [of c] by simp
  next
    fix x y bn assume "cached d bn s x" "cached d bn s y"
    then show "x = y" using inv_uniq [OF inv] by blast
  next
    fix bn assume "bn \<in> P" then show "\<exists>c. cached d bn s c" by (rule D(9))
  qed
qed

lemma put_view:
  assumes inv: "bcache_inv d p P L s" and b: "b \<in> L" and inv': "bcache_inv d p P (L - {b}) (put b s)"
  shows "block_view d (put b s) = block_view d s"
proof
  fix bn
  note D = bcache_invD [OF inv]
  have in': "b \<in> set (bcache_list s)" using D(5) b by blast
  show "block_view d (put b s) bn = block_view d s bn"
    by (rule block_view_eqI [OF inv inv']) (simp_all add: put_simps cached_put [OF in' D(3)])
qed

lemma locked_cached: "bcache_inv d p P L s \<Longrightarrow> b \<in> L \<Longrightarrow> cached d (blockno (bufs s b)) s b \<and> valid (bufs s b)"
  using bcache_invD(5) [of d p P L s] inv_buf [of d p P L s b] by (auto simp: cached_def buf_ok_def)

lemma cached_same:
  assumes "bcache_list t = bcache_list s"
    and "\<And>c. dev (bufs t c) = dev (bufs s c) \<and> blockno (bufs t c) = blockno (bufs s c)"
  shows "cached d bn t c = cached d bn s c"
  using assms by (simp add: cached_def)

text \<open>Changing the data of a locked buffer.\<close>

definition fill :: "addr \<Rightarrow> block \<Rightarrow> 'z bio_st_scheme \<Rightarrow> 'z bio_st_scheme" where
  "fill b v s = upd_buf b (data_update (\<lambda>_. v)) s"

lemma fill_simps:
  "bcache_list (fill b v s) = bcache_list s" "disk (fill b v s) = disk s" "held (fill b v s) = held s"
  "curproc (fill b v s) = curproc s" "procs (fill b v s) = procs s" "slocks (fill b v s) = slocks s"
  "bcache_count (fill b v s) = bcache_count s" "dwrites (fill b v s) = dwrites s"
  "bufs (fill b v s) c = (if c = b then (bufs s b)\<lparr>data := v\<rparr> else bufs s c)"
  by (simp_all add: fill_def upd_buf_def)

lemma cached_fill: "cached d bn (fill b v s) c = cached d bn s c"
  by (simp add: cached_def fill_simps)

lemma fill_inv:
  assumes inv: "bcache_inv d p P L s" and "b \<in> L" and "length v = BSIZE"
  shows "bcache_inv d p P L (fill b v s)"
proof (rule bcache_invI, unfold fill_simps cached_fill)
  note D = bcache_invD [OF inv]
  show "held s = {}" "curproc s = Some p" "distinct (bcache_list s)" "bcache_count s \<le> int NBUF"
    "L \<subseteq> set (bcache_list s)" "length (disk s bn) = BSIZE"
    "b \<in> set (bcache_list s) \<Longrightarrow> sk_locked (slocks s b) = (b \<in> L)"
    "b \<in> L \<Longrightarrow> sk_pid (slocks s b) = pid (procs s p)"
    "bn \<in> P \<Longrightarrow> \<exists>b. cached d bn s b" for b bn by (fact D)+
  show "x = y" if "cached d bn s x" "cached d bn s y" for x y bn using inv_uniq [OF inv that] .
  fix c assume c: "c \<in> set (bcache_list s)"
  show "buf_ok d P L (disk s) c (if c = b then (bufs s b)\<lparr>data := v\<rparr> else bufs s c)"
    using inv_buf [OF inv c] assms(2, 3) by (cases "c = b") (auto simp: buf_ok_def pinned_def)
qed

lemma fill_view:
  assumes inv: "bcache_inv d p P L s" and b: "b \<in> L" and v: "length v = BSIZE"
  shows "block_view d (fill b v s) = (block_view d s)(blockno (bufs s b) := v)"
proof
  fix bn
  note inv' = fill_inv [OF assms]
  note c = locked_cached [OF inv b]
  show "block_view d (fill b v s) bn = ((block_view d s)(blockno (bufs s b) := v)) bn"
  proof (cases "bn = blockno (bufs s b)")
    case True
    have "cached d (blockno (bufs s b)) (fill b v s) b" using c by (simp add: cached_fill)
    from block_view_cached [OF inv' this] c show ?thesis by (simp add: fill_simps True)
  next
    case False
    then have "cached d bn s x \<Longrightarrow> x \<noteq> b" for x by (auto simp: cached_def)
    then have "block_view d (fill b v s) bn = block_view d s bn"
      by (intro block_view_eqI [OF inv inv']) (auto simp: cached_fill fill_simps)
    then show ?thesis using False by simp
  qed
qed

text \<open>Writing a locked buffer to the disk.\<close>

lemma rw_simps:
  "bcache_list (virtio_disk_rw b True s) = bcache_list s" "held (virtio_disk_rw b True s) = held s"
  "curproc (virtio_disk_rw b True s) = curproc s" "procs (virtio_disk_rw b True s) = procs s"
  "slocks (virtio_disk_rw b True s) = slocks s" "bufs (virtio_disk_rw b True s) = bufs s"
  "bcache_count (virtio_disk_rw b True s) = bcache_count s"
  "disk (virtio_disk_rw b True s) = (disk s)(blockno (bufs s b) := data (bufs s b))"
  "dwrites (virtio_disk_rw b True s) = dwrites s @ [(blockno (bufs s b), data (bufs s b))]"
  by (simp_all add: virtio_disk_rw_def Let_def)

lemma bwrite_rw:
  assumes inv: "bcache_inv d p P L s" and b: "b \<in> L"
  shows "bwrite b s = Inr (virtio_disk_rw b True s)"
proof -
  note D = bcache_invD [OF inv]
  have "holdingsleep b s = Inr (True, s)"
    using holdingsleep_eq [OF D(1, 2)] D(5) D(7) [of b] D(8) [OF b] b by auto
  then show ?thesis by (simp add: bwrite_def)
qed

lemma cached_rw: "cached d bn (virtio_disk_rw b True s) c = cached d bn s c"
  by (simp add: cached_def rw_simps)

lemma rw_inv:
  assumes inv: "bcache_inv d p P L s" and b: "b \<in> L"
  shows "bcache_inv d p P L (virtio_disk_rw b True s)"
proof (rule bcache_invI, unfold rw_simps cached_rw)
  note D = bcache_invD [OF inv]
  show "held s = {}" "curproc s = Some p" "distinct (bcache_list s)" "bcache_count s \<le> int NBUF"
    "L \<subseteq> set (bcache_list s)"
    "b \<in> set (bcache_list s) \<Longrightarrow> sk_locked (slocks s b) = (b \<in> L)"
    "b \<in> L \<Longrightarrow> sk_pid (slocks s b) = pid (procs s p)"
    "bn \<in> P \<Longrightarrow> \<exists>b. cached d bn s b" for b bn by (fact D)+
  have in': "b \<in> set (bcache_list s)" using D(5) b by blast
  show "length (((disk s)(blockno (bufs s b) := data (bufs s b))) bn) = BSIZE" for bn
    using D(6) inv_buf [OF inv in'] by (simp add: buf_ok_def)
  show "x = y" if "cached d bn s x" "cached d bn s y" for x y bn using inv_uniq [OF inv that] .
  fix c assume c: "c \<in> set (bcache_list s)"
  have "c = b" if "dev (bufs s c) = d" "blockno (bufs s c) = blockno (bufs s b)"
    using inv_uniq [OF inv _ conjunct1 [OF locked_cached [OF inv b]], of c] c that by (simp add: cached_def)
  then show "buf_ok d P L ((disk s)(blockno (bufs s b) := data (bufs s b))) c (bufs s c)"
    using inv_buf [OF inv c] b by (auto simp: buf_ok_def)
qed

lemma rw_view:
  assumes inv: "bcache_inv d p P L s" and b: "b \<in> L"
  shows "block_view d (virtio_disk_rw b True s) = block_view d s"
proof
  fix bn
  note inv' = rw_inv [OF assms] and c = locked_cached [OF assms]
  show "block_view d (virtio_disk_rw b True s) bn = block_view d s bn"
  proof (cases "bn = blockno (bufs s b)")
    case True
    have "cached d bn (virtio_disk_rw b True s) b" using c by (simp add: cached_rw True)
    from block_view_cached [OF inv' this] block_view_cached [OF inv, of bn b] c show ?thesis
      by (simp add: rw_simps True)
  next
    case False
    then show ?thesis by (intro block_view_eqI [OF inv inv']) (auto simp: cached_rw rw_simps)
  qed
qed

text \<open>Unpinning the block of a locked buffer.\<close>

definition unpin :: "addr \<Rightarrow> 'z bio_st_scheme \<Rightarrow> 'z bio_st_scheme" where
  "unpin b s = upd_buf b (refcnt_update (\<lambda>n. n - 1)) s"

lemma unpin_simps:
  "bcache_list (unpin b s) = bcache_list s" "disk (unpin b s) = disk s" "held (unpin b s) = held s"
  "curproc (unpin b s) = curproc s" "procs (unpin b s) = procs s" "slocks (unpin b s) = slocks s"
  "bcache_count (unpin b s) = bcache_count s" "dwrites (unpin b s) = dwrites s"
  "bufs (unpin b s) c = (if c = b then (bufs s b)\<lparr>refcnt := refcnt (bufs s b) - 1\<rparr> else bufs s c)"
  by (cases "bufs s b", simp_all add: unpin_def upd_buf_def)

lemma cached_unpin: "cached d bn (unpin b s) c = cached d bn s c"
  by (simp add: cached_def unpin_simps)

lemma bunpin_unpin: "held s = {} \<Longrightarrow> bunpin b s = Inr (unpin b s)"
  by (simp add: bunpin_def unpin_def upd_buf_def)

lemma unpin_inv:
  assumes inv: "bcache_inv d p P L s" and b: "b \<in> L" and P: "blockno (bufs s b) \<in> P"
  shows "bcache_inv d p (P - {blockno (bufs s b)}) L (unpin b s)"
proof (rule bcache_invI, unfold unpin_simps cached_unpin)
  note D = bcache_invD [OF inv]
  show "held s = {}" "curproc s = Some p" "distinct (bcache_list s)" "bcache_count s \<le> int NBUF"
    "L \<subseteq> set (bcache_list s)" "length (disk s bn) = BSIZE"
    "b \<in> set (bcache_list s) \<Longrightarrow> sk_locked (slocks s b) = (b \<in> L)"
    "b \<in> L \<Longrightarrow> sk_pid (slocks s b) = pid (procs s p)" for b bn by (fact D)+
  show "x = y" if "cached d bn s x" "cached d bn s y" for x y bn using inv_uniq [OF inv that] .
  show "\<exists>c. cached d bn s c" if "bn \<in> P - {blockno (bufs s b)}" for bn using that D(9) by blast
  fix c assume c: "c \<in> set (bcache_list s)"
  have "c = b" if "dev (bufs s c) = d" "blockno (bufs s c) = blockno (bufs s b)"
    using inv_uniq [OF inv _ conjunct1 [OF locked_cached [OF inv b]], of c] c that by (simp add: cached_def)
  then show "buf_ok d (P - {blockno (bufs s b)}) L (disk s) c
      (if c = b then (bufs s b)\<lparr>refcnt := refcnt (bufs s b) - 1\<rparr> else bufs s c)"
    using inv_buf [OF inv c] b P locked_cached [OF inv b]
    by (cases "c = b") (auto simp: buf_ok_def pinned_def cached_def)
qed

lemma unpin_view:
  assumes "bcache_inv d p P L s" and "bcache_inv d p P' L (unpin b s)"
  shows "block_view d (unpin b s) = block_view d s"
  by (rule ext, rule block_view_eqI [OF assms]) (simp_all add: cached_unpin unpin_simps)

lemma view_unpinned:
  assumes inv: "bcache_inv d p P L s" and "bn \<notin> P" and "\<And>b. b \<in> L \<Longrightarrow> blockno (bufs s b) \<noteq> bn"
  shows "block_view d s bn = disk s bn"
proof (cases "\<exists>b. cached d bn s b \<and> valid (bufs s b)")
  case True
  then obtain b where b: "cached d bn s b" "valid (bufs s b)" by blast
  then have "data (bufs s b) = disk s bn"
    using inv_buf [OF inv, of b] assms(2) assms(3) [of b] by (auto simp: cached_def buf_ok_def)
  then show ?thesis using block_view_cached [OF inv b] by simp
next
  case False
  then show ?thesis by (intro block_view_disk [OF inv]) blast
qed

text \<open>The fields the operations leave alone, and the number of buffers.\<close>

definition same_rest :: "'z bio_st_scheme \<Rightarrow> 'z bio_st_scheme \<Rightarrow> bool" where
  "same_rest t s \<longleftrightarrow> bio_st.more t = bio_st.more s \<and> length (bcache_list t) = length (bcache_list s)"

lemma same_rest_refl [simp]: "same_rest s s"
  by (simp add: same_rest_def)

lemma same_rest_trans [trans]: "same_rest u t \<Longrightarrow> same_rest t s \<Longrightarrow> same_rest u s"
  by (simp add: same_rest_def)

lemma same_rest_ops:
  "same_rest (got d bn P p b s) s" "same_rest (fill b v s) s" "same_rest (virtio_disk_rw b True s) s"
  "same_rest (unpin b s) s"
  by (cases s, simp add: same_rest_def got_def fill_def upd_buf_def virtio_disk_rw_def unpin_def Let_def)+

lemma same_rest_put: "b \<in> set (bcache_list s) \<Longrightarrow> distinct (bcache_list s) \<Longrightarrow> same_rest (put b s) s"
  using set_put [of b s] by (cases s) (simp add: same_rest_def put_def)



end
