(* ===== verification/Log.thy ===== *)
theory Log
  imports Bio
begin

text \<open>
  The redo log of the file system, \<^verbatim>\<open>kernel/log.c\<close>. The log header on disk is the block \<open>lg_start\<close>, the
  logged blocks follow it. \<open>begin_op\<close> in a run on its own is the failure \<open>Block\<close> where the code sleeps.
\<close>

section \<open>Fields of a block\<close>

text \<open>Little-endian fields of a disk block, as the casts of \<^verbatim>\<open>b->data\<close> to structures read and write them.\<close>

definition get16 :: "block \<Rightarrow> nat \<Rightarrow> 16 word" where
  "get16 d i = ucast (d ! i) OR push_bit 8 (ucast (d ! (i + 1)))"

definition put16 :: "nat \<Rightarrow> 16 word \<Rightarrow> block \<Rightarrow> block" where
  "put16 i v d = d[i := ucast v, i + 1 := ucast (drop_bit 8 v)]"

definition get32 :: "block \<Rightarrow> nat \<Rightarrow> uint32" where
  "get32 d i =
     ucast (d ! i) OR push_bit 8 (ucast (d ! (i + 1))) OR
     push_bit 16 (ucast (d ! (i + 2))) OR push_bit 24 (ucast (d ! (i + 3)))"

definition put32 :: "nat \<Rightarrow> uint32 \<Rightarrow> block \<Rightarrow> block" where
  "put32 i v d =
     d[i := ucast v, i + 1 := ucast (drop_bit 8 v), i + 2 := ucast (drop_bit 16 v),
       i + 3 := ucast (drop_bit 24 v)]"

text \<open>Arrays of 32-bit fields.\<close>

primrec get_addrs :: "nat \<Rightarrow> nat \<Rightarrow> block \<Rightarrow> uint32 list" where
  "get_addrs 0 i d = []"
| "get_addrs (Suc k) i d = get32 d i # get_addrs k (i + 4) d"

primrec put_addrs :: "uint32 list \<Rightarrow> nat \<Rightarrow> block \<Rightarrow> block" where
  "put_addrs [] i d = d"
| "put_addrs (a # as) i d = put_addrs as (i + 4) (put32 i a d)"

section \<open>The log\<close>

record logheader =
  lh_n :: int
  lh_block :: "uint32 list"

record log_st = bio_st +
  lg_addr :: addr
  lg_start :: uint32
  outstanding :: int
  committing :: bool
  lg_dev :: uint32
  lh :: logheader

abbreviation set_lh_n :: "int \<Rightarrow> 'z log_st_scheme \<Rightarrow> 'z log_st_scheme" where
  "set_lh_n n s \<equiv> s\<lparr>lh := (lh s)\<lparr>lh_n := n\<rparr>\<rparr>"

text \<open>\<^verbatim>\<open>log.lh.block[i]\<close>, with the bounds of the array.\<close>

definition lh_get :: "nat \<Rightarrow> 'z log_st_scheme \<Rightarrow> uint32 res" where
  "lh_get i s = (if i < LOGBLOCKS then Inr (lh_block (lh s) ! i) else Inl (Fault ''log.lh.block''))"

primrec install_loop :: "nat \<Rightarrow> nat \<Rightarrow> bool \<Rightarrow> 'z log_st_scheme \<Rightarrow> 'z log_st_scheme res" where
  "install_loop 0 tail recovering s = Inr s"
| "install_loop (Suc k) tail recovering s =
     bindR (bread (lg_dev s) (lg_start s + of_nat tail + 1) s) (\<lambda>(lbuf, s).
     bindR (lh_get tail s) (\<lambda>dst.
     bindR (bread (lg_dev s) dst s) (\<lambda>(dbuf, s).
     let s = upd_buf dbuf (data_update (\<lambda>_. data (bufs s lbuf))) s in
     bindR (bwrite dbuf s) (\<lambda>s.
     bindR (if recovering then Inr s else bunpin dbuf s) (\<lambda>s.
     bindR (brelse lbuf s) (\<lambda>s.
     bindR (brelse dbuf s) (\<lambda>s.
     install_loop k (Suc tail) recovering s)))))))"

definition install_trans :: "bool \<Rightarrow> 'z log_st_scheme \<Rightarrow> 'z log_st_scheme res" where
  "install_trans recovering s = install_loop (nat (lh_n (lh s))) 0 recovering s"

primrec read_head_loop :: "nat \<Rightarrow> nat \<Rightarrow> block \<Rightarrow> 'z log_st_scheme \<Rightarrow> 'z log_st_scheme res" where
  "read_head_loop 0 i d s = Inr s"
| "read_head_loop (Suc k) i d s =
     (if i < LOGBLOCKS
      then read_head_loop k (Suc i) d
             (s\<lparr>lh := (lh s)\<lparr>lh_block := (lh_block (lh s))[i := get32 d (4 + 4 * i)]\<rparr>\<rparr>)
      else Inl (Fault ''log.lh.block''))"

definition read_head :: "'z log_st_scheme \<Rightarrow> 'z log_st_scheme res" where
  "read_head s =
     bindR (bread (lg_dev s) (lg_start s) s) (\<lambda>(b, s).
     let d = data (bufs s b);
         s = set_lh_n (sint (get32 d 0)) s
     in bindR (read_head_loop (nat (lh_n (lh s))) 0 d s) (\<lambda>s. brelse b s))"

primrec write_head_loop :: "nat \<Rightarrow> nat \<Rightarrow> addr \<Rightarrow> 'z log_st_scheme \<Rightarrow> 'z log_st_scheme res" where
  "write_head_loop 0 i b s = Inr s"
| "write_head_loop (Suc k) i b s =
     bindR (lh_get i s) (\<lambda>v.
     write_head_loop k (Suc i) b (upd_buf b (data_update (put32 (4 + 4 * i) v)) s))"

definition write_head :: "'z log_st_scheme \<Rightarrow> 'z log_st_scheme res" where
  "write_head s =
     bindR (bread (lg_dev s) (lg_start s) s) (\<lambda>(b, s).
     let s = upd_buf b (data_update (put32 0 (word_of_int (lh_n (lh s))))) s in
     bindR (write_head_loop (nat (lh_n (lh s))) 0 b s) (\<lambda>s.
     bindR (bwrite b s) (\<lambda>s. brelse b s)))"

definition recover_from_log :: "'z log_st_scheme \<Rightarrow> 'z log_st_scheme res" where
  "recover_from_log s =
     bindR (read_head s) (\<lambda>s.
     bindR (install_trans True s) (\<lambda>s.
     write_head (set_lh_n 0 s)))"

text \<open>\<^verbatim>\<open>sizeof(struct logheader)\<close> is 124, so that the first check of the function passes.\<close>

definition initlog :: "uint32 \<Rightarrow> uint32 \<Rightarrow> 'z log_st_scheme \<Rightarrow> 'z log_st_scheme res" where
  "initlog d logstart s =
     (if 4 + 4 * LOGBLOCKS \<ge> BSIZE then Inl (Panic ''initlog: too big logheader'')
      else recover_from_log ((init_lock L_log s)\<lparr>lg_start := logstart, lg_dev := d\<rparr>))"

definition begin_op :: "'z log_st_scheme \<Rightarrow> 'z log_st_scheme res" where
  "begin_op s =
     bindR (acquire L_log s) (\<lambda>s.
     if committing s then Inl Block
     else if lh_n (lh s) + (outstanding s + 1) * int MAXOPBLOCKS > int LOGBLOCKS then Inl Block
     else release L_log (s\<lparr>outstanding := outstanding s + 1\<rparr>))"

primrec write_log_loop :: "nat \<Rightarrow> nat \<Rightarrow> 'z log_st_scheme \<Rightarrow> 'z log_st_scheme res" where
  "write_log_loop 0 tail s = Inr s"
| "write_log_loop (Suc k) tail s =
     bindR (bread (lg_dev s) (lg_start s + of_nat tail + 1) s) (\<lambda>(to, s).
     bindR (lh_get tail s) (\<lambda>src.
     bindR (bread (lg_dev s) src s) (\<lambda>(from, s).
     let s = upd_buf to (data_update (\<lambda>_. data (bufs s from))) s in
     bindR (bwrite to s) (\<lambda>s.
     bindR (brelse from s) (\<lambda>s.
     bindR (brelse to s) (\<lambda>s.
     write_log_loop k (Suc tail) s))))))"

definition write_log :: "'z log_st_scheme \<Rightarrow> 'z log_st_scheme res" where
  "write_log s = write_log_loop (nat (lh_n (lh s))) 0 s"

definition commit :: "'z log_st_scheme \<Rightarrow> 'z log_st_scheme res" where
  "commit s =
     (if lh_n (lh s) > 0
      then
        bindR (write_log s) (\<lambda>s.
        bindR (write_head s) (\<lambda>s.
        bindR (install_trans False s) (\<lambda>s.
        write_head (set_lh_n 0 s))))
      else Inr s)"

definition end_op :: "'z log_st_scheme \<Rightarrow> 'z log_st_scheme res" where
  "end_op s =
     bindR (acquire L_log s) (\<lambda>s.
     let s = s\<lparr>outstanding := outstanding s - 1\<rparr> in
     if committing s then Inl (Panic ''log.committing'')
     else if outstanding s = 0
     then
       bindR (release L_log (s\<lparr>committing := True\<rparr>)) (\<lambda>s.
       bindR (commit s) (\<lambda>s.
       bindR (acquire L_log s) (\<lambda>s.
       bindR (wakeup (lg_addr s) (s\<lparr>committing := False\<rparr>)) (\<lambda>s.
       release L_log s))))
     else bindR (wakeup (lg_addr s) s) (\<lambda>s. release L_log s))"

primrec log_find :: "nat \<Rightarrow> nat \<Rightarrow> uint32 \<Rightarrow> uint32 list \<Rightarrow> nat" where
  "log_find 0 i bn bs = i"
| "log_find (Suc k) i bn bs = (if bs ! i = bn then i else log_find k (Suc i) bn bs)"

definition log_write :: "addr \<Rightarrow> 'z log_st_scheme \<Rightarrow> 'z log_st_scheme res" where
  "log_write b s =
     bindR (acquire L_log s) (\<lambda>s.
     if lh_n (lh s) \<ge> int LOGBLOCKS then Inl (Panic ''too big a transaction'')
     else if outstanding s < 1 then Inl (Panic ''log_write outside of trans'')
     else
       (let i = log_find (nat (lh_n (lh s))) 0 (blockno (bufs s b)) (lh_block (lh s));
            s = s\<lparr>lh := (lh s)\<lparr>lh_block := (lh_block (lh s))[i := blockno (bufs s b)]\<rparr>\<rparr>
        in bindR
             (if int i = lh_n (lh s)
              then bindR (bpin b s) (\<lambda>s. Inr (set_lh_n (lh_n (lh s) + 1) s))
              else Inr s)
             (release L_log)))"

section \<open>Reading back a field\<close>

lemma length_put16 [simp]: "length (put16 i v d) = length d"
  by (simp add: put16_def)

lemma length_put32 [simp]: "length (put32 i v d) = length d"
  by (simp add: put32_def)

lemma nth_put16: "k \<noteq> i \<Longrightarrow> k \<noteq> i + 1 \<Longrightarrow> put16 i v d ! k = d ! k"
  by (simp add: put16_def)

lemma nth_put32: "k < i \<or> i + 4 \<le> k \<Longrightarrow> put32 i v d ! k = d ! k"
  by (auto simp: put32_def)

lemma get16_put16 [simp]:
  assumes "i + 2 \<le> length d" shows "get16 (put16 i v d) i = v"
proof -
  have "get16 (put16 i v d) i = ucast (ucast v :: byte) OR push_bit 8 (ucast (ucast (drop_bit 8 v) :: byte))"
    using assms by (simp add: get16_def put16_def)
  also have "\<dots> = v"
    by (rule bit_word_eqI) (auto simp: bit_simps)
  finally show ?thesis .
qed

lemma split32:
  "ucast (ucast v :: byte) OR push_bit 8 (ucast (ucast (drop_bit 8 v) :: byte)) OR
   push_bit 16 (ucast (ucast (drop_bit 16 v) :: byte)) OR push_bit 24 (ucast (ucast (drop_bit 24 v) :: byte)) =
   (v :: uint32)"
  by (rule bit_word_eqI, rename_tac n, case_tac "n < 16"; case_tac "n < 24") (auto simp: bit_simps)

lemma get32_put32 [simp]:
  assumes "i + 4 \<le> length d" shows "get32 (put32 i v d) i = v"
proof -
  have "get32 (put32 i v d) i = ucast (ucast v :: byte) OR push_bit 8 (ucast (ucast (drop_bit 8 v) :: byte)) OR
      push_bit 16 (ucast (ucast (drop_bit 16 v) :: byte)) OR push_bit 24 (ucast (ucast (drop_bit 24 v) :: byte))"
    using assms by (simp add: get32_def put32_def nth_list_update)
  also have "\<dots> = v"
    by (rule split32)
  finally show ?thesis .
qed

lemma get16_put16_other: "i + 2 \<le> j \<or> j + 2 \<le> i \<Longrightarrow> get16 (put16 i v d) j = get16 d j"
  by (auto simp: get16_def nth_put16)

lemma get16_put32_other: "i + 4 \<le> j \<or> j + 2 \<le> i \<Longrightarrow> get16 (put32 i v d) j = get16 d j"
  by (auto simp: get16_def nth_put32)

lemma get32_put16_other: "i + 2 \<le> j \<or> j + 4 \<le> i \<Longrightarrow> get32 (put16 i v d) j = get32 d j"
  by (auto simp: get32_def nth_put16)

lemma get32_put32_other: "i + 4 \<le> j \<or> j + 4 \<le> i \<Longrightarrow> get32 (put32 i v d) j = get32 d j"
  by (auto simp: get32_def nth_put32)

lemmas get_put_other = get16_put16_other get16_put32_other get32_put16_other get32_put32_other

lemma length_put_addrs [simp]: "length (put_addrs as i d) = length d"
  by (induction as arbitrary: i d) simp_all

lemma nth_put_addrs: "k < i \<or> i + 4 * length as \<le> k \<Longrightarrow> put_addrs as i d ! k = d ! k"
  by (induction as arbitrary: i d) (auto simp: nth_put32)

lemma get16_put_addrs: "j + 2 \<le> i \<Longrightarrow> get16 (put_addrs as i d) j = get16 d j"
  by (simp add: get16_def nth_put_addrs)

lemma get32_put_addrs: "j + 4 \<le> i \<Longrightarrow> get32 (put_addrs as i d) j = get32 d j"
  by (simp add: get32_def nth_put_addrs)

lemma get_addrs_put_addrs:
  "i + 4 * length as \<le> length d \<Longrightarrow> get_addrs (length as) i (put_addrs as i d) = as"
  by (induction as arbitrary: i d) (simp_all add: get32_put_addrs)

section \<open>Copying a block\<close>

definition apply_writes :: "(uint32 \<times> block) list \<Rightarrow> (uint32 \<Rightarrow> block) \<Rightarrow> uint32 \<Rightarrow> block" where
  "apply_writes ws f = fold (\<lambda>(bn, v) f. f(bn := v)) ws f"

lemma apply_writes_simps [simp]:
  "apply_writes [] f = f" "apply_writes ((bn, v) # ws) f = apply_writes ws (f(bn := v))"
  "apply_writes (ws @ ws') f = apply_writes ws' (apply_writes ws f)"
  by (simp_all add: apply_writes_def)

lemma apply_writes_other: "bn \<notin> fst ` set ws \<Longrightarrow> apply_writes ws f bn = f bn"
  by (induction ws arbitrary: f) auto

text \<open>
  The effect of a part of the log code that starts and ends with no buffer locked: it makes the writes \<open>ws\<close>,
  in this order, and they are what changes on the disk and in the cache. \<open>P\<close> and \<open>P'\<close> are the pinned blocks
  before and after.
\<close>

definition did ::
  "uint32 \<Rightarrow> nat \<Rightarrow> uint32 set \<Rightarrow> (uint32 \<times> block) list \<Rightarrow> 'z bio_st_scheme \<Rightarrow> 'z bio_st_scheme \<Rightarrow> bool"
where
  "did d p P' ws s t \<longleftrightarrow>
     bcache_inv d p P' {} t \<and> same_rest t s \<and> disk t = apply_writes ws (disk s) \<and>
     block_view d t = apply_writes ws (block_view d s) \<and> dwrites t = dwrites s @ ws"

lemma did_trans:
  "did d p P ws s t \<Longrightarrow> did d p P' ws' t u \<Longrightarrow> did d p P' (ws @ ws') s u"
  unfolding did_def by (auto intro: same_rest_trans)

lemma did_refl: "bcache_inv d p P {} s \<Longrightarrow> did d p P [] s s"
  by (simp add: did_def)

text \<open>Two buffers in use at once: what holds after the second \<^verbatim>\<open>bread\<close>.\<close>

lemma two_breads:
  assumes inv: "bcache_inv d p P {} s" and fin: "finite P" and room: "card P + 1 < length (bcache_list s)"
    and ne: "x \<noteq> y"
  obtains b c t where "bread d x s = Inr (b, got d x P p b s)"
    and "bread d y (got d x P p b s) = Inr (c, t)" and "b \<noteq> c"
    and "bcache_inv d p P {b, c} t" and "same_rest t s" and "disk t = disk s"
    and "block_view d t = block_view d s" and "dwrites t = dwrites s"
    and "blockno (bufs t b) = x" and "blockno (bufs t c) = y"
    and "data (bufs t b) = block_view d s x" and "data (bufs t c) = block_view d s y"
proof -
  obtain b where b: "bread d x s = Inr (b, got d x P p b s)" "can_get d x s b" "b \<notin> {}"
    using bread_got [OF inv fin, of x] room by auto
  let ?s = "got d x P p b s"
  note inv1 = got_inv [OF inv b(2, 3)] and view1 = got_view [OF inv b(2, 3)]
  obtain c where c: "bread d y ?s = Inr (c, got d y P p c ?s)" "can_get d y ?s c" "c \<notin> {b}"
    using bread_got [OF inv1 fin, of y] room ne by (auto simp: got_simps)
  let ?t = "got d y P p c ?s"
  have "bcache_inv d p P {b, c} ?t" using got_inv [OF inv1 c(2, 3)] by (simp add: insert_commute)
  moreover have "block_view d ?t = block_view d s" using got_view [OF inv1 c(2, 3)] view1 by simp
  moreover have "same_rest ?t s" using same_rest_trans [OF same_rest_ops(1) same_rest_ops(1)] by blast
  ultimately show thesis
    using that [OF b(1) c(1)] c(3) view1 by (auto simp: got_simps)
qed

text \<open>
  From there: copy the data of \<open>src\<close> to \<open>dst\<close> and write \<open>dst\<close>, unpin \<open>dst\<close> or not, and release both.
\<close>

lemma copy_release:
  assumes inv: "bcache_inv d p P {b, c} t" and ne: "b \<noteq> c" and bn: "blockno (bufs t b) \<noteq> blockno (bufs t c)"
    and clean: "blockno (bufs t c) \<notin> P \<Longrightarrow> data (bufs t c) = disk t (blockno (bufs t c))"
    and len: "length (data (bufs t c)) = BSIZE"
    and P': "P' = P \<or> blockno (bufs t b) \<in> P \<and> P' = P - {blockno (bufs t b)}"
  defines "t1 \<equiv> virtio_disk_rw b True (fill b (data (bufs t c)) t)"
  defines "t2 \<equiv> (if P' = P then t1 else unpin b t1)"
  shows "bwrite b (fill b (data (bufs t c)) t) = Inr t1"
    and "bcache_inv d p P' {b, c} t2" and "blockno (bufs t2 b) = blockno (bufs t b)"
    and "disk t2 = (disk t)(blockno (bufs t b) := data (bufs t c))"
    and "block_view d t2 = (block_view d t)(blockno (bufs t b) := data (bufs t c))"
    and "dwrites t2 = dwrites t @ [(blockno (bufs t b), data (bufs t c))]" and "same_rest t2 t"
    and "brelse c t2 = Inr (put c t2)" and "brelse b t2 = Inr (put b t2)"
    and "data (bufs t2 b) = data (bufs t c)" and "bufs t2 c = bufs t c"
proof -
  let ?v = "data (bufs t c)" and ?f = "fill b (data (bufs t c)) t"
  have invf: "bcache_inv d p P {b, c} ?f" using fill_inv [OF inv _ len, of b] by simp
  have viewf: "block_view d ?f = (block_view d t)(blockno (bufs t b) := ?v)" using fill_view [OF inv _ len, of b] by simp
  show "bwrite b ?f = Inr t1" unfolding t1_def using bwrite_rw [OF invf, of b] by simp
  have inv1: "bcache_inv d p P {b, c} t1" unfolding t1_def using rw_inv [OF invf, of b] by simp
  have view1: "block_view d t1 = block_view d ?f" unfolding t1_def using rw_view [OF invf, of b] by simp
  have s1: "bufs t1 b = (bufs t b)\<lparr>data := ?v\<rparr>" "bufs t1 c = bufs t c" "disk t1 = (disk t)(blockno (bufs t b) := ?v)"
    "dwrites t1 = dwrites t @ [(blockno (bufs t b), ?v)]" "same_rest t1 t"
    using ne same_rest_trans [OF same_rest_ops(3) same_rest_ops(2)] by (auto simp: t1_def rw_simps fill_simps)
  have "bcache_inv d p P' {b, c} t2 \<and> block_view d t2 = block_view d t1"
  proof (cases "P' = P")
    case False
    then have "blockno (bufs t1 b) \<in> P" "P' = P - {blockno (bufs t1 b)}" using P' s1(1) by auto
    then have "bcache_inv d p P' {b, c} (unpin b t1)" using unpin_inv [OF inv1, of b] by simp
    then show ?thesis using unpin_view [OF inv1] False by (simp add: t2_def)
  qed (use inv1 in \<open>simp add: t2_def\<close>)
  then show inv2: "bcache_inv d p P' {b, c} t2"
    and "block_view d t2 = (block_view d t)(blockno (bufs t b) := ?v)" using view1 viewf by simp_all
  show "blockno (bufs t2 b) = blockno (bufs t b)" "disk t2 = (disk t)(blockno (bufs t b) := ?v)"
    "dwrites t2 = dwrites t @ [(blockno (bufs t b), ?v)]" "data (bufs t2 b) = ?v" "bufs t2 c = bufs t c"
    using s1 ne by (simp_all add: t2_def unpin_simps)
  show "same_rest t2 t" using s1(5) same_rest_trans [OF same_rest_ops(4)] by (auto simp: t2_def)
  show "brelse c t2 = Inr (put c t2)" "brelse b t2 = Inr (put b t2)" using brelse_put [OF inv2] by simp_all
qed

definition buf_clean :: "uint32 set \<Rightarrow> addr \<Rightarrow> 'z bio_st_scheme \<Rightarrow> bool" where
  "buf_clean P b t \<longleftrightarrow> (blockno (bufs t b) \<notin> P \<longrightarrow> data (bufs t b) = disk t (blockno (bufs t b)))"

lemma release_one:
  assumes inv: "bcache_inv d p P L t" and b: "b \<in> L" and "buf_clean P b t"
  shows "brelse b t = Inr (put b t) \<and> bcache_inv d p P (L - {b}) (put b t) \<and> same_rest (put b t) t \<and>
    disk (put b t) = disk t \<and> block_view d (put b t) = block_view d t \<and> dwrites (put b t) = dwrites t"
proof -
  have i: "bcache_inv d p P (L - {b}) (put b t)"
    using assms(3) by (intro put_inv [OF inv b]) (simp add: buf_clean_def)
  have "b \<in> set (bcache_list t)" using bcache_invD(5) [OF inv] b by blast
  then show ?thesis
    using brelse_put [OF inv b] i put_view [OF inv b i] same_rest_put [OF _ bcache_invD(3) [OF inv]]
    by (simp add: put_simps)
qed

lemma release_two:
  assumes inv: "bcache_inv d p P {b, c} t" and ne: "b \<noteq> c" and "buf_clean P b t" and "buf_clean P c t"
  obtains v u where "brelse c t = Inr v" and "brelse b v = Inr u" and "did d p P [] t u"
proof -
  let ?u = "put c t"
  note r = release_one [OF inv _ assms(4)]
  have i: "bcache_inv d p P {b} ?u" using r ne by (simp add: insert_Diff_if)
  have "buf_clean P b ?u" using assms(3) ne by (simp add: buf_clean_def put_simps)
  note q = release_one [OF i _ this]
  show thesis
  proof (rule that [of ?u "put b ?u"])
    show "brelse c t = Inr ?u" "brelse b ?u = Inr (put b ?u)" using r q by simp_all
    show "did d p P [] t (put b ?u)" using r q same_rest_trans [of "put b ?u" ?u t] by (simp add: did_def)
  qed
qed

text \<open>Copying and writing, then releasing both buffers.\<close>

lemma copy_did:
  assumes inv: "bcache_inv d p P {b, c} t" and ne: "b \<noteq> c" and bn: "blockno (bufs t b) \<noteq> blockno (bufs t c)"
    and clean: "buf_clean P c t" and len: "length (data (bufs t c)) = BSIZE"
    and P': "P' = P \<or> blockno (bufs t b) \<in> P \<and> P' = P - {blockno (bufs t b)}"
  shows "\<exists>t1 v u. bwrite b (fill b (data (bufs t c)) t) = Inr t1 \<and>
    brelse c (if P' = P then t1 else unpin b t1) = Inr v \<and> brelse b v = Inr u \<and>
    did d p P' [(blockno (bufs t b), data (bufs t c))] t u \<and> held t1 = {}"
proof -
  have clean': "blockno (bufs t c) \<notin> P \<Longrightarrow> data (bufs t c) = disk t (blockno (bufs t c))"
    using clean by (simp add: buf_clean_def)
  note r = copy_release [OF inv ne bn clean' len P']
  let ?t1 = "virtio_disk_rw b True (fill b (data (bufs t c)) t)"
  let ?t2 = "if P' = P then ?t1 else unpin b ?t1"
  have cb: "buf_clean P' b ?t2" using r(3, 4, 10) by (simp add: buf_clean_def)
  have cc: "buf_clean P' c ?t2" using r(4, 11) bn clean P' by (auto simp: buf_clean_def)
  obtain v u where vu: "brelse c ?t2 = Inr v" "brelse b v = Inr u" "did d p P' [] ?t2 u"
    using release_two [OF r(2) ne cb cc] by blast
  have "did d p P' [(blockno (bufs t b), data (bufs t c))] t u"
    using vu(3) r(4-7) same_rest_trans [of u ?t2 t] by (simp add: did_def)
  moreover have "held ?t1 = {}" using bcache_invD(1) [OF inv] by (simp add: rw_simps fill_simps)
  ultimately show ?thesis using r(1) vu(1, 2) by blast
qed

lemma log_rest: "same_rest t s \<Longrightarrow> lg_dev t = lg_dev s \<and> lg_start t = lg_start s \<and> lh t = lh s"
  by (cases s, cases t) (simp add: same_rest_def)

lemma two_len:
  assumes "bcache_inv d p P L t" and "b \<in> L" shows "length (data (bufs t b)) = BSIZE"
  using inv_buf [OF assms(1), of b] bcache_invD(5) [OF assms(1)] assms(2) by (auto simp: buf_ok_def)

lemma write_log_step:
  assumes inv: "bcache_inv d p P {} s" and fin: "finite P" and room: "card P + 1 < length (bcache_list s)"
    and d: "lg_dev s = d" and i: "i < LOGBLOCKS" and src: "lh_block (lh s) ! i = src" "src \<in> P"
    and lb: "lb = lg_start s + of_nat i + 1" "lb \<notin> P"
  shows "\<exists>t. write_log_loop (Suc k) i s = write_log_loop k (Suc i) t \<and> did d p P [(lb, block_view d s src)] s t"
proof -
  have ne: "lb \<noteq> src" using src(2) lb(2) by blast
  obtain b c t where r: "bread d lb s = Inr (b, got d lb P p b s)" "bread d src (got d lb P p b s) = Inr (c, t)"
    and t: "b \<noteq> c" "bcache_inv d p P {b, c} t" "same_rest t s" "disk t = disk s" "block_view d t = block_view d s"
      "dwrites t = dwrites s" "blockno (bufs t b) = lb" "blockno (bufs t c) = src"
      "data (bufs t c) = block_view d s src"
    by (rule two_breads [OF inv fin room ne]) blast
  have cl: "buf_clean P c t" using src(2) t(8) by (simp add: buf_clean_def)
  have len: "length (data (bufs t c)) = BSIZE" using two_len [OF t(2), of c] by simp
  have bn: "blockno (bufs t b) \<noteq> blockno (bufs t c)" using ne t by simp
  obtain t1 v u where u: "bwrite b (fill b (data (bufs t c)) t) = Inr t1" "brelse c t1 = Inr v"
      "brelse b v = Inr u" "did d p P [(lb, block_view d s src)] t u"
    using copy_did [OF t(2, 1) bn cl len, of P] unfolding t(7, 9) by auto
  have lh: "lh_get i (got d lb P p b s) = Inr src"
    using i src(1) by (simp add: lh_get_def got_def)
  have dev: "lg_dev (got d lb P p b s) = d" using d by (simp add: got_def)
  have "write_log_loop (Suc k) i s = write_log_loop k (Suc i) u"
    using r u(1-3) lh dev d by (simp add: lb(1) [symmetric] fill_def)
  moreover have "did d p P [(lb, block_view d s src)] s u"
    using u(4) t(3-6) same_rest_trans [of u t s] by (simp add: did_def)
  ultimately show ?thesis by blast
qed

lemma install_step:
  assumes inv: "bcache_inv d p P {} s" and fin: "finite P" and room: "card P + 1 < length (bcache_list s)"
    and d: "lg_dev s = d" and i: "i < LOGBLOCKS" and dst: "lh_block (lh s) ! i = dst" "recovering \<or> dst \<in> P"
    and lb: "lb = lg_start s + of_nat i + 1" "lb \<notin> P" "lb \<noteq> dst"
  defines "P' \<equiv> (if recovering then P else P - {dst})"
  shows "\<exists>t. install_loop (Suc k) i recovering s = install_loop k (Suc i) recovering t \<and>
    did d p P' [(dst, block_view d s lb)] s t"
proof -
  obtain b c t where r: "bread d lb s = Inr (b, got d lb P p b s)" "bread d dst (got d lb P p b s) = Inr (c, t)"
    and t: "b \<noteq> c" "bcache_inv d p P {b, c} t" "same_rest t s" "disk t = disk s" "block_view d t = block_view d s"
      "dwrites t = dwrites s" "blockno (bufs t b) = lb" "blockno (bufs t c) = dst"
      "data (bufs t b) = block_view d s lb"
    by (rule two_breads [OF inv fin room lb(3)]) blast
  have "block_view d s lb = disk s lb" using view_unpinned [OF inv lb(2)] by simp
  then have cl: "buf_clean P b t" using t(4, 7, 9) by (simp add: buf_clean_def)
  have len: "length (data (bufs t b)) = BSIZE" using two_len [OF t(2), of b] by simp
  have inv': "bcache_inv d p P {c, b} t" using t(2) by (simp add: insert_commute)
  have P': "P' = P \<or> blockno (bufs t c) \<in> P \<and> P' = P - {blockno (bufs t c)}"
    using dst(2) t(8) by (auto simp: P'_def)
  have bn: "blockno (bufs t c) \<noteq> blockno (bufs t b)" using lb(3) t by simp
  obtain t1 v u where u: "bwrite c (fill c (data (bufs t b)) t) = Inr t1"
      "brelse b (if P' = P then t1 else unpin c t1) = Inr v"
      "brelse c v = Inr u" "did d p P' [(dst, block_view d s lb)] t u" "held t1 = {}"
    using copy_did [OF inv' not_sym [OF t(1)] bn cl len P'] unfolding t(8, 9) by auto
  have un: "(if recovering then Inr t1 else bunpin c t1) = Inr (if P' = P then t1 else unpin c t1)"
    using bunpin_unpin [OF u(5), of c] dst(2) by (auto simp: P'_def)
  have lh: "lh_get i (got d lb P p b s) = Inr dst"
    using i dst(1) by (simp add: lh_get_def got_def)
  have dev: "lg_dev (got d lb P p b s) = d" using d by (simp add: got_def)
  have "install_loop (Suc k) i recovering s = install_loop k (Suc i) recovering u"
    using r u(1-3) lh dev d by (simp add: lb(1) [symmetric] fill_def un del: split_paired_All)
  moreover have "did d p P' [(dst, block_view d s lb)] s u"
    using u(4) t(3-6) same_rest_trans [of u t s] by (simp add: did_def)
  ultimately show ?thesis by blast
qed

section \<open>The loops and the header\<close>

definition slot_block :: "uint32 \<Rightarrow> nat \<Rightarrow> uint32" where
  "slot_block start i = start + of_nat i + 1"

definition log_area :: "uint32 \<Rightarrow> uint32 set" where
  "log_area start = insert start (slot_block start ` {..< LOGBLOCKS})"

lemma log_area_mem [simp]: "start \<in> log_area start" "i < LOGBLOCKS \<Longrightarrow> slot_block start i \<in> log_area start"
  by (auto simp: log_area_def)

lemma did_frame:
  "did d p P ws s t \<Longrightarrow> lg_dev t = lg_dev s \<and> lg_start t = lg_start s \<and> lh t = lh s \<and>
   length (bcache_list t) = length (bcache_list s) \<and> bcache_inv d p P {} t"
proof -
  assume w: "did d p P ws s t"
  then have "same_rest t s" by (simp only: did_def)
  then have "length (bcache_list t) = length (bcache_list s)" "lg_dev t = lg_dev s \<and> lg_start t = lg_start s \<and> lh t = lh s"
    using log_rest by (simp_all only: same_rest_def)
  then show ?thesis using w by (simp only: did_def)
qed

lemma write_log_loop_did:
  assumes "bcache_inv d p P {} s" and "finite P" and "card P + 1 < length (bcache_list s)" and "lg_dev s = d"
    and "i + k \<le> LOGBLOCKS" and "P \<inter> log_area (lg_start s) = {}"
    and "\<And>j. i \<le> j \<Longrightarrow> j < i + k \<Longrightarrow> lh_block (lh s) ! j \<in> P"
  shows "\<exists>t. write_log_loop k i s = Inr t \<and>
    did d p P (map (\<lambda>j. (slot_block (lg_start s) j, block_view d s (lh_block (lh s) ! j))) [i ..< i + k]) s t"
  using assms
proof (induction k arbitrary: i s)
  case 0
  then show ?case using did_refl [OF 0(1)] by simp
next
  case (Suc k)
  let ?src = "lh_block (lh s) ! i" and ?lb = "slot_block (lg_start s) i"
  have i: "i < LOGBLOCKS" using Suc.prems(5) by simp
  have P: "?src \<in> P" using Suc.prems(7) [of i] by simp
  have lb: "?lb \<notin> P" using Suc.prems(6) log_area_mem(2) [OF i, of "lg_start s"] by blast
  obtain t where t: "write_log_loop (Suc k) i s = write_log_loop k (Suc i) t"
    "did d p P [(?lb, block_view d s ?src)] s t"
    using write_log_step [OF Suc.prems(1-4) i refl P slot_block_def lb] by blast
  note f = did_frame [OF t(2)]
  have fs: "lg_start t = lg_start s" "lh t = lh s" using f by blast+
  have v: "block_view d t (lh_block (lh s) ! j) = block_view d s (lh_block (lh s) ! j)" if "i \<le> j" "j < i + Suc k" for j
  proof -
    have "lh_block (lh s) ! j \<noteq> ?lb" using Suc.prems(7) [OF that] lb by metis
    then show ?thesis using t(2) by (simp add: did_def)
  qed
  have "\<exists>u. write_log_loop k (Suc i) t = Inr u \<and>
    did d p P (map (\<lambda>j. (slot_block (lg_start t) j, block_view d t (lh_block (lh t) ! j))) [Suc i ..< Suc i + k]) t u"
  proof (rule Suc.IH)
    show "bcache_inv d p P {} t" "finite P" "lg_dev t = d" using f Suc.prems(2, 4) by blast+
    show "card P + 1 < length (bcache_list t)" "Suc i + k \<le> LOGBLOCKS" "P \<inter> log_area (lg_start t) = {}"
      using f Suc.prems(3, 5, 6) by simp_all
    show "lh_block (lh t) ! j \<in> P" if "Suc i \<le> j" "j < Suc i + k" for j
      using Suc.prems(7) [of j] that f by simp
  qed
  then obtain u where u: "write_log_loop k (Suc i) t = Inr u"
    "did d p P (map (\<lambda>j. (slot_block (lg_start s) j, block_view d t (lh_block (lh s) ! j))) [Suc i ..< Suc i + k]) t u"
    unfolding fs by blast
  have "map (\<lambda>j. (slot_block (lg_start s) j, block_view d t (lh_block (lh s) ! j))) [Suc i ..< Suc i + k] =
      map (\<lambda>j. (slot_block (lg_start s) j, block_view d s (lh_block (lh s) ! j))) [Suc i ..< Suc i + k]"
    by (rule map_cong [OF refl]) (auto intro!: v)
  from did_trans [OF t(2) u(2) [unfolded this]]
  have "did d p P ((?lb, block_view d s ?src) # map (\<lambda>j. (slot_block (lg_start s) j, block_view d s (lh_block (lh s) ! j)))
      [Suc i ..< Suc i + k]) s u" by (simp only: append_Cons append_Nil)
  moreover have "[i ..< i + Suc k] = i # [Suc i ..< Suc i + k]" by (simp add: upt_rec)
  ultimately show ?case using t(1) u(1) by (simp del: upt_Suc)
qed

lemma install_loop_did:
  assumes "bcache_inv d p P {} s" and "card P + 1 < length (bcache_list s)" and "lg_dev s = d"
    and "i + k \<le> LOGBLOCKS"
    and "P = (if recovering then {} else (\<lambda>j. lh_block (lh s) ! j) ` {i ..< i + k})"
    and "recovering \<or> inj_on (\<lambda>j. lh_block (lh s) ! j) {i ..< i + k}"
    and "\<And>j. i \<le> j \<Longrightarrow> j < i + k \<Longrightarrow> lh_block (lh s) ! j \<notin> log_area (lg_start s)"
  shows "\<exists>t. install_loop k i recovering s = Inr t \<and>
    did d p {} (map (\<lambda>j. (lh_block (lh s) ! j, block_view d s (slot_block (lg_start s) j))) [i ..< i + k]) s t"
  using assms
proof (induction k arbitrary: i s P)
  case 0
  then have "P = {}" by (simp split: if_splits)
  then show ?case using 0(1) did_refl by auto
next
  case (Suc k)
  let ?dst = "lh_block (lh s) ! i" and ?lb = "slot_block (lg_start s) i"
  let ?P = "if recovering then P else P - {?dst}"
  have fin: "finite P" using Suc.prems(5) by (simp split: if_splits)
  have i: "i < LOGBLOCKS" "?dst \<notin> log_area (lg_start s)" using Suc.prems(4) Suc.prems(7) [of i] by auto
  have dst: "recovering \<or> ?dst \<in> P" using Suc.prems(5) by auto
  have "P \<inter> log_area (lg_start s) = {}" using Suc.prems(5, 7) by (auto split: if_splits)
  then have lb: "?lb \<notin> P" "?lb \<noteq> ?dst" using i by (auto dest: log_area_mem(2) [of i "lg_start s"])
  obtain t where t: "install_loop (Suc k) i recovering s = install_loop k (Suc i) recovering t"
    "did d p ?P [(?dst, block_view d s ?lb)] s t"
    using install_step [OF Suc.prems(1) fin Suc.prems(2, 3) i(1) refl dst slot_block_def lb] by blast
  note f = did_frame [OF t(2)]
  have fs: "lg_start t = lg_start s" "lh t = lh s" using f by blast+
  have v: "block_view d t (slot_block (lg_start s) j) = block_view d s (slot_block (lg_start s) j)" if "j < LOGBLOCKS" for j
  proof -
    have "slot_block (lg_start s) j \<noteq> ?dst" using i(2) log_area_mem(2) [OF that, of "lg_start s"] by metis
    then show ?thesis using t(2) by (simp add: did_def)
  qed
  have range: "{i ..< i + Suc k} = insert i {Suc i ..< Suc i + k}" by auto
  have P': "?P = (if recovering then {} else (\<lambda>j. lh_block (lh t) ! j) ` {Suc i ..< Suc i + k})"
    using Suc.prems(5, 6) f unfolding range by (auto simp: inj_on_def)
  have card: "card ?P + 1 < length (bcache_list t)"
    using Suc.prems(2) f card_Diff1_le [of P ?dst] by auto
  have "\<exists>u. install_loop k (Suc i) recovering t = Inr u \<and>
    did d p {} (map (\<lambda>j. (lh_block (lh t) ! j, block_view d t (slot_block (lg_start t) j))) [Suc i ..< Suc i + k]) t u"
  proof (rule Suc.IH [OF _ card _ _ P'])
    show "bcache_inv d p ?P {} t" "lg_dev t = d" using f Suc.prems(3) by blast+
    show "Suc i + k \<le> LOGBLOCKS" using Suc.prems(4) by simp
    show "recovering \<or> inj_on (\<lambda>j. lh_block (lh t) ! j) {Suc i ..< Suc i + k}"
      using Suc.prems(6) f unfolding range by (auto dest: inj_on_subset)
    show "lh_block (lh t) ! j \<notin> log_area (lg_start t)" if "Suc i \<le> j" "j < Suc i + k" for j
      using Suc.prems(7) [of j] that f by simp
  qed
  then obtain u where u: "install_loop k (Suc i) recovering t = Inr u"
    "did d p {} (map (\<lambda>j. (lh_block (lh s) ! j, block_view d t (slot_block (lg_start s) j))) [Suc i ..< Suc i + k]) t u"
    unfolding fs by blast
  have "map (\<lambda>j. (lh_block (lh s) ! j, block_view d t (slot_block (lg_start s) j))) [Suc i ..< Suc i + k] =
      map (\<lambda>j. (lh_block (lh s) ! j, block_view d s (slot_block (lg_start s) j))) [Suc i ..< Suc i + k]"
    using Suc.prems(4) by (intro map_cong [OF refl]) (auto intro!: v)
  from did_trans [OF t(2) u(2) [unfolded this]]
  have "did d p {} ((?dst, block_view d s ?lb) # map (\<lambda>j. (lh_block (lh s) ! j, block_view d s (slot_block (lg_start s) j)))
      [Suc i ..< Suc i + k]) s u" by (simp only: append_Cons append_Nil)
  moreover have "[i ..< i + Suc k] = i # [Suc i ..< Suc i + k]" by (simp add: upt_rec)
  ultimately show ?case using t(1) u(1) by (simp del: upt_Suc)
qed

definition head_block :: "nat \<Rightarrow> uint32 list \<Rightarrow> block \<Rightarrow> block" where
  "head_block n bs v = put_addrs (take n bs) 4 (put32 0 (of_nat n) v)"

lemma length_head_block [simp]: "length (head_block n bs v) = length v"
  by (simp add: head_block_def)

lemma head_block_read:
  assumes "n \<le> LOGBLOCKS" and "length bs = LOGBLOCKS" and "length v = BSIZE"
  shows "sint (get32 (head_block n bs v) 0) = int n" and "get_addrs n 4 (head_block n bs v) = take n bs"
proof -
  have n: "n \<le> 30" "length (take n bs) = n" using assms by (simp_all add: LOGBLOCKS_def MAXOPBLOCKS_def)
  have "get32 (head_block n bs v) 0 = of_nat n"
    using assms(3) by (simp add: head_block_def get32_put_addrs BSIZE_def)
  moreover have "sint (of_nat n :: uint32) = int n"
    using n(1) int_word_sint [of "int n", where 'a = 32] by (simp add: mod_pos_pos_trivial)
  ultimately show "sint (get32 (head_block n bs v) 0) = int n" by simp
  have "get_addrs (length (take n bs)) 4 (head_block n bs v) = take n bs"
    unfolding head_block_def using n assms(3) by (intro get_addrs_put_addrs) (simp add: BSIZE_def)
  then show "get_addrs n 4 (head_block n bs v) = take n bs" using n(2) by simp
qed

lemma write_head_loop_fill:
  assumes "i + k \<le> LOGBLOCKS" and "length (lh_block (lh s)) = LOGBLOCKS"
  shows "write_head_loop k i b s =
    Inr (fill b (put_addrs (take k (drop i (lh_block (lh s)))) (4 + 4 * i) (data (bufs s b))) s)"
  using assms
proof (induction k arbitrary: i s)
  case 0
  have "(bufs s b)\<lparr>data := data (bufs s b)\<rparr> = bufs s b" by (cases "bufs s b") simp
  then show ?case by (simp add: fill_def upd_buf_def)
next
  case (Suc k)
  let ?s = "upd_buf b (data_update (put32 (4 + 4 * i) (lh_block (lh s) ! i))) s"
  have g: "lh_get i s = Inr (lh_block (lh s) ! i)" using Suc.prems by (simp add: lh_get_def)
  have l: "lh ?s = lh s" by (simp add: upd_buf_def)
  have d: "data (bufs ?s b) = put32 (4 + 4 * i) (lh_block (lh s) ! i) (data (bufs s b))" by (simp add: upd_buf_def)
  have f: "fill b v ?s = fill b v s" for v by (cases "bufs s b") (simp add: fill_def upd_buf_def)
  have t: "take (Suc k) (drop i (lh_block (lh s))) = lh_block (lh s) ! i # take k (drop (Suc i) (lh_block (lh s)))"
    using Suc.prems by (simp add: Cons_nth_drop_Suc [symmetric])
  have "write_head_loop (Suc k) i b s = write_head_loop k (Suc i) b ?s" by (simp add: g)
  also have "\<dots> = Inr (fill b (put_addrs (take k (drop (Suc i) (lh_block (lh ?s)))) (4 + 4 * Suc i) (data (bufs ?s b))) ?s)"
    using Suc.prems l by (intro Suc.IH) simp_all
  finally show ?case unfolding l d f t by (simp add: add.commute)
qed

lemma write_head_did:
  assumes inv: "bcache_inv d p P {} s" and fin: "finite P" and room: "card P < length (bcache_list s)"
    and d: "lg_dev s = d" and P: "lg_start s \<notin> P"
    and n: "lh_n (lh s) = int n" "n \<le> LOGBLOCKS" "length (lh_block (lh s)) = LOGBLOCKS"
  shows "\<exists>t. write_head s = Inr t \<and>
    did d p P [(lg_start s, head_block n (lh_block (lh s)) (block_view d s (lg_start s)))] s t"
proof -
  let ?h = "head_block n (lh_block (lh s)) (block_view d s (lg_start s))"
  obtain b where b: "bread d (lg_start s) s = Inr (b, got d (lg_start s) P p b s)"
    "can_get d (lg_start s) s b" "b \<notin> {}"
    using bread_got [OF inv fin, of "lg_start s"] room by auto
  let ?s = "got d (lg_start s) P p b s"
  note inv1 = got_inv [OF inv b(2, 3)] and view1 = got_view [OF inv b(2, 3)]
  let ?s2 = "upd_buf b (data_update (put32 0 (of_nat n))) ?s"
  have l: "lh ?s = lh s" "lh ?s2 = lh s" by (simp_all add: got_def upd_buf_def)
  have d2: "data (bufs ?s2 b) = put32 0 (of_nat n) (block_view d s (lg_start s))" by (simp add: upd_buf_def got_simps)
  have f: "fill b v ?s2 = fill b v ?s" for v by (simp add: fill_def upd_buf_def got_def)
  have loop: "write_head_loop n 0 b ?s2 = Inr (fill b ?h ?s)"
    using write_head_loop_fill [of 0 n ?s2 b] n unfolding l d2 f by (simp add: head_block_def)
  have len: "length ?h = BSIZE" using length_block_view [OF inv] by simp
  let ?f = "fill b ?h ?s"
  note inv2 = fill_inv [OF inv1 _ len, of b, simplified] and view2 = fill_view [OF inv1 _ len, of b, simplified]
  let ?w = "virtio_disk_rw b True ?f"
  note inv3 = rw_inv [OF inv2, of b, simplified] and view3 = rw_view [OF inv2, of b, simplified]
  have bf: "blockno (bufs ?f b) = lg_start s" "data (bufs ?f b) = ?h" by (simp_all add: fill_simps got_simps)
  have cl: "buf_clean P b ?w" using bf by (simp add: buf_clean_def rw_simps)
  note r = release_one [OF inv3 _ cl, simplified]
  have wr: "bwrite b ?f = Inr ?w" using bwrite_rw [OF inv2, of b] by simp
  have res: "write_head s = Inr (put b ?w)"
    using b(1) d wr r loop by (simp add: write_head_def Let_def l n(1))
  have "same_rest ?w ?f" "same_rest ?f ?s" "same_rest ?s s" by (rule same_rest_ops)+
  then have "same_rest ?w s" using same_rest_trans by blast
  moreover have "same_rest (put b ?w) ?w" using r by blast
  ultimately have sr: "same_rest (put b ?w) s" using same_rest_trans by blast
  have "did d p P [(lg_start s, ?h)] s (put b ?w)"
    using r view3 view2 view1 bf sr by (simp add: did_def rw_simps fill_simps got_simps)
  then show ?thesis using res by blast
qed

section \<open>Committing\<close>

lemma inv_lh [simp]: "bcache_inv d p P L (s\<lparr>lh := x\<rparr>) = bcache_inv d p P L s"
  by (simp add: bcache_inv_def cached_def)

lemma view_lh [simp]: "block_view d (s\<lparr>lh := x\<rparr>) = block_view d s"
  by (simp add: fun_eq_iff block_view_def bget_scan_def split: option.split)

lemma log_slot_inj:
  assumes "i < LOGBLOCKS" "j < LOGBLOCKS" shows "slot_block start i = slot_block start j \<longleftrightarrow> i = j"
proof -
  have "i < 4294967296" "j < 4294967296" using assms by (simp_all add: LOGBLOCKS_def MAXOPBLOCKS_def)
  then have "(of_nat i :: uint32) = of_nat j \<longleftrightarrow> i = j" by (simp add: word_unat_eq_iff unat_of_nat)
  then show ?thesis by (simp add: slot_block_def)
qed

lemma slot_start: "i < LOGBLOCKS \<Longrightarrow> slot_block start i \<noteq> start"
proof
  assume i: "i < LOGBLOCKS" and "slot_block start i = start"
  then have "of_nat (Suc i) = (0 :: uint32)" by (simp add: slot_block_def add.assoc add.commute)
  then have "unat (of_nat (Suc i) :: uint32) = 0" by simp
  then show False using i by (simp add: unat_of_nat LOGBLOCKS_def MAXOPBLOCKS_def del: of_nat_Suc)
qed

lemma apply_writes_map:
  "distinct js \<Longrightarrow> inj_on g (set js) \<Longrightarrow> j \<in> set js \<Longrightarrow> apply_writes (map (\<lambda>j. (g j, v j)) js) f (g j) = v j"
proof (induction js arbitrary: f)
  case (Cons i js)
  show ?case
  proof (cases "j \<in> set js")
    case True
    then show ?thesis using Cons by (auto simp: inj_on_def)
  next
    case False
    then have "j = i" "g i \<notin> g ` set js" using Cons.prems by (auto simp: inj_on_def)
    then have "g i \<notin> fst ` set (map (\<lambda>j. (g j, v j)) js)" by (simp add: image_image)
    then show ?thesis using \<open>j = i\<close> apply_writes_other by simp
  qed
qed simp

lemma apply_writes_map_other:
  "bn \<notin> g ` set js \<Longrightarrow> apply_writes (map (\<lambda>j. (g j, v j)) js) f bn = f bn"
  by (rule apply_writes_other) (simp add: image_image)

text \<open>
  A transaction that is ready to commit: its blocks are exactly the pinned ones, all different, outside the
  log, and at most \<^verbatim>\<open>LOGBLOCKS\<close>; and two buffers are left to work with.
\<close>

definition txn :: "uint32 \<Rightarrow> nat \<Rightarrow> nat \<Rightarrow> 'z log_st_scheme \<Rightarrow> bool" where
  "txn d p n s \<longleftrightarrow>
     lg_dev s = d \<and> lh_n (lh s) = int n \<and> n \<le> LOGBLOCKS \<and> length (lh_block (lh s)) = LOGBLOCKS \<and>
     distinct (take n (lh_block (lh s))) \<and> set (take n (lh_block (lh s))) \<inter> log_area (lg_start s) = {} \<and>
     bcache_inv d p (set (take n (lh_block (lh s)))) {} s \<and> n + 1 < length (bcache_list s)"

definition commit_writes :: "uint32 \<Rightarrow> nat \<Rightarrow> 'z log_st_scheme \<Rightarrow> (uint32 \<times> block) list" where
  "commit_writes d n s =
     (let st = lg_start s; bs = lh_block (lh s); h = head_block n bs (block_view d s st) in
      map (\<lambda>j. (slot_block st j, block_view d s (bs ! j))) [0 ..< n] @ [(st, h)] @
      map (\<lambda>j. (bs ! j, block_view d s (bs ! j))) [0 ..< n] @ [(st, head_block 0 bs h)])"

lemma txn_blocks:
  assumes "n \<le> length bs"
  shows "set (take n bs) = (\<lambda>j. bs ! j) ` {0 ..< n}"
    and "distinct (take n bs) \<Longrightarrow> inj_on (\<lambda>j. bs ! j) {0 ..< n}"
proof -
  have "take n bs = map (\<lambda>j. bs ! j) [0 ..< n]" by (rule nth_equalityI) (use assms in auto)
  then show "set (take n bs) = (\<lambda>j. bs ! j) ` {0 ..< n}" by (metis list.set_map set_upt)
  show "inj_on (\<lambda>j. bs ! j) {0 ..< n}" if "distinct (take n bs)"
    using \<open>take n bs = _\<close> that by (metis distinct_map set_upt)
qed

lemma txnD:
  assumes "txn d p n s"
  shows "lg_dev s = d" "lh_n (lh s) = int n" "n \<le> LOGBLOCKS" "length (lh_block (lh s)) = LOGBLOCKS"
    "inj_on (\<lambda>j. lh_block (lh s) ! j) {0 ..< n}"
    "set (take n (lh_block (lh s))) = (\<lambda>j. lh_block (lh s) ! j) ` {0 ..< n}"
    "set (take n (lh_block (lh s))) \<inter> log_area (lg_start s) = {}"
    "bcache_inv d p (set (take n (lh_block (lh s)))) {} s"
    "card (set (take n (lh_block (lh s)))) + 1 < length (bcache_list s)"
    "j < n \<Longrightarrow> lh_block (lh s) ! j \<in> set (take n (lh_block (lh s)))"
    "lg_start s \<notin> set (take n (lh_block (lh s)))"
proof -
  note T = assms [unfolded txn_def]
  show "lg_dev s = d" "lh_n (lh s) = int n" "n \<le> LOGBLOCKS" "length (lh_block (lh s)) = LOGBLOCKS"
    "set (take n (lh_block (lh s))) \<inter> log_area (lg_start s) = {}"
    "bcache_inv d p (set (take n (lh_block (lh s)))) {} s" using T by blast+
  have nl: "n \<le> length (lh_block (lh s))" using T by simp
  show "inj_on (\<lambda>j. lh_block (lh s) ! j) {0 ..< n}" using txn_blocks(2) [OF nl] T by blast
  show B: "set (take n (lh_block (lh s))) = (\<lambda>j. lh_block (lh s) ! j) ` {0 ..< n}" by (rule txn_blocks(1) [OF nl])
  have "card (set (take n (lh_block (lh s)))) = n" using T by (simp add: distinct_card)
  then show "card (set (take n (lh_block (lh s)))) + 1 < length (bcache_list s)" using T by simp
  show "lh_block (lh s) ! j \<in> set (take n (lh_block (lh s)))" if "j < n" using that unfolding B by simp
  show "lg_start s \<notin> set (take n (lh_block (lh s)))" using T log_area_mem(1) by blast
qed

text \<open>The first two steps of \<^verbatim>\<open>commit\<close>: the blocks go to the log, then the header.\<close>

lemma commit_log:
  assumes t: "txn d p n s"
  defines "P \<equiv> set (take n (lh_block (lh s)))"
  defines "h \<equiv> head_block n (lh_block (lh s)) (block_view d s (lg_start s))"
  shows "\<exists>s1 u. write_log s = Inr s1 \<and> write_head s1 = Inr u \<and>
    did d p P (map (\<lambda>j. (slot_block (lg_start s) j, block_view d s (lh_block (lh s) ! j))) [0 ..< n] @ [(lg_start s, h)]) s u"
proof -
  note T = txnD [OF t, folded P_def]
  have fin: "finite P" by (simp add: P_def)
  let ?W = "map (\<lambda>j. (slot_block (lg_start s) j, block_view d s (lh_block (lh s) ! j))) [0 ..< n]"
  have "\<exists>u. write_log_loop n 0 s = Inr u \<and>
    did d p P (map (\<lambda>j. (slot_block (lg_start s) j, block_view d s (lh_block (lh s) ! j))) [0 ..< 0 + n]) s u"
    by (rule write_log_loop_did) (use T fin in simp_all)
  then obtain s1 where s1: "write_log_loop n 0 s = Inr s1" "did d p P ?W s s1" by (simp only: add_0) blast
  note f = did_frame [OF s1(2)]
  have fs: "lg_dev s1 = lg_dev s" "lg_start s1 = lg_start s" "lh s1 = lh s" "length (bcache_list s1) = length (bcache_list s)"
    using f by blast+
  have "lg_start s \<notin> slot_block (lg_start s) ` set [0 ..< n]"
  proof
    assume "lg_start s \<in> slot_block (lg_start s) ` set [0 ..< n]"
    then obtain j where "j < n" "lg_start s = slot_block (lg_start s) j" by auto
    then show False using slot_start [of j "lg_start s"] T(3) by simp
  qed
  then have v1: "block_view d s1 (lg_start s) = block_view d s (lg_start s)"
    using s1(2) apply_writes_map_other by (simp only: did_def)
  have "\<exists>u. write_head s1 = Inr u \<and>
    did d p P [(lg_start s1, head_block n (lh_block (lh s1)) (block_view d s1 (lg_start s1)))] s1 u"
    by (rule write_head_did) (use f fin T in \<open>simp_all add: fs\<close>)
  then obtain u where u: "write_head s1 = Inr u" "did d p P [(lg_start s, h)] s1 u"
    unfolding fs v1 h_def by blast
  have "write_log s = Inr s1" using s1(1) T(2) by (simp add: write_log_def)
  then show ?thesis using u(1) did_trans [OF s1(2) u(2)] by blast
qed

text \<open>The third step: the blocks go from the log to their homes.\<close>

lemma commit_install:
  assumes t: "txn d p n s"
  defines "P \<equiv> set (take n (lh_block (lh s)))"
  assumes u: "did d p P (map (\<lambda>j. (slot_block (lg_start s) j, block_view d s (lh_block (lh s) ! j))) [0 ..< n] @ [(lg_start s, h)]) s u"
  shows "\<exists>v. install_trans False u = Inr v \<and>
    did d p {} (map (\<lambda>j. (lh_block (lh s) ! j, block_view d s (lh_block (lh s) ! j))) [0 ..< n]) u v"
proof -
  note T = txnD [OF t, folded P_def]
  note f = did_frame [OF u]
  have fs: "lg_dev u = lg_dev s" "lg_start u = lg_start s" "lh u = lh s" "length (bcache_list u) = length (bcache_list s)"
    using f by blast+
  have slots: "block_view d u (slot_block (lg_start s) j) = block_view d s (lh_block (lh s) ! j)" if "j < n" for j
  proof -
    have "slot_block (lg_start s) j \<noteq> lg_start s" using slot_start that T(3) by simp
    moreover have "inj_on (slot_block (lg_start s)) (set [0 ..< n])"
      using log_slot_inj [of _ _ "lg_start s"] T(3) by (simp add: inj_on_def)
    ultimately show ?thesis
      using u that apply_writes_map [of "[0 ..< n]" "slot_block (lg_start s)" j] by (simp add: did_def)
  qed
  have w: "\<exists>v. install_loop n 0 False u = Inr v \<and>
    did d p {} (map (\<lambda>j. (lh_block (lh u) ! j, block_view d u (slot_block (lg_start u) j))) [0 ..< 0 + n]) u v"
  proof (rule install_loop_did)
    show "bcache_inv d p P {} u" using f by blast
    show "card P + 1 < length (bcache_list u)" "lg_dev u = d" "0 + n \<le> LOGBLOCKS" using T by (simp_all add: fs)
    show "P = (if False then {} else (\<lambda>j. lh_block (lh u) ! j) ` {0 ..< 0 + n})" using T(6) by (simp add: fs)
    show "False \<or> inj_on (\<lambda>j. lh_block (lh u) ! j) {0 ..< 0 + n}" using T(5) by (simp add: fs)
    show "lh_block (lh u) ! j \<notin> log_area (lg_start u)" if "j < 0 + n" for j
      using T(7) T(10) [of j] that unfolding fs by auto
  qed
  have m: "map (\<lambda>j. (lh_block (lh u) ! j, block_view d u (slot_block (lg_start u) j))) [0 ..< 0 + n] =
      map (\<lambda>j. (lh_block (lh s) ! j, block_view d s (lh_block (lh s) ! j))) [0 ..< n]"
    unfolding fs by (rule map_cong) (auto simp: slots)
  have "install_trans False u = install_loop n 0 False u" using T(2) by (simp add: install_trans_def fs)
  then show ?thesis using w unfolding m by (simp only:)
qed

lemma commit_did:
  assumes t: "txn d p n s" and n: "0 < n"
  shows "\<exists>t. commit s = Inr t \<and> bcache_inv d p {} {} t \<and> lh_n (lh t) = 0 \<and>
    disk t = apply_writes (commit_writes d n s) (disk s) \<and> dwrites t = dwrites s @ commit_writes d n s"
proof -
  let ?bs = "lh_block (lh s)" and ?st = "lg_start s"
  let ?h = "head_block n ?bs (block_view d s ?st)"
  note T = txnD [OF t]
  obtain s1 s2 where s12: "write_log s = Inr s1" "write_head s1 = Inr s2"
    "did d p (set (take n ?bs)) (map (\<lambda>j. (slot_block ?st j, block_view d s (?bs ! j))) [0 ..< n] @ [(?st, ?h)]) s s2"
    using commit_log [OF t] by blast
  obtain s3 where s3: "install_trans False s2 = Inr s3"
    "did d p {} (map (\<lambda>j. (?bs ! j, block_view d s (?bs ! j))) [0 ..< n]) s2 s3"
    using commit_install [OF t s12(3)] by blast
  note f2 = did_frame [OF s12(3)] and f3 = did_frame [OF s3(2)]
  have fs: "lg_dev s3 = lg_dev s" "lg_start s3 = lg_start s" "lh s3 = lh s" "length (bcache_list s3) = length (bcache_list s)"
    using f2 f3 by simp_all
  have "?st \<notin> (\<lambda>j. ?bs ! j) ` set [0 ..< n]" using T(6, 11) by simp
  then have "block_view d s3 ?st = block_view d s2 ?st"
    using s3(2) apply_writes_map_other by (simp only: did_def)
  then have h: "block_view d s3 ?st = ?h" using s12(3) by (simp add: did_def)
  have "\<exists>s4. write_head (set_lh_n 0 s3) = Inr s4 \<and>
    did d p {} [(lg_start (set_lh_n 0 s3), head_block 0 (lh_block (lh (set_lh_n 0 s3)))
      (block_view d (set_lh_n 0 s3) (lg_start (set_lh_n 0 s3))))] (set_lh_n 0 s3) s4"
  proof (rule write_head_did)
    show "bcache_inv d p {} {} (set_lh_n 0 s3)" using f3 by simp
    show "card {} < length (bcache_list (set_lh_n 0 s3))" using T(9) fs(4) by auto
  qed (use T(1, 4) in \<open>simp_all add: fs\<close>)
  then obtain s4 where s4: "write_head (set_lh_n 0 s3) = Inr s4" "did d p {} [(?st, head_block 0 ?bs ?h)] (set_lh_n 0 s3) s4"
    by (auto simp: fs h)
  have "commit s = Inr s4"
    using n T(2) s12(1, 2) s3(1) s4(1) by (simp add: commit_def)
  moreover have "lh_n (lh s4) = 0" using did_frame [OF s4(2)] by simp
  moreover have "disk s4 = apply_writes (commit_writes d n s) (disk s)" "dwrites s4 = dwrites s @ commit_writes d n s"
    using s12(3) s3(2) s4(2) by (simp_all add: did_def commit_writes_def Let_def)
  ultimately show ?thesis using s4(2) by (simp add: did_def)
qed

section \<open>Recovery\<close>

lemma read_head_loop_ok:
  assumes "i + k \<le> LOGBLOCKS" and "length (lh_block (lh s)) = LOGBLOCKS"
  shows "\<exists>H. read_head_loop k i v s = Inr (s\<lparr>lh := H\<rparr>) \<and> lh_n H = lh_n (lh s) \<and> length (lh_block H) = LOGBLOCKS \<and>
    (\<forall>j < i. lh_block H ! j = lh_block (lh s) ! j) \<and> take k (drop i (lh_block H)) = get_addrs k (4 + 4 * i) v"
  using assms
proof (induction k arbitrary: i s)
  case 0
  have "s = s\<lparr>lh := lh s\<rparr>" by (cases s) simp
  then show ?case using 0 by (intro exI [of _ "lh s"]) simp
next
  case (Suc k)
  let ?s = "s\<lparr>lh := (lh s)\<lparr>lh_block := (lh_block (lh s))[i := get32 v (4 + 4 * i)]\<rparr>\<rparr>"
  have "\<exists>H. read_head_loop k (Suc i) v ?s = Inr (?s\<lparr>lh := H\<rparr>) \<and> lh_n H = lh_n (lh ?s) \<and> length (lh_block H) = LOGBLOCKS \<and>
    (\<forall>j < Suc i. lh_block H ! j = lh_block (lh ?s) ! j) \<and> take k (drop (Suc i) (lh_block H)) = get_addrs k (4 + 4 * Suc i) v"
    by (rule Suc.IH) (use Suc.prems in simp_all)
  then obtain H where H: "read_head_loop k (Suc i) v ?s = Inr (s\<lparr>lh := H\<rparr>)" "lh_n H = lh_n (lh s)"
    "length (lh_block H) = LOGBLOCKS" "\<And>j. j < Suc i \<Longrightarrow> lh_block H ! j = (lh_block (lh s))[i := get32 v (4 + 4 * i)] ! j"
    "take k (drop (Suc i) (lh_block H)) = get_addrs k (4 + 4 * Suc i) v" by auto
  have "drop i (lh_block H) = lh_block H ! i # drop (Suc i) (lh_block H)"
    using Suc.prems H(3) by (simp add: Cons_nth_drop_Suc)
  moreover have "lh_block H ! i = get32 v (4 + 4 * i)" using H(4) [of i] Suc.prems by simp
  ultimately have "take (Suc k) (drop i (lh_block H)) = get_addrs (Suc k) (4 + 4 * i) v"
    using H(5) by (simp add: add.commute)
  moreover have "lh_block H ! j = lh_block (lh s) ! j" if "j < i" for j using H(4) [of j] that by simp
  moreover have "read_head_loop (Suc k) i v s = Inr (s\<lparr>lh := H\<rparr>)" using Suc.prems H(1) by simp
  ultimately show ?case using H(2, 3) by blast
qed

lemma read_head_ok:
  assumes inv: "bcache_inv d p {} {} s" and d: "lg_dev s = d" and room: "0 < length (bcache_list s)"
    and lh: "length (lh_block (lh s)) = LOGBLOCKS"
    and n: "sint (get32 (disk s (lg_start s)) 0) = int n" "n \<le> LOGBLOCKS"
  shows "\<exists>t. read_head s = Inr t \<and> bcache_inv d p {} {} t \<and> disk t = disk s \<and> lg_dev t = d \<and>
    lg_start t = lg_start s \<and> length (bcache_list t) = length (bcache_list s) \<and> lh_n (lh t) = int n \<and>
    length (lh_block (lh t)) = LOGBLOCKS \<and> take n (lh_block (lh t)) = get_addrs n 4 (disk s (lg_start s))"
proof -
  let ?v = "disk s (lg_start s)"
  have view: "block_view d s (lg_start s) = ?v" using view_unpinned [OF inv] by simp
  obtain b where b: "bread d (lg_start s) s = Inr (b, got d (lg_start s) {} p b s)"
    "can_get d (lg_start s) s b" "b \<notin> {}"
    using bread_got [OF inv, of "lg_start s"] room by auto
  let ?s = "got d (lg_start s) {} p b s"
  note inv1 = got_inv [OF inv b(2, 3)]
  have l: "lh ?s = lh s" "lg_start ?s = lg_start s" "lg_dev ?s = lg_dev s" by (simp_all add: got_def)
  have v: "data (bufs ?s b) = ?v" using view by (simp add: got_simps)
  obtain H where H: "read_head_loop n 0 ?v (set_lh_n (int n) ?s) = Inr ((set_lh_n (int n) ?s)\<lparr>lh := H\<rparr>)"
    "lh_n H = int n" "length (lh_block H) = LOGBLOCKS" "take n (lh_block H) = get_addrs n 4 ?v"
    using read_head_loop_ok [of 0 n "set_lh_n (int n) ?s" ?v] n(2) lh l(1) by auto
  let ?t = "?s\<lparr>lh := H\<rparr>"
  have invt: "bcache_inv d p {} {b} ?t" using inv1 by simp
  have cl: "buf_clean {} b ?t" using view by (simp add: buf_clean_def got_simps)
  note r = release_one [OF invt _ cl, simplified]
  have "read_head s = Inr (put b ?t)"
    using b(1) d v n(1) H(1) r by (simp add: read_head_def Let_def)
  moreover have "lh (put b ?t) = H" "lg_start (put b ?t) = lg_start s" "lg_dev (put b ?t) = d"
    using l d by (simp_all add: put_def)
  moreover have "length (bcache_list (put b ?t)) = length (bcache_list s)"
    using r by (simp add: same_rest_def got_simps)
  moreover have "disk (put b ?t) = disk s" by (simp add: put_simps got_simps)
  ultimately show ?thesis using r H by auto
qed

text \<open>
  Recovery with a header that lists \<open>n\<close> blocks copies them from the log to their homes.
\<close>

lemma recover_ok:
  assumes inv: "bcache_inv d p {} {} s" and d: "lg_dev s = d" and room: "1 < length (bcache_list s)"
    and lh: "length (lh_block (lh s)) = LOGBLOCKS"
    and n: "sint (get32 (disk s (lg_start s)) 0) = int n" "n \<le> LOGBLOCKS"
    and B: "B = get_addrs n 4 (disk s (lg_start s))" "set B \<inter> log_area (lg_start s) = {}"
  shows "\<exists>t. recover_from_log s = Inr t \<and> (\<forall>bn. bn \<noteq> lg_start s \<longrightarrow>
    disk t bn = apply_writes (map (\<lambda>j. (B ! j, disk s (slot_block (lg_start s) j))) [0 ..< n]) (disk s) bn)"
proof -
  have pos: "0 < length (bcache_list s)" using room by linarith
  obtain s1 where s1: "read_head s = Inr s1" "bcache_inv d p {} {} s1" "disk s1 = disk s" "lg_dev s1 = d"
    "lg_start s1 = lg_start s" "length (bcache_list s1) = length (bcache_list s)" "lh_n (lh s1) = int n"
    "length (lh_block (lh s1)) = LOGBLOCKS" "take n (lh_block (lh s1)) = B"
    using read_head_ok [OF inv d pos lh n, folded B(1)] by blast
  have nth: "lh_block (lh s1) ! j = B ! j" "j < length B" if "j < n" for j
  proof -
    have "length (take n (lh_block (lh s1))) = n" using s1(8) n(2) by simp
    then show "j < length B" using that s1(9) by simp
    show "lh_block (lh s1) ! j = B ! j" using nth_take [OF that, of "lh_block (lh s1)"] s1(9) by simp
  qed
  have view: "block_view d s1 bn = disk s bn" for bn using view_unpinned [OF s1(2)] s1(3) by simp
  have w: "\<exists>t. install_loop n 0 True s1 = Inr t \<and>
    did d p {} (map (\<lambda>j. (lh_block (lh s1) ! j, block_view d s1 (slot_block (lg_start s1) j))) [0 ..< 0 + n]) s1 t"
  proof (rule install_loop_did [OF s1(2)])
    show "lh_block (lh s1) ! j \<notin> log_area (lg_start s1)" if "j < 0 + n" for j
    proof -
      have "B ! j \<in> set B" using nth(2) [of j] that by simp
      then have "B ! j \<notin> log_area (lg_start s)" using B(2) by blast
      then show ?thesis using nth(1) [of j] that by (simp add: s1(5))
    qed
    show "card {} + 1 < length (bcache_list s1)" "lg_dev s1 = d" "0 + n \<le> LOGBLOCKS"
      using room s1(4, 6) n(2) by simp_all
  qed simp_all
  have m: "map (\<lambda>j. (lh_block (lh s1) ! j, block_view d s1 (slot_block (lg_start s1) j))) [0 ..< 0 + n] =
      map (\<lambda>j. (B ! j, disk s (slot_block (lg_start s) j))) [0 ..< n]"
    unfolding s1(5) view by (rule map_cong) (auto simp: nth)
  obtain s2 where s2: "install_loop n 0 True s1 = Inr s2"
    "did d p {} (map (\<lambda>j. (B ! j, disk s (slot_block (lg_start s) j))) [0 ..< n]) s1 s2"
    using w unfolding m by blast
  note f = did_frame [OF s2(2)]
  have fs: "lg_dev s2 = d" "lg_start s2 = lg_start s" "lh s2 = lh s1" "length (bcache_list s2) = length (bcache_list s)"
    using f s1(4-6) by simp_all
  have "\<exists>t. write_head (set_lh_n 0 s2) = Inr t \<and>
    did d p {} [(lg_start (set_lh_n 0 s2), head_block 0 (lh_block (lh (set_lh_n 0 s2)))
      (block_view d (set_lh_n 0 s2) (lg_start (set_lh_n 0 s2))))] (set_lh_n 0 s2) t"
  proof (rule write_head_did)
    show "bcache_inv d p {} {} (set_lh_n 0 s2)" using f by simp
    show "card {} < length (bcache_list (set_lh_n 0 s2))" using pos fs(4) by simp
  qed (use s1(8) in \<open>simp_all add: fs\<close>)
  then obtain t h where t: "write_head (set_lh_n 0 s2) = Inr t" "did d p {} [(lg_start s, h)] (set_lh_n 0 s2) t"
    by (auto simp: fs)
  have "recover_from_log s = Inr t"
    using s1(1, 7) s2(1) t(1) by (simp add: recover_from_log_def install_trans_def)
  moreover have "disk t bn = apply_writes (map (\<lambda>j. (B ! j, disk s (slot_block (lg_start s) j))) [0 ..< n]) (disk s) bn"
    if "bn \<noteq> lg_start s" for bn
    using t(2) s2(2) s1(3) that by (simp add: did_def)
  ultimately show ?thesis by blast
qed

text \<open>
  What is on the disk when the machine stops after the first \<open>k\<close> writes of a commit: the header is the old one
  or the committed one, and in the latter case the log holds the blocks.
\<close>

lemma crash_before_header:
  assumes t: "txn d p n s" and k: "k \<le> n"
  defines "D \<equiv> apply_writes (take k (commit_writes d n s)) (disk s)"
  shows "D (lg_start s) = disk s (lg_start s)" and "bn \<notin> log_area (lg_start s) \<Longrightarrow> D bn = disk s bn"
proof -
  note T = txnD [OF t]
  have "take k (commit_writes d n s) =
      map (\<lambda>j. (slot_block (lg_start s) j, block_view d s (lh_block (lh s) ! j))) [0 ..< k]"
    using k by (simp add: commit_writes_def Let_def take_map)
  then have D: "D = apply_writes (map (\<lambda>j. (slot_block (lg_start s) j, block_view d s (lh_block (lh s) ! j))) [0 ..< k]) (disk s)"
    by (simp add: D_def)
  show "D (lg_start s) = disk s (lg_start s)"
    unfolding D using slot_start [of _ "lg_start s"] T(3) k by (intro apply_writes_map_other) (auto dest: sym)
  show "D bn = disk s bn" if "bn \<notin> log_area (lg_start s)"
    unfolding D using that T(3) k by (intro apply_writes_map_other) (auto simp: log_area_def)
qed

lemma crash_after_header:
  assumes t: "txn d p n s" and k: "n < k" "k \<le> 2 * n + 1"
  defines "D \<equiv> apply_writes (take k (commit_writes d n s)) (disk s)"
  shows "D (lg_start s) = head_block n (lh_block (lh s)) (block_view d s (lg_start s))"
    and "j < n \<Longrightarrow> D (slot_block (lg_start s) j) = block_view d s (lh_block (lh s) ! j)"
    and "bn \<notin> log_area (lg_start s) \<Longrightarrow> bn \<notin> set (take n (lh_block (lh s))) \<Longrightarrow> D bn = disk s bn"
proof -
  note T = txnD [OF t]
  let ?bs = "lh_block (lh s)" and ?st = "lg_start s" and ?i = "k - Suc n"
  let ?h = "head_block n ?bs (block_view d s ?st)"
  let ?W1 = "map (\<lambda>j. (slot_block ?st j, block_view d s (?bs ! j))) [0 ..< n]"
  let ?W2 = "map (\<lambda>j. (?bs ! j, block_view d s (?bs ! j))) [0 ..< ?i]"
  have i: "?i \<le> n" "k - n = Suc ?i" using k by simp_all
  have "take k (commit_writes d n s) = ?W1 @ (?st, ?h) # ?W2"
    using k i by (simp add: commit_writes_def Let_def take_map)
  then have D: "D = apply_writes ?W2 ((apply_writes ?W1 (disk s))(?st := ?h))" by (simp add: D_def)
  have home: "bn \<notin> (\<lambda>j. ?bs ! j) ` set [0 ..< ?i]" if "bn \<notin> set (take n ?bs)" for bn
    using T(6) that i(1) by auto
  have "?st \<notin> set (take n ?bs)" by (rule T(11))
  then show "D ?st = ?h" unfolding D by (subst apply_writes_map_other [OF home]) simp_all
  show "D (slot_block ?st j) = block_view d s (?bs ! j)" if "j < n"
  proof -
    have j: "slot_block ?st j \<in> log_area ?st" "slot_block ?st j \<noteq> ?st" using that T(3) slot_start by simp_all
    then have "slot_block ?st j \<notin> set (take n ?bs)" using T(7) by blast
    then have "D (slot_block ?st j) = apply_writes ?W1 (disk s) (slot_block ?st j)"
      unfolding D using j(2) by (subst apply_writes_map_other [OF home]) simp_all
    also have "\<dots> = block_view d s (?bs ! j)"
      using that T(3) log_slot_inj by (intro apply_writes_map) (auto simp: inj_on_def)
    finally show ?thesis .
  qed
  show "D bn = disk s bn" if "bn \<notin> log_area ?st" "bn \<notin> set (take n ?bs)"
  proof -
    have "D bn = apply_writes ?W1 (disk s) bn"
      unfolding D using that log_area_mem(1) [of ?st] by (subst apply_writes_map_other [OF home]) auto
    also have "\<dots> = disk s bn" using that T(3) by (intro apply_writes_map_other) (auto simp: log_area_def)
    finally show ?thesis .
  qed
qed

lemma crash_done:
  assumes t: "txn d p n s"
  defines "D \<equiv> apply_writes (commit_writes d n s) (disk s)"
  shows "D (lg_start s) = head_block 0 (lh_block (lh s)) (head_block n (lh_block (lh s)) (block_view d s (lg_start s)))"
    and "bn \<notin> log_area (lg_start s) \<Longrightarrow> D bn = block_view d s bn"
proof -
  note T = txnD [OF t]
  let ?bs = "lh_block (lh s)" and ?st = "lg_start s"
  let ?E = "apply_writes (take (2 * n + 1) (commit_writes d n s)) (disk s)"
  let ?h = "head_block n ?bs (block_view d s ?st)"
  have len: "length (commit_writes d n s) = Suc (2 * n + 1)" by (simp add: commit_writes_def Let_def)
  have "take (2 * n + 1) (commit_writes d n s) @ [(?st, head_block 0 ?bs ?h)] = commit_writes d n s"
    by (simp add: commit_writes_def Let_def)
  then have D: "D = ?E(?st := head_block 0 ?bs ?h)" unfolding D_def by (metis apply_writes_simps)
  show "D ?st = head_block 0 ?bs ?h" by (simp add: D)
  assume bn: "bn \<notin> log_area ?st"
  then have ne: "bn \<noteq> ?st" by auto
  show "D bn = block_view d s bn"
  proof (cases "bn \<in> set (take n ?bs)")
    case False
    then have "?E bn = disk s bn" using crash_after_header(3) [OF t, of "2 * n + 1"] bn by simp
    moreover have "block_view d s bn = disk s bn" using view_unpinned [OF T(8) False] by simp
    ultimately show ?thesis using D ne by simp
  next
    case True
    let ?W1 = "map (\<lambda>j. (slot_block ?st j, block_view d s (?bs ! j))) [0 ..< n]"
    have "?E = apply_writes (map (\<lambda>j. (?bs ! j, block_view d s (?bs ! j))) [0 ..< n]) ((apply_writes ?W1 (disk s))(?st := ?h))"
      by (simp add: commit_writes_def Let_def)
    moreover obtain j where "j < n" "bn = ?bs ! j" using True T(6) by auto
    ultimately have "?E bn = block_view d s bn"
      using apply_writes_map [of "[0 ..< n]" "\<lambda>j. ?bs ! j" j "\<lambda>j. block_view d s (?bs ! j)"] T(5) by simp
    then show ?thesis using D ne by simp
  qed
qed

text \<open>A machine that has just started, on the disk \<open>D\<close>.\<close>

definition booted :: "uint32 \<Rightarrow> nat \<Rightarrow> uint32 \<Rightarrow> (uint32 \<Rightarrow> block) \<Rightarrow> 'z log_st_scheme \<Rightarrow> bool" where
  "booted d q st D r \<longleftrightarrow>
     bcache_inv d q {} {} r \<and> lg_dev r = d \<and> lg_start r = st \<and> length (lh_block (lh r)) = LOGBLOCKS \<and>
     1 < length (bcache_list r) \<and> disk r = D"

lemma recover_clear:
  assumes b: "booted d q st D r" and z: "get32 (D st) 0 = 0"
  shows "\<exists>u. recover_from_log r = Inr u \<and> (\<forall>bn. bn \<notin> log_area st \<longrightarrow> disk u bn = D bn)"
proof -
  note B = b [unfolded booted_def]
  have r: "bcache_inv d q {} {} r" "lg_dev r = d" "1 < length (bcache_list r)" "length (lh_block (lh r)) = LOGBLOCKS"
    and e: "lg_start r = st" "disk r = D" using B by blast+
  have "\<exists>t. recover_from_log r = Inr t \<and> (\<forall>bn. bn \<noteq> lg_start r \<longrightarrow>
      disk t bn = apply_writes (map (\<lambda>j. ([] ! j, disk r (slot_block (lg_start r) j))) [0 ..< 0]) (disk r) bn)"
    by (rule recover_ok [OF r]) (simp_all add: e z)
  then obtain u where u: "recover_from_log r = Inr u" "\<And>bn. bn \<noteq> st \<Longrightarrow> disk u bn = D bn"
    unfolding e by auto
  have "disk u bn = D bn" if "bn \<notin> log_area st" for bn
    using u(2) [of bn] that log_area_mem(1) [of st] by blast
  then show ?thesis using u(1) by blast
qed

lemma sint_int_0: "sint w = int 0 \<Longrightarrow> w = 0" for w :: uint32
proof -
  assume "sint w = int 0"
  then have "sint w = sint (0 :: uint32)" by simp
  then show "w = 0" by (rule signed_word_eqI)
qed

lemma recover_same:
  assumes b: "booted d q st D r" and z: "get32 (D st) 0 = 0" and v: "\<And>bn. bn \<notin> log_area st \<Longrightarrow> D bn = V bn"
  shows "\<exists>u. recover_from_log r = Inr u \<and> (\<forall>bn. bn \<notin> log_area st \<longrightarrow> disk u bn = V bn)"
  using recover_clear [OF b z] v by auto

lemma recover_committed:
  assumes t: "txn d p n s" and k: "n < k" "k \<le> 2 * n + 1"
    and b: "booted d q (lg_start s) (apply_writes (take k (commit_writes d n s)) (disk s)) r"
  shows "\<exists>u. recover_from_log r = Inr u \<and> (\<forall>bn. bn \<notin> log_area (lg_start s) \<longrightarrow> disk u bn = block_view d s bn)"
proof -
  let ?st = "lg_start s" and ?bs = "lh_block (lh s)"
  note T = txnD [OF t] and R = b [unfolded booted_def]
  have r: "bcache_inv d q {} {} r" "lg_dev r = d" "1 < length (bcache_list r)" "length (lh_block (lh r)) = LOGBLOCKS"
    and e: "lg_start r = ?st" and D: "disk r = apply_writes (take k (commit_writes d n s)) (disk s)" using R by blast+
  note c = crash_after_header [OF t k, folded D]
  have hd: "sint (get32 (disk r ?st) 0) = int n" "get_addrs n 4 (disk r ?st) = take n ?bs"
    unfolding c(1) by (rule head_block_read [OF T(3, 4) length_block_view [OF T(8)]])+
  have "\<exists>u. recover_from_log r = Inr u \<and> (\<forall>bn. bn \<noteq> lg_start r \<longrightarrow>
      disk u bn = apply_writes (map (\<lambda>j. (take n ?bs ! j, disk r (slot_block (lg_start r) j))) [0 ..< n]) (disk r) bn)"
    by (rule recover_ok [OF r]) (simp_all add: e hd T(3) T(7))
  moreover have "map (\<lambda>j. (take n ?bs ! j, disk r (slot_block ?st j))) [0 ..< n] =
      map (\<lambda>j. (?bs ! j, block_view d s (?bs ! j))) [0 ..< n]"
    by (rule map_cong) (simp_all add: c(2))
  ultimately obtain u where u: "recover_from_log r = Inr u" "\<And>bn. bn \<noteq> ?st \<Longrightarrow>
      disk u bn = apply_writes (map (\<lambda>j. (?bs ! j, block_view d s (?bs ! j))) [0 ..< n]) (disk r) bn"
    unfolding e by auto
  have "disk u bn = block_view d s bn" if bn: "bn \<notin> log_area ?st" for bn
  proof -
    have "bn \<noteq> ?st" using bn log_area_mem(1) [of ?st] by blast
    note du = u(2) [OF this]
    show ?thesis
    proof (cases "bn \<in> set (take n ?bs)")
      case True
      then obtain j where j: "j < n" "bn = ?bs ! j" unfolding T(6) by auto
      show ?thesis unfolding du unfolding j(2)
        by (rule apply_writes_map) (use j(1) T(5) in simp_all)
    next
      case False
      have "bn \<notin> (\<lambda>j. ?bs ! j) ` set [0 ..< n]" using False unfolding T(6) by simp
      then have "disk u bn = disk r bn" unfolding du by (rule apply_writes_map_other)
      then show ?thesis using c(3) [OF bn False] view_unpinned [OF T(8) False] by simp
    qed
  qed
  then show ?thesis using u(1) by blast
qed

text \<open>
  C1: A transaction commits atomically. \<^verbatim>\<open>commit\<close> writes the blocks to the log, then the header, then the
  blocks to their homes, then the cleared header. If the machine stops after any number \<open>k\<close> of these writes and
  \<^verbatim>\<open>recover_from_log\<close> runs on the disk left behind, then every block outside the log has its content from before
  the transaction, or every one has the content the transaction gave it.
\<close>

theorem commit_crash_atomic:
  assumes "txn d p n s" and "0 < n" and "get32 (disk s (lg_start s)) 0 = 0"
    and "booted d q (lg_start s) (apply_writes (take k (commit_writes d n s)) (disk s)) r"
  shows "\<exists>t u. commit s = Inr t \<and> dwrites t = dwrites s @ commit_writes d n s \<and> recover_from_log r = Inr u \<and>
    ((\<forall>bn. bn \<notin> log_area (lg_start s) \<longrightarrow> disk u bn = disk s bn) \<or>
     (\<forall>bn. bn \<notin> log_area (lg_start s) \<longrightarrow> disk u bn = block_view d s bn))"
proof -
  let ?st = "lg_start s" and ?D = "apply_writes (take k (commit_writes d n s)) (disk s)"
  note T = txnD [OF assms(1)]
  consider (before) "k \<le> n" | (committed) "n < k" "k \<le> 2 * n + 1" | (finished) "2 * n + 1 < k" by linarith
  then obtain u where "recover_from_log r = Inr u"
    "(\<forall>bn. bn \<notin> log_area ?st \<longrightarrow> disk u bn = disk s bn) \<or> (\<forall>bn. bn \<notin> log_area ?st \<longrightarrow> disk u bn = block_view d s bn)"
  proof cases
    case before
    note c = crash_before_header [OF assms(1) before]
    have "get32 (?D ?st) 0 = 0" unfolding c(1) by (rule assms(3))
    from recover_same [OF assms(4) this c(2)] show ?thesis using that by blast
  next
    case committed
    from recover_committed [OF assms(1) committed assms(4)] show ?thesis using that by blast
  next
    case finished
    then have k: "take k (commit_writes d n s) = commit_writes d n s" by (simp add: commit_writes_def Let_def)
    let ?E = "apply_writes (commit_writes d n s) (disk s)"
    note c = crash_done [OF assms(1)]
    have "sint (get32 (?E ?st) 0) = int 0"
      unfolding c(1) by (rule head_block_read(1)) (use T(4) length_block_view [OF T(8)] length_head_block in simp_all)
    then have "get32 (?E ?st) 0 = 0" by (rule sint_int_0)
    from recover_same [OF assms(4) [unfolded k] this c(2)] show ?thesis using that by blast
  qed
  moreover obtain t where "commit s = Inr t" "dwrites t = dwrites s @ commit_writes d n s"
    using commit_did [OF assms(1, 2)] by blast
  ultimately show ?thesis by (intro exI conjI)
qed

text \<open>One block in the transaction: block 50 holds zeros on the disk and sevens in the cache.\<close>

definition demo_txn :: "log_st \<Rightarrow> log_st" where
  "demo_txn s = s\<lparr>held := {}, curproc := Some 0, bcache_list := [8, 16, 24], bcache_count := 3,
     disk := \<lambda>_. replicate BSIZE 0, slocks := \<lambda>_. \<lparr>sk_locked = False, sk_pid = 0\<rparr>,
     bufs := (\<lambda>_. zero_buf)(8 := zero_buf\<lparr>valid := True, dev := 1, blockno := 50, refcnt := 1, data := replicate BSIZE 7\<rparr>),
     lg_dev := 1, lg_start := 2, lh := \<lparr>lh_n = 1, lh_block = 50 # replicate 29 0\<rparr>\<rparr>"

definition demo_boot :: "(uint32 \<Rightarrow> block) \<Rightarrow> log_st \<Rightarrow> log_st" where
  "demo_boot D s = s\<lparr>held := {}, curproc := Some 0, bcache_list := [8, 16], bcache_count := 2,
     disk := D, slocks := \<lambda>_. \<lparr>sk_locked = False, sk_pid = 0\<rparr>, bufs := \<lambda>_. zero_buf,
     lg_dev := 1, lg_start := 2, lh := \<lparr>lh_n = 0, lh_block = replicate 30 0\<rparr>\<rparr>"

lemma demo_home: "50 \<notin> log_area 2"
proof
  assume "50 \<in> log_area 2"
  then obtain x where x: "x < 30" "of_nat x = (47 :: uint32)"
    by (auto simp: log_area_def slot_block_def LOGBLOCKS_def MAXOPBLOCKS_def)
  then have "unat (of_nat x :: uint32) = 47" by simp
  then show False using x(1) by (simp add: unat_of_nat)
qed

lemma zero_byte: "i < 1024 \<Longrightarrow> replicate BSIZE (0 :: byte) ! i = 0"
  unfolding BSIZE_def by (rule nth_replicate)

lemma demo_txn_ok:
  "txn 1 0 1 (demo_txn s)" "get32 (disk (demo_txn s) (lg_start (demo_txn s))) 0 = 0"
  "disk (demo_txn s) 50 = replicate BSIZE 0" "block_view 1 (demo_txn s) 50 = replicate BSIZE 7"
  "lg_start (demo_txn s) = 2"
proof -
  have "bcache_inv 1 0 {50} {} (demo_txn s)"
    by (rule bcache_invI)
      (simp_all add: demo_txn_def NBUF_def MAXOPBLOCKS_def buf_ok_def pinned_def zero_buf_def cached_def split: if_splits)
  then show "txn 1 0 1 (demo_txn s)"
    by (simp add: txn_def demo_txn_def LOGBLOCKS_def MAXOPBLOCKS_def demo_home [unfolded LOGBLOCKS_def])
  show "get32 (disk (demo_txn s) (lg_start (demo_txn s))) 0 = 0"
    by (simp add: demo_txn_def get32_def zero_byte)
  show "block_view 1 (demo_txn s) 50 = replicate BSIZE 7"
    by (simp add: demo_txn_def block_view_def bget_scan_def zero_buf_def)
  show "disk (demo_txn s) 50 = replicate BSIZE 0" "lg_start (demo_txn s) = 2"
    by (simp_all add: demo_txn_def)
qed

lemma demo_boot_ok: "(\<And>bn. length (D bn) = BSIZE) \<Longrightarrow> booted 1 0 2 D (demo_boot D s)"
  unfolding booted_def
  by (intro conjI bcache_invI)
    (simp_all add: demo_boot_def NBUF_def MAXOPBLOCKS_def buf_ok_def pinned_def zero_buf_def cached_def LOGBLOCKS_def)

lemma demo_disk: "length (apply_writes (take 2 (commit_writes 1 1 (demo_txn s))) (disk (demo_txn s)) bn) = BSIZE"
proof -
  have "length (block_view 1 (demo_txn s) bn) = BSIZE" for bn
    by (rule length_block_view [OF txnD(8) [OF demo_txn_ok(1)]])
  moreover have "length (disk (demo_txn s) bn) = BSIZE" by (simp add: demo_txn_def)
  ultimately show ?thesis
    by (simp add: commit_writes_def Let_def apply_writes_simps numeral_2_eq_2)
qed

theorem commit_crash_atomic_witness:
  "\<forall>s r. \<exists>t u. commit (demo_txn s) = Inr t \<and>
     recover_from_log (demo_boot (apply_writes (take 2 (commit_writes 1 1 (demo_txn s))) (disk (demo_txn s))) r) = Inr u \<and>
     disk u 50 \<in> {replicate BSIZE 0, replicate BSIZE 7}"
proof (intro allI)
  fix s r
  let ?D = "apply_writes (take 2 (commit_writes 1 1 (demo_txn s))) (disk (demo_txn s))"
  note d = demo_txn_ok [of s]
  have "booted 1 0 2 ?D (demo_boot ?D r)" by (rule demo_boot_ok [OF demo_disk])
  then have b: "booted 1 0 (lg_start (demo_txn s)) ?D (demo_boot ?D r)" unfolding d(5) .
  obtain t u where tu: "commit (demo_txn s) = Inr t" "recover_from_log (demo_boot ?D r) = Inr u"
    and v: "(\<forall>bn. bn \<notin> log_area 2 \<longrightarrow> disk u bn = disk (demo_txn s) bn) \<or>
      (\<forall>bn. bn \<notin> log_area 2 \<longrightarrow> disk u bn = block_view 1 (demo_txn s) bn)"
    using commit_crash_atomic [OF d(1) zero_less_one d(2) b] unfolding d(5) by blast
  have "disk u 50 = replicate BSIZE 0 \<or> disk u 50 = replicate BSIZE 7"
    using v demo_home unfolding d(3, 4) [symmetric] by blast
  then show "\<exists>t u. commit (demo_txn s) = Inr t \<and> recover_from_log (demo_boot ?D r) = Inr u \<and>
      disk u 50 \<in> {replicate BSIZE 0, replicate BSIZE 7}"
    using tu by (intro exI [of _ t] exI [of _ u]) simp
qed

end
