(* ===== verification/Fs.thy ===== *)
theory Fs
  imports Log
begin

text \<open>
  The block, inode, directory and path layers of \<^verbatim>\<open>kernel/fs.c\<close>, over the buffer cache and the log. An
  in-memory inode is named by its address in the inode table. A path is the byte list of a C string without
  its NUL, and \<^verbatim>\<open>name\<close> the bytes of a path element, at most \<^verbatim>\<open>DIRSIZ\<close>. The messages printed on the console
  when blocks or inodes run out are not modelled.
\<close>

section \<open>On-disk format\<close>

definition ROOTINO :: uint32 where "ROOTINO = 1"

definition FSMAGIC :: uint32 where "FSMAGIC = 0x10203040"

definition NDIRECT :: nat where "NDIRECT = 12"

definition NINDIRECT :: nat where "NINDIRECT = BSIZE div 4"

definition MAXFILE :: nat where "MAXFILE = NDIRECT + NINDIRECT"

definition sizeof_dinode :: nat where "sizeof_dinode = 64"

definition IPB :: nat where "IPB = BSIZE div sizeof_dinode"

definition BPB :: nat where "BPB = BSIZE * 8"

definition DIRSIZ :: nat where "DIRSIZ = 14"

definition NINODE :: nat where "NINODE = 50"

definition T_DIR :: "16 word" where "T_DIR = 1"

definition T_FILE :: "16 word" where "T_FILE = 2"

definition T_DEVICE :: "16 word" where "T_DEVICE = 3"

record superblock =
  magic :: uint32
  sb_size :: uint32
  nblocks :: uint32
  ninodes :: uint32
  nlog :: uint32
  logstart :: uint32
  inodestart :: uint32
  bmapstart :: uint32

record inode =
  i_dev :: uint32
  inum :: uint32
  i_ref :: int
  i_valid :: bool
  i_type :: "16 word"
  i_major :: "16 word"
  i_minor :: "16 word"
  nlink :: "16 word"
  i_size :: uint32
  addrs :: "uint32 list"

definition zero_inode :: inode where
  "zero_inode = \<lparr>i_dev = 0, inum = 0, i_ref = 0, i_valid = False, i_type = 0, i_major = 0, i_minor = 0,
     nlink = 0, i_size = 0, addrs = replicate (NDIRECT + 1) 0\<rparr>"

definition sizeof_inode :: addr where "sizeof_inode = 136"

record fs_st = log_st +
  sb_ptr :: addr
  sb :: superblock
  itable_inode :: addr
  inodes :: "addr \<Rightarrow> inode"

definition upd_inode :: "addr \<Rightarrow> (inode \<Rightarrow> inode) \<Rightarrow> 'z fs_st_scheme \<Rightarrow> 'z fs_st_scheme" where
  "upd_inode ip f s = s\<lparr>inodes := (inodes s)(ip := f (inodes s ip))\<rparr>"

definition itable_addrs :: "'z fs_st_scheme \<Rightarrow> addr list" where
  "itable_addrs s = map (\<lambda>i. itable_inode s + of_nat i * sizeof_inode) [0 ..< NINODE]"

definition IBLOCK :: "uint32 \<Rightarrow> superblock \<Rightarrow> uint32" where
  "IBLOCK i b = i div of_nat IPB + inodestart b"

definition BBLOCK :: "uint32 \<Rightarrow> superblock \<Rightarrow> uint32" where
  "BBLOCK i b = i div of_nat BPB + bmapstart b"

text \<open>The inode \<open>i\<close> in its block: the offset of \<^verbatim>\<open>(struct dinode*)bp->data + inum%IPB\<close>, and its fields.\<close>

definition dinode_off :: "uint32 \<Rightarrow> nat" where
  "dinode_off i = unat i mod IPB * sizeof_dinode"

definition dip_type :: "block \<Rightarrow> nat \<Rightarrow> 16 word" where "dip_type d o' = get16 d o'"

definition dip_nlink :: "block \<Rightarrow> nat \<Rightarrow> 16 word" where "dip_nlink d o' = get16 d (o' + 6)"

definition load_dinode :: "block \<Rightarrow> nat \<Rightarrow> inode \<Rightarrow> inode" where
  "load_dinode d o' ip =
     ip\<lparr>i_type := get16 d o', i_major := get16 d (o' + 2), i_minor := get16 d (o' + 4),
        nlink := get16 d (o' + 6), i_size := get32 d (o' + 8),
        addrs := get_addrs (NDIRECT + 1) (o' + 12) d\<rparr>"

definition store_dinode :: "inode \<Rightarrow> nat \<Rightarrow> block \<Rightarrow> block" where
  "store_dinode ip o' d =
     (let d = put16 o' (i_type ip) d;
          d = put16 (o' + 2) (i_major ip) d;
          d = put16 (o' + 4) (i_minor ip) d;
          d = put16 (o' + 6) (nlink ip) d;
          d = put32 (o' + 8) (i_size ip) d
      in put_addrs (addrs ip) (o' + 12) d)"

text \<open>\<^verbatim>\<open>memmove\<close> and \<^verbatim>\<open>memset\<close> into a buffer.\<close>

definition splice :: "nat \<Rightarrow> byte list \<Rightarrow> block \<Rightarrow> block" where
  "splice i bs d = take i d @ bs @ drop (i + length bs) d"

section \<open>Blocks\<close>

definition readsb :: "uint32 \<Rightarrow> 'z fs_st_scheme \<Rightarrow> 'z fs_st_scheme res" where
  "readsb d s =
     bindR (bread d 1 s) (\<lambda>(bp, s).
     let x = data (bufs s bp)
     in brelse bp (s\<lparr>sb := \<lparr>magic = get32 x 0, sb_size = get32 x 4, nblocks = get32 x 8,
          ninodes = get32 x 12, nlog = get32 x 16, logstart = get32 x 20,
          inodestart = get32 x 24, bmapstart = get32 x 28\<rparr>\<rparr>))"

definition bzero :: "uint32 \<Rightarrow> uint32 \<Rightarrow> 'z fs_st_scheme \<Rightarrow> 'z fs_st_scheme res" where
  "bzero d bno s =
     bindR (bread d bno s) (\<lambda>(bp, s).
     bindR (log_write bp (upd_buf bp (data_update (\<lambda>_. replicate BSIZE 0)) s)) (\<lambda>s.
     brelse bp s))"

definition bitmask :: "nat \<Rightarrow> byte" where
  "bitmask bi = push_bit (bi mod 8) 1"

definition bit_used :: "block \<Rightarrow> nat \<Rightarrow> bool" where
  "bit_used d bi \<longleftrightarrow> d ! (bi div 8) AND bitmask bi \<noteq> 0"

definition set_bit_used :: "nat \<Rightarrow> block \<Rightarrow> block" where
  "set_bit_used bi d = d[bi div 8 := d ! (bi div 8) OR bitmask bi]"

definition clear_bit_used :: "nat \<Rightarrow> block \<Rightarrow> block" where
  "clear_bit_used bi d = d[bi div 8 := d ! (bi div 8) AND NOT (bitmask bi)]"

text \<open>The inner loop of \<^verbatim>\<open>balloc\<close>: the first free bit of a bitmap block.\<close>

definition balloc_scan :: "uint32 \<Rightarrow> uint32 \<Rightarrow> block \<Rightarrow> nat option" where
  "balloc_scan b size' d = find (\<lambda>bi. b + of_nat bi < size' \<and> \<not> bit_used d bi)
     (takeWhile (\<lambda>bi. b + of_nat bi < size') [0 ..< BPB])"

text \<open>The outer loops of \<^verbatim>\<open>balloc\<close> and of the directory scans are not structural; a failing call ends them.\<close>

definition bindL :: "'a res \<Rightarrow> ('a \<Rightarrow> 'b res option) \<Rightarrow> 'b res option" where
  "bindL r f = (case r of Inl e \<Rightarrow> Some (Inl e) | Inr x \<Rightarrow> f x)"

lemma bindL_mono [partial_function_mono]:
  "(\<And>x. mono_option (\<lambda>f. g x f)) \<Longrightarrow> mono_option (\<lambda>f. bindL r (\<lambda>x. g x f))"
  by (cases r) (simp_all add: bindL_def option.const_mono)

partial_function (option) balloc_loop ::
  "uint32 \<Rightarrow> uint32 \<Rightarrow> 'z fs_st_scheme \<Rightarrow> (uint32 \<times> 'z fs_st_scheme) res option"
where
  "balloc_loop d b s =
     (if b < sb_size (sb s)
      then
        bindL (bread d (BBLOCK b (sb s)) s) (\<lambda>(bp, s).
        case balloc_scan b (sb_size (sb s)) (data (bufs s bp)) of
          Some bi \<Rightarrow>
            bindL (log_write bp (upd_buf bp (data_update (set_bit_used bi)) s)) (\<lambda>s.
            bindL (brelse bp s) (\<lambda>s.
            bindL (bzero d (b + of_nat bi) s) (\<lambda>s. Some (Inr (b + of_nat bi, s)))))
        | None \<Rightarrow> bindL (brelse bp s) (\<lambda>s. balloc_loop d (b + of_nat BPB) s))
      else Some (Inr (0, s)))"

definition balloc :: "uint32 \<Rightarrow> 'z fs_st_scheme \<Rightarrow> (uint32 \<times> 'z fs_st_scheme) res" where
  "balloc d s = bindR (of_loop (balloc_loop d 0 s)) id"

definition bfree :: "uint32 \<Rightarrow> uint32 \<Rightarrow> 'z fs_st_scheme \<Rightarrow> 'z fs_st_scheme res" where
  "bfree d b s =
     bindR (bread d (BBLOCK b (sb s)) s) (\<lambda>(bp, s).
     let bi = unat b mod BPB in
     if \<not> bit_used (data (bufs s bp)) bi then Inl (Panic ''freeing free block'')
     else
       bindR (log_write bp (upd_buf bp (data_update (clear_bit_used bi)) s)) (\<lambda>s.
       brelse bp s))"

section \<open>Inodes\<close>

primrec iinit_loop :: "nat \<Rightarrow> nat \<Rightarrow> 'z fs_st_scheme \<Rightarrow> 'z fs_st_scheme" where
  "iinit_loop 0 i s = s"
| "iinit_loop (Suc k) i s =
     (let ip = itable_inode s + of_nat i * sizeof_inode;
          s = upd_inode ip (\<lambda>_. zero_inode) s
      in iinit_loop k (Suc i) (initsleeplock ip s))"

definition iinit :: "'z fs_st_scheme \<Rightarrow> 'z fs_st_scheme res" where
  "iinit s =
     bindR (kmalloc (sizeof_inode * of_nat NINODE) (init_lock L_itable s)) (\<lambda>(a, s).
     let s = s\<lparr>itable_inode := a\<rparr> in
     if a = 0 then Inl (Panic ''itable alloc'') else Inr (iinit_loop NINODE 0 s))"

definition iget_hit :: "uint32 \<Rightarrow> uint32 \<Rightarrow> 'z fs_st_scheme \<Rightarrow> addr option" where
  "iget_hit d i s =
     find (\<lambda>ip. i_ref (inodes s ip) > 0 \<and> i_dev (inodes s ip) = d \<and> inum (inodes s ip) = i) (itable_addrs s)"

definition iget_empty :: "'z fs_st_scheme \<Rightarrow> addr option" where
  "iget_empty s = find (\<lambda>ip. i_ref (inodes s ip) = 0) (itable_addrs s)"

definition iget :: "uint32 \<Rightarrow> uint32 \<Rightarrow> 'z fs_st_scheme \<Rightarrow> (addr \<times> 'z fs_st_scheme) res" where
  "iget d i s =
     bindR (acquire L_itable s) (\<lambda>s.
     case iget_hit d i s of
       Some ip \<Rightarrow>
         bindR (release L_itable (upd_inode ip (i_ref_update (\<lambda>r. r + 1)) s)) (\<lambda>s. Inr (ip, s))
     | None \<Rightarrow>
         (case iget_empty s of
            None \<Rightarrow> Inl (Panic ''iget: no inodes'')
          | Some ip \<Rightarrow>
              bindR (release L_itable
                (upd_inode ip (\<lambda>r. r\<lparr>i_dev := d, inum := i, i_ref := 1, i_valid := False\<rparr>) s)) (\<lambda>s.
              Inr (ip, s))))"

definition idup :: "addr \<Rightarrow> 'z fs_st_scheme \<Rightarrow> (addr \<times> 'z fs_st_scheme) res" where
  "idup ip s =
     bindR (acquire L_itable s) (\<lambda>s.
     bindR (release L_itable (upd_inode ip (i_ref_update (\<lambda>r. r + 1)) s)) (\<lambda>s. Inr (ip, s)))"

primrec ialloc_loop ::
  "nat \<Rightarrow> uint32 \<Rightarrow> uint32 \<Rightarrow> 16 word \<Rightarrow> 'z fs_st_scheme \<Rightarrow> (addr \<times> 'z fs_st_scheme) res"
where
  "ialloc_loop 0 i d ty s = Inr (0, s)"
| "ialloc_loop (Suc k) i d ty s =
     bindR (bread d (IBLOCK i (sb s)) s) (\<lambda>(bp, s).
     let dip = dinode_off i in
     if dip_type (data (bufs s bp)) dip = 0
     then
       (let s = upd_buf bp (data_update (splice dip (replicate sizeof_dinode 0))) s;
            s = upd_buf bp (data_update (put16 dip ty)) s
        in bindR (log_write bp s) (\<lambda>s.
           bindR (brelse bp s) (\<lambda>s.
           iget d i s)))
     else bindR (brelse bp s) (\<lambda>s. ialloc_loop k (i + 1) d ty s))"

definition ialloc :: "uint32 \<Rightarrow> 16 word \<Rightarrow> 'z fs_st_scheme \<Rightarrow> (addr \<times> 'z fs_st_scheme) res" where
  "ialloc d ty s = ialloc_loop (unat (ninodes (sb s)) - 1) 1 d ty s"

definition iupdate :: "addr \<Rightarrow> 'z fs_st_scheme \<Rightarrow> 'z fs_st_scheme res" where
  "iupdate ip s =
     bindR (bread (i_dev (inodes s ip)) (IBLOCK (inum (inodes s ip)) (sb s)) s) (\<lambda>(bp, s).
     let s = upd_buf bp (data_update
               (store_dinode (inodes s ip) (dinode_off (inum (inodes s ip))))) s
     in bindR (log_write bp s) (\<lambda>s. brelse bp s))"

definition ilock :: "addr \<Rightarrow> 'z fs_st_scheme \<Rightarrow> 'z fs_st_scheme res" where
  "ilock ip s =
     (if ip = 0 \<or> i_ref (inodes s ip) < 1 then Inl (Panic ''ilock'')
      else
        bindR (acquiresleep ip s) (\<lambda>s.
        if \<not> i_valid (inodes s ip)
        then
          bindR (bread (i_dev (inodes s ip)) (IBLOCK (inum (inodes s ip)) (sb s)) s) (\<lambda>(bp, s).
          let s = upd_inode ip (load_dinode (data (bufs s bp)) (dinode_off (inum (inodes s ip)))) s in
          bindR (brelse bp s) (\<lambda>s.
          let s = upd_inode ip (i_valid_update (\<lambda>_. True)) s
          in if i_type (inodes s ip) = 0 then Inl (Panic ''ilock: no type'') else Inr s))
        else Inr s))"

definition iunlock :: "addr \<Rightarrow> 'z fs_st_scheme \<Rightarrow> 'z fs_st_scheme res" where
  "iunlock ip s =
     (if ip = 0 then Inl (Panic ''iunlock'')
      else
        bindR (holdingsleep ip s) (\<lambda>(h, s).
        if \<not> h \<or> i_ref (inodes s ip) < 1 then Inl (Panic ''iunlock'') else releasesleep ip s))"

primrec itrunc_direct :: "nat \<Rightarrow> nat \<Rightarrow> addr \<Rightarrow> 'z fs_st_scheme \<Rightarrow> 'z fs_st_scheme res" where
  "itrunc_direct 0 i ip s = Inr s"
| "itrunc_direct (Suc k) i ip s =
     bindR
       (if addrs (inodes s ip) ! i \<noteq> 0
        then
          bindR (bfree (i_dev (inodes s ip)) (addrs (inodes s ip) ! i) s) (\<lambda>s.
          Inr (upd_inode ip (addrs_update (\<lambda>as. as[i := 0])) s))
        else Inr s)
       (itrunc_direct k (Suc i) ip)"

primrec itrunc_indirect :: "nat \<Rightarrow> nat \<Rightarrow> addr \<Rightarrow> addr \<Rightarrow> 'z fs_st_scheme \<Rightarrow> 'z fs_st_scheme res" where
  "itrunc_indirect 0 j bp ip s = Inr s"
| "itrunc_indirect (Suc k) j bp ip s =
     bindR
       (let a = get32 (data (bufs s bp)) (4 * j) in
        if a \<noteq> 0 then bfree (i_dev (inodes s ip)) a s else Inr s)
       (itrunc_indirect k (Suc j) bp ip)"

definition itrunc :: "addr \<Rightarrow> 'z fs_st_scheme \<Rightarrow> 'z fs_st_scheme res" where
  "itrunc ip s =
     bindR (itrunc_direct NDIRECT 0 ip s) (\<lambda>s.
     bindR
       (let a = addrs (inodes s ip) ! NDIRECT in
        if a \<noteq> 0
        then
          bindR (bread (i_dev (inodes s ip)) a s) (\<lambda>(bp, s).
          bindR (itrunc_indirect NINDIRECT 0 bp ip s) (\<lambda>s.
          bindR (brelse bp s) (\<lambda>s.
          bindR (bfree (i_dev (inodes s ip)) (addrs (inodes s ip) ! NDIRECT) s) (\<lambda>s.
          Inr (upd_inode ip (addrs_update (\<lambda>as. as[NDIRECT := 0])) s)))))
        else Inr s) (\<lambda>s.
     iupdate ip (upd_inode ip (i_size_update (\<lambda>_. 0)) s)))"

definition iput :: "addr \<Rightarrow> 'z fs_st_scheme \<Rightarrow> 'z fs_st_scheme res" where
  "iput ip s =
     bindR (acquire L_itable s) (\<lambda>s.
     bindR
       (if i_ref (inodes s ip) = 1 \<and> i_valid (inodes s ip) \<and> nlink (inodes s ip) = 0
        then
          bindR (acquiresleep ip s) (\<lambda>s.
          bindR (release L_itable s) (\<lambda>s.
          bindR (itrunc ip s) (\<lambda>s.
          bindR (iupdate ip (upd_inode ip (i_type_update (\<lambda>_. 0)) s)) (\<lambda>s.
          bindR (releasesleep ip (upd_inode ip (i_valid_update (\<lambda>_. False)) s)) (\<lambda>s.
          acquire L_itable s)))))
        else Inr s)
       (\<lambda>s. release L_itable (upd_inode ip (i_ref_update (\<lambda>r. r - 1)) s)))"

definition iunlockput :: "addr \<Rightarrow> 'z fs_st_scheme \<Rightarrow> 'z fs_st_scheme res" where
  "iunlockput ip s = bindR (iunlock ip s) (\<lambda>s. iput ip s)"

primrec ireclaim_loop :: "nat \<Rightarrow> uint32 \<Rightarrow> uint32 \<Rightarrow> 'z fs_st_scheme \<Rightarrow> 'z fs_st_scheme res" where
  "ireclaim_loop 0 i d s = Inr s"
| "ireclaim_loop (Suc k) i d s =
     bindR (bread d (IBLOCK i (sb s)) s) (\<lambda>(bp, s).
     bindR
       (let x = data (bufs s bp); dip = dinode_off i in
        if dip_type x dip \<noteq> 0 \<and> dip_nlink x dip = 0 then iget d i s else Inr (0, s)) (\<lambda>(ip, s).
     bindR (brelse bp s) (\<lambda>s.
     bindR
       (if ip \<noteq> 0
        then
          bindR (begin_op s) (\<lambda>s.
          bindR (ilock ip s) (\<lambda>s.
          bindR (iunlock ip s) (\<lambda>s.
          bindR (iput ip s) (\<lambda>s.
          end_op s))))
        else Inr s)
       (ireclaim_loop k (i + 1) d))))"

definition ireclaim :: "uint32 \<Rightarrow> 'z fs_st_scheme \<Rightarrow> 'z fs_st_scheme res" where
  "ireclaim d s = ireclaim_loop (unat (ninodes (sb s)) - 1) 1 d s"

definition fsinit :: "uint32 \<Rightarrow> 'z fs_st_scheme \<Rightarrow> 'z fs_st_scheme res" where
  "fsinit d s =
     bindR (kmalloc 32 s) (\<lambda>(p, s).
     let s = s\<lparr>sb_ptr := p\<rparr> in
     if p = 0 then Inl (Panic ''fsinit: kmalloc sb'')
     else
       bindR (readsb d s) (\<lambda>s.
       if magic (sb s) \<noteq> FSMAGIC then Inl (Panic ''invalid file system'')
       else
         bindR (initlog d (logstart (sb s)) s) (\<lambda>s.
         ireclaim d s)))"

section \<open>Inode content\<close>

definition bmap :: "addr \<Rightarrow> uint32 \<Rightarrow> 'z fs_st_scheme \<Rightarrow> (uint32 \<times> 'z fs_st_scheme) res" where
  "bmap ip bn s =
     (if unat bn < NDIRECT
      then
        (let a = addrs (inodes s ip) ! unat bn in
         if a = 0
         then
           bindR (balloc (i_dev (inodes s ip)) s) (\<lambda>(a, s).
           if a = 0 then Inr (0, s)
           else Inr (a, upd_inode ip (addrs_update (\<lambda>as. as[unat bn := a])) s))
         else Inr (a, s))
      else
        (let bn = unat bn - NDIRECT in
         if bn < NINDIRECT
         then
           bindR
             (let a = addrs (inodes s ip) ! NDIRECT in
              if a = 0
              then
                bindR (balloc (i_dev (inodes s ip)) s) (\<lambda>(a, s).
                if a = 0 then Inr (0, s)
                else Inr (a, upd_inode ip (addrs_update (\<lambda>as. as[NDIRECT := a])) s))
              else Inr (a, s)) (\<lambda>(a, s).
           if a = 0 then Inr (0, s)
           else
             bindR (bread (i_dev (inodes s ip)) a s) (\<lambda>(bp, s).
             bindR
               (let a = get32 (data (bufs s bp)) (4 * bn) in
                if a = 0
                then
                  bindR (balloc (i_dev (inodes s ip)) s) (\<lambda>(a, s).
                  if a \<noteq> 0
                  then bindR (log_write bp (upd_buf bp (data_update (put32 (4 * bn) a)) s)) (\<lambda>s. Inr (a, s))
                  else Inr (a, s))
                else Inr (a, s)) (\<lambda>(a, s).
             bindR (brelse bp s) (\<lambda>s. Inr (a, s)))))
         else Inl (Panic ''bmap: out of range'')))"

record stat =
  st_dev :: uint32
  st_ino :: uint32
  st_type :: "16 word"
  st_nlink :: "16 word"
  st_size :: "64 word"

definition stati :: "addr \<Rightarrow> 'z fs_st_scheme \<Rightarrow> stat" where
  "stati ip s =
     (let i = inodes s ip in
      \<lparr>st_dev = i_dev i, st_ino = inum i, st_type = i_type i, st_nlink = nlink i, st_size = ucast (i_size i)\<rparr>)"

text \<open>
  Where data goes to and comes from: a user address, an address of kernel memory, or a variable of the
  calling function. What is copied to a variable is the byte list the operation returns.
\<close>

datatype dest = UserDst addr | KernDst addr | VarDst

datatype source = UserSrc addr | VarSrc "byte list"

definition either_copyout :: "dest \<Rightarrow> byte list \<Rightarrow> 'z proc_st_scheme \<Rightarrow> (int \<times> 'z proc_st_scheme) res" where
  "either_copyout dst src s =
     (case dst of
        UserDst a \<Rightarrow> bindR (myproc s) (\<lambda>p. copyout (pagetable (procs s p)) a src s)
      | KernDst a \<Rightarrow> Inr (0, s\<lparr>mem := write_bytes (mem s) a src\<rparr>)
      | VarDst \<Rightarrow> Inr (0, s))"

definition either_copyin ::
  "source \<Rightarrow> nat \<Rightarrow> 'z proc_st_scheme \<Rightarrow> ((int \<times> byte list) \<times> 'z proc_st_scheme) res"
where
  "either_copyin src len s =
     (case src of
        UserSrc a \<Rightarrow> bindR (myproc s) (\<lambda>p. copyin (pagetable (procs s p)) a len s)
      | VarSrc bs \<Rightarrow> Inr ((0, take len bs), s))"

primrec dest_add :: "dest \<Rightarrow> nat \<Rightarrow> dest" where
  "dest_add (UserDst a) m = UserDst (a + of_nat m)"
| "dest_add (KernDst a) m = KernDst (a + of_nat m)"
| "dest_add VarDst m = VarDst"

primrec source_add :: "source \<Rightarrow> nat \<Rightarrow> source" where
  "source_add (UserSrc a) m = UserSrc (a + of_nat m)"
| "source_add (VarSrc bs) m = VarSrc (drop m bs)"

text \<open>\<^verbatim>\<open>min(n - tot, BSIZE - off%BSIZE)\<close>, with \<open>todo\<close> for \<^verbatim>\<open>n - tot\<close>.\<close>

definition chunk :: "nat \<Rightarrow> uint32 \<Rightarrow> nat" where
  "chunk todo off = min todo (BSIZE - unat off mod BSIZE)"

lemma chunk_pos [simp]: "0 < todo \<Longrightarrow> 0 < chunk todo off"
  by (simp add: chunk_def BSIZE_def)

text \<open>
  The loop of \<^verbatim>\<open>readi\<close> with \<open>todo\<close> bytes to go and \<open>tot\<close> done. The list is the data copied so far; the
  result is \<open>None\<close> where the code sets \<^verbatim>\<open>tot\<close> to -1.
\<close>

function readi_loop ::
  "addr \<Rightarrow> dest \<Rightarrow> uint32 \<Rightarrow> nat \<Rightarrow> byte list \<Rightarrow> 'z fs_st_scheme \<Rightarrow>
   ((bool \<times> byte list) \<times> 'z fs_st_scheme) res"
where
  "readi_loop ip dst off todo acc s =
     (if todo = 0 then Inr ((True, acc), s)
      else
        bindR (bmap ip (off div of_nat BSIZE) s) (\<lambda>(a, s).
        if a = 0 then Inr ((True, acc), s)
        else
          bindR (bread (i_dev (inodes s ip)) a s) (\<lambda>(bp, s).
          let m = chunk todo off;
              bs = take m (drop (unat off mod BSIZE) (data (bufs s bp)))
          in bindR (either_copyout dst bs s) (\<lambda>(r, s).
             bindR (brelse bp s) (\<lambda>s.
             if r = -1 then Inr ((False, acc), s)
             else readi_loop ip (dest_add dst m) (off + of_nat m) (todo - m) (acc @ bs) s)))))"
  by auto
termination by (relation "measure (\<lambda>(_, _, _, todo, _, _). todo)") auto

text \<open>The result of \<^verbatim>\<open>readi\<close>, an \<^verbatim>\<open>int\<close>, and the data copied.\<close>

definition readi ::
  "addr \<Rightarrow> dest \<Rightarrow> uint32 \<Rightarrow> uint32 \<Rightarrow> 'z fs_st_scheme \<Rightarrow> ((int \<times> byte list) \<times> 'z fs_st_scheme) res"
where
  "readi ip dst off n s =
     (let size' = i_size (inodes s ip) in
      if off > size' \<or> off + n < off then Inr ((0, []), s)
      else
        bindR (readi_loop ip dst off (unat (if off + n > size' then size' - off else n)) [] s) (\<lambda>((ok, bs), s).
        Inr ((if ok then sint (of_nat (length bs) :: uint32) else -1, bs), s)))"

function writei_loop ::
  "addr \<Rightarrow> source \<Rightarrow> uint32 \<Rightarrow> nat \<Rightarrow> nat \<Rightarrow> 'z fs_st_scheme \<Rightarrow>
   ((nat \<times> uint32) \<times> 'z fs_st_scheme) res"
where
  "writei_loop ip src off todo tot s =
     (if todo = 0 then Inr ((tot, off), s)
      else
        bindR (bmap ip (off div of_nat BSIZE) s) (\<lambda>(a, s).
        if a = 0 then Inr ((tot, off), s)
        else
          bindR (bread (i_dev (inodes s ip)) a s) (\<lambda>(bp, s).
          let m = chunk todo off in
          bindR (either_copyin src m s) (\<lambda>((r, bs), s).
          let s = upd_buf bp (data_update (splice (unat off mod BSIZE) bs)) s in
          if r = -1 then bindR (brelse bp s) (\<lambda>s. Inr ((tot, off), s))
          else
            bindR (log_write bp s) (\<lambda>s.
            bindR (brelse bp s) (\<lambda>s.
            writei_loop ip (source_add src m) (off + of_nat m) (todo - m) (tot + m) s))))))"
  by auto
termination by (relation "measure (\<lambda>(_, _, _, todo, _, _). todo)") auto

declare readi_loop.simps [simp del] writei_loop.simps [simp del]

definition writei ::
  "addr \<Rightarrow> source \<Rightarrow> uint32 \<Rightarrow> uint32 \<Rightarrow> 'z fs_st_scheme \<Rightarrow> (int \<times> 'z fs_st_scheme) res"
where
  "writei ip src off n s =
     (if off > i_size (inodes s ip) \<or> off + n < off then Inr (-1, s)
      else if unat (off + n) > MAXFILE * BSIZE then Inr (-1, s)
      else
        bindR (writei_loop ip src off (unat n) 0 s) (\<lambda>((tot, off), s).
        let s = (if off > i_size (inodes s ip) then upd_inode ip (i_size_update (\<lambda>_. off)) s else s)
        in bindR (iupdate ip s) (\<lambda>s. Inr (int tot, s))))"

section \<open>Directories\<close>

text \<open>\<^verbatim>\<open>strncmp\<close> of two names, a byte list standing for itself followed by NUL.\<close>

definition nth0 :: "byte list \<Rightarrow> nat \<Rightarrow> byte" where
  "nth0 bs i = (if i < length bs then bs ! i else 0)"

primrec namecmp_loop :: "nat \<Rightarrow> nat \<Rightarrow> byte list \<Rightarrow> byte list \<Rightarrow> int" where
  "namecmp_loop 0 i p q = 0"
| "namecmp_loop (Suc n) i p q =
     (if nth0 p i \<noteq> 0 \<and> nth0 p i = nth0 q i then namecmp_loop n (Suc i) p q
      else uint (nth0 p i) - uint (nth0 q i))"

definition namecmp :: "byte list \<Rightarrow> byte list \<Rightarrow> int" where
  "namecmp p q = namecmp_loop DIRSIZ 0 p q"

text \<open>\<^verbatim>\<open>struct dirent\<close>: two bytes of \<^verbatim>\<open>inum\<close> and \<^verbatim>\<open>DIRSIZ\<close> bytes of \<^verbatim>\<open>name\<close>.\<close>

definition de_inum :: "byte list \<Rightarrow> uint32" where "de_inum de = ucast (get16 de 0)"

definition de_name :: "byte list \<Rightarrow> byte list" where "de_name de = take DIRSIZ (drop 2 de)"

definition sizeof_dirent :: uint32 where "sizeof_dirent = 16"

definition mk_dirent :: "byte list \<Rightarrow> uint32 \<Rightarrow> byte list" where
  "mk_dirent name i =
     (let name = takeWhile (\<lambda>c. c \<noteq> 0) (take DIRSIZ name)
      in put16 0 (ucast i) (0 # 0 # name @ replicate (DIRSIZ - length name) 0))"

partial_function (option) dirlookup_loop ::
  "addr \<Rightarrow> byte list \<Rightarrow> uint32 \<Rightarrow> 'z fs_st_scheme \<Rightarrow> ((addr \<times> uint32) \<times> 'z fs_st_scheme) res option"
where
  "dirlookup_loop dp name off s =
     (if off < i_size (inodes s dp)
      then
        bindL (readi dp VarDst off sizeof_dirent s) (\<lambda>((r, de), s).
        if r \<noteq> uint sizeof_dirent then Some (Inl (Panic ''dirlookup read''))
        else if de_inum de = 0 then dirlookup_loop dp name (off + sizeof_dirent) s
        else if namecmp name (de_name de) = 0
        then bindL (iget (i_dev (inodes s dp)) (de_inum de) s) (\<lambda>(ip, s). Some (Inr ((ip, off), s)))
        else dirlookup_loop dp name (off + sizeof_dirent) s)
      else Some (Inr ((0, off), s)))"

text \<open>The inode found, or 0, and the offset of its entry.\<close>

definition dirlookup ::
  "addr \<Rightarrow> byte list \<Rightarrow> 'z fs_st_scheme \<Rightarrow> ((addr \<times> uint32) \<times> 'z fs_st_scheme) res"
where
  "dirlookup dp name s =
     (if i_type (inodes s dp) \<noteq> T_DIR then Inl (Panic ''dirlookup not DIR'')
      else bindR (of_loop (dirlookup_loop dp name 0 s)) id)"

partial_function (option) dirlink_loop ::
  "addr \<Rightarrow> uint32 \<Rightarrow> 'z fs_st_scheme \<Rightarrow> (uint32 \<times> 'z fs_st_scheme) res option"
where
  "dirlink_loop dp off s =
     (if off < i_size (inodes s dp)
      then
        bindL (readi dp VarDst off sizeof_dirent s) (\<lambda>((r, de), s).
        if r \<noteq> uint sizeof_dirent then Some (Inl (Panic ''dirlink read''))
        else if de_inum de = 0 then Some (Inr (off, s))
        else dirlink_loop dp (off + sizeof_dirent) s)
      else Some (Inr (off, s)))"

definition dirlink :: "addr \<Rightarrow> byte list \<Rightarrow> uint32 \<Rightarrow> 'z fs_st_scheme \<Rightarrow> (int \<times> 'z fs_st_scheme) res" where
  "dirlink dp name i s =
     bindR (dirlookup dp name s) (\<lambda>((ip, _), s).
     if ip \<noteq> 0 then bindR (iput ip s) (\<lambda>s. Inr (-1, s))
     else
       bindR (bindR (of_loop (dirlink_loop dp 0 s)) id) (\<lambda>(off, s).
       bindR (writei dp (VarSrc (mk_dirent name i)) off sizeof_dirent s) (\<lambda>(r, s).
       Inr (if r \<noteq> uint sizeof_dirent then -1 else 0, s))))"

section \<open>Paths\<close>

definition slash :: byte where "slash = 47"

text \<open>The element and the rest of the path, or \<open>None\<close> for the null pointer.\<close>

definition skipelem :: "byte list \<Rightarrow> (byte list \<times> byte list) option" where
  "skipelem path =
     (let path = dropWhile (\<lambda>c. c = slash) path in
      if path = [] then None
      else
        (let s = takeWhile (\<lambda>c. c \<noteq> slash) path;
             rest = dropWhile (\<lambda>c. c \<noteq> slash) path;
             name = (if length s \<ge> DIRSIZ then take DIRSIZ s else s)
         in Some (name, dropWhile (\<lambda>c. c = slash) rest)))"

lemma skipelem_shrinks: "skipelem path = Some (name, rest) \<Longrightarrow> length rest < length path"
proof -
  assume "skipelem path = Some (name, rest)"
  then obtain c cs where "dropWhile (\<lambda>c. c = slash) path = c # cs" "c \<noteq> slash"
    and rest: "rest = dropWhile (\<lambda>c. c = slash) (dropWhile (\<lambda>c. c \<noteq> slash) (c # cs))"
    by (cases "dropWhile (\<lambda>c. c = slash) path")
       (auto simp: skipelem_def Let_def split: if_splits dest: dropWhile_eq_Cons_conv [THEN iffD1])
  then have "length rest \<le> length cs"
    using length_dropWhile_le [of "\<lambda>c. c = slash" "dropWhile (\<lambda>c. c \<noteq> slash) cs"]
      length_dropWhile_le [of "\<lambda>c. c \<noteq> slash" cs] by simp
  also have "length cs < length path"
    using length_dropWhile_le [of "\<lambda>c. c = slash" path]
      \<open>dropWhile (\<lambda>c. c = slash) path = c # cs\<close> by simp
  finally show ?thesis .
qed

text \<open>
  The loop of \<^verbatim>\<open>namex\<close>. The result is the inode, or 0, and \<^verbatim>\<open>name\<close>, the element copied last.
\<close>

function namex_loop ::
  "byte list \<Rightarrow> bool \<Rightarrow> byte list \<Rightarrow> addr \<Rightarrow> 'z fs_st_scheme \<Rightarrow> ((addr \<times> byte list) \<times> 'z fs_st_scheme) res"
where
  "namex_loop path nameiparent name ip s =
     (case skipelem path of
        None \<Rightarrow>
          if nameiparent then bindR (iput ip s) (\<lambda>s. Inr ((0, name), s)) else Inr ((ip, name), s)
      | Some (name, path) \<Rightarrow>
          bindR (ilock ip s) (\<lambda>s.
          if i_type (inodes s ip) \<noteq> T_DIR then bindR (iunlockput ip s) (\<lambda>s. Inr ((0, name), s))
          else if nameiparent \<and> path = [] then bindR (iunlock ip s) (\<lambda>s. Inr ((ip, name), s))
          else
            bindR (dirlookup ip name s) (\<lambda>((nxt, _), s).
            bindR (iunlockput ip s) (\<lambda>s.
            if nxt = 0 then Inr ((0, name), s) else namex_loop path nameiparent name nxt s))))"
  by auto
termination
  by (relation "measure (\<lambda>(path, _). length path)") (auto dest: skipelem_shrinks)

declare namex_loop.simps [simp del]

definition namex ::
  "byte list \<Rightarrow> bool \<Rightarrow> 'z fs_st_scheme \<Rightarrow> ((addr \<times> byte list) \<times> 'z fs_st_scheme) res"
where
  "namex path nameiparent s =
     bindR
       (if nth0 path 0 = slash then iget ROOTDEV ROOTINO s
        else bindR (myproc s) (\<lambda>p. idup (cwd (procs s p)) s)) (\<lambda>(ip, s).
     namex_loop path nameiparent [] ip s)"

definition namei :: "byte list \<Rightarrow> 'z fs_st_scheme \<Rightarrow> (addr \<times> 'z fs_st_scheme) res" where
  "namei path s = bindR (namex path False s) (\<lambda>((ip, _), s). Inr (ip, s))"

definition nameiparent ::
  "byte list \<Rightarrow> 'z fs_st_scheme \<Rightarrow> ((addr \<times> byte list) \<times> 'z fs_st_scheme) res"
where
  "nameiparent path s = namex path True s"

section \<open>Names\<close>

text \<open>The name a byte buffer holds: up to \<^verbatim>\<open>DIRSIZ\<close> bytes, or up to the first NUL.\<close>

definition cname :: "byte list \<Rightarrow> byte list" where
  "cname p = takeWhile (\<lambda>c. c \<noteq> 0) (take DIRSIZ p)"

lemma namecmp_loop_eq:
  "namecmp_loop n i p q = 0 \<longleftrightarrow>
   takeWhile (\<lambda>c. c \<noteq> 0) (map (nth0 p) [i ..< i + n]) = takeWhile (\<lambda>c. c \<noteq> 0) (map (nth0 q) [i ..< i + n])"
proof (induction n arbitrary: i)
  case (Suc n)
  have r: "[i ..< i + Suc n] = i # [Suc i ..< Suc i + n]" by (simp add: upt_rec)
  have u: "uint a = uint b \<longleftrightarrow> a = b" for a b :: byte by (rule word_uint_eq_iff [symmetric])
  have z: "uint a = 0 \<longleftrightarrow> a = 0" for a :: byte by (rule uint_0_iff)
  show ?case
    unfolding r namecmp_loop.simps list.map takeWhile.simps
    using Suc.IH [of "Suc i"] by (auto simp: u z)
qed simp

lemma map_nth0: "map (nth0 p) [0 ..< n] = take n p @ replicate (n - length p) 0"
  by (rule nth_equalityI) (auto simp: nth0_def nth_append)

lemma takeWhile_nonzero_zeros:
  "takeWhile (\<lambda>c. c \<noteq> (0::byte)) (xs @ replicate k 0) = takeWhile (\<lambda>c. c \<noteq> 0) xs"
  by (induction xs) (cases k; simp)+

lemma namecmp_cname: "namecmp p q = 0 \<longleftrightarrow> cname p = cname q"
  using namecmp_loop_eq [of DIRSIZ 0 p q]
  by (simp add: namecmp_def cname_def map_nth0 takeWhile_nonzero_zeros)

text \<open>
  C34: Two names are equal for \<^verbatim>\<open>namecmp\<close> exactly when the strings their buffers hold are equal, a string
  ending at its first NUL or after \<^verbatim>\<open>DIRSIZ\<close> bytes: the byte-wise loop is comparison of names.
\<close>

theorem namecmp_equality:
  "namecmp p q = 0 \<longleftrightarrow>
   takeWhile (\<lambda>c. c \<noteq> 0) (take DIRSIZ p) = takeWhile (\<lambda>c. c \<noteq> 0) (take DIRSIZ q)"
  using namecmp_cname [of p q] by (simp add: cname_def)

section \<open>Inodes on disk\<close>



section \<open>Directory entries and path elements\<close>

lemma length_takeWhile_take [simp]: "length (takeWhile P (take n xs)) \<le> n"
  using length_takeWhile_le [of P "take n xs"] by simp

lemma cname_idem [simp]: "cname (cname p @ replicate (DIRSIZ - length (cname p)) 0) = cname p"
  by (simp add: cname_def takeWhile_nonzero_zeros)

text \<open>
  C32: The entry \<^verbatim>\<open>dirlink\<close> writes for a name and an inode number is 16 bytes from which \<^verbatim>\<open>dirlookup\<close> reads back
  the number, and whose name equals exactly the names that agree with the given one as names of at most
  \<^verbatim>\<open>DIRSIZ\<close> bytes.
\<close>

theorem dirent_roundtrip:
  assumes "i < 65536"
  shows "length (mk_dirent name i) = unat sizeof_dirent \<and> de_inum (mk_dirent name i) = i \<and>
    (namecmp other (de_name (mk_dirent name i)) = 0 \<longleftrightarrow> namecmp other name = 0)"
proof -
  let ?n = "cname name"
  have m: "mk_dirent name i = put16 0 (ucast i) (0 # 0 # ?n @ replicate (DIRSIZ - length ?n) 0)"
    by (simp add: mk_dirent_def cname_def Let_def)
  have len: "length ?n \<le> DIRSIZ" by (simp add: cname_def)
  have nm: "de_name (mk_dirent name i) = ?n @ replicate (DIRSIZ - length ?n) 0"
    using len by (simp add: m de_name_def put16_def)
  have "ucast (ucast i :: 16 word) = i"
    using assms by (simp add: word_unat_eq_iff unsigned_ucast_eq unsigned_take_bit_eq take_bit_nat_eq_self word_less_nat_alt)
  then have "de_inum (mk_dirent name i) = i"
    by (simp add: m de_inum_def)
  moreover have "length (mk_dirent name i) = unat sizeof_dirent"
    using len by (simp add: m sizeof_dirent_def DIRSIZ_def)
  moreover have "namecmp other (de_name (mk_dirent name i)) = 0 \<longleftrightarrow> namecmp other name = 0"
    by (simp add: nm namecmp_cname)
  ultimately show ?thesis by blast
qed

theorem dirent_roundtrip_witness:
  "de_inum (mk_dirent [97, 98] 7) = 7 \<and> namecmp [97, 98] (de_name (mk_dirent [97, 98] 7)) = 0"
  using dirent_roundtrip [of 7 "[97, 98]" "[97, 98]"]
  by (simp add: namecmp_cname)

text \<open>
  The elements of a path: its maximal runs of bytes other than a slash, each cut to \<^verbatim>\<open>DIRSIZ\<close> bytes.
  \<open>path_walk\<close> is the sequence of names \<^verbatim>\<open>namex\<close> gets by calling \<^verbatim>\<open>skipelem\<close> until it returns null.
\<close>

fun runs :: "byte list \<Rightarrow> byte list \<Rightarrow> byte list list" where
  "runs cur [] = (if cur = [] then [] else [cur])"
| "runs cur (c # cs) =
     (if c = slash then (if cur = [] then runs [] cs else cur # runs [] cs) else runs (cur @ [c]) cs)"

function path_walk :: "byte list \<Rightarrow> byte list list" where
  "path_walk path =
     (case skipelem path of None \<Rightarrow> [] | Some (name, rest) \<Rightarrow> name # path_walk rest)"
  by auto
termination by (relation "measure length") (auto dest: skipelem_shrinks)

declare path_walk.simps [simp del]

lemma runs_slashes: "runs [] (dropWhile (\<lambda>c. c = slash) cs) = runs [] cs"
  by (induction cs) auto

lemma runs_elem:
  "runs cur cs =
   (let e = cur @ takeWhile (\<lambda>c. c \<noteq> slash) cs; rest = dropWhile (\<lambda>c. c \<noteq> slash) cs
    in if e = [] then runs [] rest else e # runs [] rest)"
  by (induction cur cs rule: runs.induct) (auto simp: Let_def)

text \<open>
  C33: Calling \<^verbatim>\<open>skipelem\<close> until it returns null terminates and visits exactly the elements of the path, in
  order, whatever slashes lead, trail or repeat, each element cut to \<^verbatim>\<open>DIRSIZ\<close> bytes.
\<close>

theorem skipelem_visits_elements: "path_walk path = map (take DIRSIZ) (runs [] path)"
proof (induction path rule: path_walk.induct)
  case (1 path)
  let ?p = "dropWhile (\<lambda>c. c = slash) path"
  let ?e = "takeWhile (\<lambda>c. c \<noteq> slash) ?p" and ?rest = "dropWhile (\<lambda>c. c \<noteq> slash) ?p"
  show ?case
  proof (cases "?p = []")
    case True
    then have "runs [] path = []" using runs_slashes [of path] by (simp only: True runs.simps) simp
    then show ?thesis using True by (simp add: path_walk.simps [of path] skipelem_def)
  next
    case False
    then have "hd ?p \<noteq> slash" using hd_dropWhile [of "\<lambda>c. c = slash" path] by simp
    then have e: "?e \<noteq> []" using False by (cases ?p) auto
    have sk: "skipelem path = Some (take DIRSIZ ?e, dropWhile (\<lambda>c. c = slash) ?rest)"
      using False by (simp add: skipelem_def Let_def)
    have "runs [] path = ?e # runs [] ?rest"
      using runs_elem [of "[]" ?p] runs_slashes [of path] e by (simp add: Let_def)
    moreover have "path_walk (dropWhile (\<lambda>c. c = slash) ?rest) = map (take DIRSIZ) (runs [] ?rest)"
      using 1 [OF sk refl] runs_slashes [of ?rest] by simp
    ultimately show ?thesis by (simp add: path_walk.simps [of path] sk)
  qed
qed

end
