(* ===== verification/Ring.thy ===== *)
theory Ring
  imports Prelude
begin

text \<open>
  Circular buffers indexed by 32-bit counters that only grow and may wrap: the content of a buffer as a list. The size
  divides \<open>2 ^ 32\<close>, so that a position is its counter modulo the size across the wrap.
\<close>

definition ring :: "byte list \<Rightarrow> uint32 \<Rightarrow> nat \<Rightarrow> byte list" where
  "ring buf r k = map (\<lambda>i. buf ! ((unat r + i) mod length buf)) [0 ..< k]"

lemma length_ring [simp]: "length (ring buf r k) = k"
  by (simp add: ring_def)

lemma ring_pos:
  assumes "n dvd 2 ^ 32"
  shows "unat (x + of_nat k :: uint32) mod n = (unat x + k) mod n"
proof -
  have "unat (x + of_nat k :: uint32) = (unat x + k) mod 2 ^ 32"
    by (simp add: unat_word_ariths unat_of_nat mod_add_right_eq)
  then show ?thesis using assms by (simp add: mod_mod_cancel)
qed

lemma ring_take: "j \<le> k \<Longrightarrow> take j (ring buf r k) = ring buf r j"
  by (simp add: ring_def take_map)

lemma ring_last: "ring buf r (Suc k) = ring buf r k @ [buf ! ((unat r + k) mod length buf)]"
  by (simp add: ring_def)

lemma ring_put:
  assumes "k < length buf"
  shows "ring (buf[(unat r + k) mod length buf := c]) r (Suc k) = ring buf r k @ [c]"
proof -
  let ?n = "length buf" and ?p = "(unat r + k) mod length buf"
  have "?p \<noteq> (unat r + i) mod ?n" if "i < k" for i
  proof
    assume "?p = (unat r + i) mod ?n"
    then have "?n dvd (unat r + k) - (unat r + i)"
      using mod_eq_dvd_iff_nat [of "unat r + i" "unat r + k" ?n] that by simp
    then have "?n \<le> k - i" using that by (intro dvd_imp_le) simp_all
    then show False using assms by simp
  qed
  moreover have "?p < ?n" using assms by (intro mod_less_divisor) linarith
  ultimately show ?thesis by (simp add: ring_def)
qed

end
