(* ===== verification/Console.thy ===== *)
theory Console
  imports Fs Ring
begin

text \<open>
  The console driver, \<^verbatim>\<open>kernel/console.c\<close>: line editing of the input in a circular buffer, \<^verbatim>\<open>read\<close> and \<^verbatim>\<open>write\<close>
  of the device. The bytes written to the transmit register of the UART are the list \<open>uart_out\<close>. Where
  \<^verbatim>\<open>consoleread\<close> sleeps, its result is \<open>Asleep\<close> with what it still has to do, and \<open>consoleread_loop\<close> is run
  again when it wakes.
\<close>

datatype 'a outcome = Ret int | Asleep 'a

definition INPUT_BUF_SIZE :: nat where "INPUT_BUF_SIZE = 128"

definition BACKSPACE :: int where "BACKSPACE = 0x100"

definition Ctl :: "int \<Rightarrow> int" where "Ctl x = x - 64"

definition newline :: byte where "newline = 10"

record console =
  con_bufp :: addr
  con_buf :: "byte list"
  con_r :: uint32
  con_w :: uint32
  con_e :: uint32

record cons_st = fs_st +
  cons_ptr :: addr
  cons :: console
  uart_out :: "byte list"
  devsw_console :: bool

abbreviation upd_cons :: "(console \<Rightarrow> console) \<Rightarrow> 'z cons_st_scheme \<Rightarrow> 'z cons_st_scheme" where
  "upd_cons f s \<equiv> s\<lparr>cons := f (cons s)\<rparr>"

definition uartputc_sync :: "int \<Rightarrow> 'z cons_st_scheme \<Rightarrow> 'z cons_st_scheme" where
  "uartputc_sync c s = s\<lparr>uart_out := uart_out s @ [word_of_int c]\<rparr>"

definition uartwrite :: "byte list \<Rightarrow> 'z cons_st_scheme \<Rightarrow> 'z cons_st_scheme" where
  "uartwrite bs s = s\<lparr>uart_out := uart_out s @ bs\<rparr>"

definition consputc :: "int \<Rightarrow> 'z cons_st_scheme \<Rightarrow> 'z cons_st_scheme" where
  "consputc c s =
     (if c = BACKSPACE then uartputc_sync 8 (uartputc_sync 32 (uartputc_sync 8 s)) else uartputc_sync c s)"

text \<open>The loop of \<^verbatim>\<open>consolewrite\<close> with \<open>todo\<close> bytes to go and \<open>i\<close> written, in batches of 32.\<close>

function consolewrite_loop ::
  "source \<Rightarrow> nat \<Rightarrow> nat \<Rightarrow> 'z cons_st_scheme \<Rightarrow> (int \<times> 'z cons_st_scheme) res"
where
  "consolewrite_loop src i todo s =
     (if todo = 0 then Inr (int i, s)
      else
        (let nn = min 32 todo in
         bindR (either_copyin src nn s) (\<lambda>((r, bs), s).
         if r = -1 then Inr (int i, s)
         else consolewrite_loop (source_add src nn) (i + nn) (todo - nn) (uartwrite bs s))))"
  by auto
termination by (relation "measure (\<lambda>(_, _, todo, _). todo)") auto

declare consolewrite_loop.simps [simp del]

definition consolewrite :: "source \<Rightarrow> int \<Rightarrow> 'z cons_st_scheme \<Rightarrow> (int \<times> 'z cons_st_scheme) res" where
  "consolewrite src n s = consolewrite_loop src 0 (nat n) s"

primrec consoleread_loop ::
  "int \<Rightarrow> nat \<Rightarrow> dest \<Rightarrow> 'z cons_st_scheme \<Rightarrow> ((dest \<times> nat) outcome \<times> 'z cons_st_scheme) res"
where
  "consoleread_loop target 0 dst s = bindR (release L_cons s) (\<lambda>s. Inr (Ret target, s))"
| "consoleread_loop target (Suc n) dst s =
     (if con_r (cons s) = con_w (cons s)
      then
        bindR (myproc s) (\<lambda>p.
        bindR (killed p s) (\<lambda>(k, s).
        if k \<noteq> 0 then bindR (release L_cons s) (\<lambda>s. Inr (Ret (-1), s))
        else Inr (Asleep (dst, Suc n), s)))
      else
        (let c = con_buf (cons s) ! (unat (con_r (cons s)) mod INPUT_BUF_SIZE);
             s = upd_cons (con_r_update (\<lambda>r. r + 1)) s
         in if uint c = Ctl 68
            then
              (let s = (if int (Suc n) < target then upd_cons (con_r_update (\<lambda>r. r - 1)) s else s)
               in bindR (release L_cons s) (\<lambda>s. Inr (Ret (target - int (Suc n)), s)))
            else
              bindR (either_copyout dst [c] s) (\<lambda>(r, s).
              if r = -1 then bindR (release L_cons s) (\<lambda>s. Inr (Ret (target - int (Suc n)), s))
              else if c = newline
              then bindR (release L_cons s) (\<lambda>s. Inr (Ret (target - int n), s))
              else consoleread_loop target n (dest_add dst 1) s)))"

definition consoleread ::
  "dest \<Rightarrow> int \<Rightarrow> 'z cons_st_scheme \<Rightarrow> ((dest \<times> nat) outcome \<times> 'z cons_st_scheme) res"
where
  "consoleread dst n s =
     bindR (acquire L_cons s) (\<lambda>s.
     if n > 0 then consoleread_loop n (nat n) dst s
     else bindR (release L_cons s) (\<lambda>s. Inr (Ret 0, s)))"

text \<open>The loop that handles kill-line; it runs at most \<open>e - w\<close> times.\<close>

primrec kill_line :: "nat \<Rightarrow> 'z cons_st_scheme \<Rightarrow> 'z cons_st_scheme" where
  "kill_line 0 s = s"
| "kill_line (Suc k) s =
     (if con_e (cons s) \<noteq> con_w (cons s) \<and>
         con_buf (cons s) ! (unat (con_e (cons s) - 1) mod INPUT_BUF_SIZE) \<noteq> newline
      then kill_line k (consputc BACKSPACE (upd_cons (con_e_update (\<lambda>e. e - 1)) s))
      else s)"

definition consoleintr :: "int \<Rightarrow> 'z cons_st_scheme \<Rightarrow> 'z cons_st_scheme res" where
  "consoleintr c s =
     bindR (acquire L_cons s) (\<lambda>s.
     bindR
       (if c = Ctl 80 then Inr s
        else if c = Ctl 85 then Inr (kill_line (unat (con_e (cons s) - con_w (cons s))) s)
        else if c = Ctl 72 \<or> c = 127
        then
          (if con_e (cons s) \<noteq> con_w (cons s)
           then Inr (consputc BACKSPACE (upd_cons (con_e_update (\<lambda>e. e - 1)) s))
           else Inr s)
        else if c \<noteq> 0 \<and> unat (con_e (cons s) - con_r (cons s)) < INPUT_BUF_SIZE
        then
          (let c = (if c = 13 then 10 else c);
               s = consputc c s;
               s = upd_cons (\<lambda>k. k\<lparr>con_buf := (con_buf k)[unat (con_e k) mod INPUT_BUF_SIZE := word_of_int c],
                                    con_e := con_e k + 1\<rparr>) s
           in if c = 10 \<or> c = Ctl 68 \<or> unat (con_e (cons s) - con_r (cons s)) = INPUT_BUF_SIZE
              then wakeup (cons_ptr s + 32) (upd_cons (\<lambda>k. k\<lparr>con_w := con_e k\<rparr>) s)
              else Inr s)
        else Inr s)
       (release L_cons))"

text \<open>The input buffer is not cleared: it holds the bytes found in the memory it was given.\<close>

definition consoleinit :: "'z cons_st_scheme \<Rightarrow> 'z cons_st_scheme res" where
  "consoleinit s =
     bindR (kmalloc 48 s) (\<lambda>(p, s).
     let s = s\<lparr>cons_ptr := p\<rparr> in
     if p = 0 then Inl (Panic ''console alloc'')
     else
       (let s = upd_cons (\<lambda>_. \<lparr>con_bufp = 0, con_buf = [], con_r = 0, con_w = 0, con_e = 0\<rparr>) s;
            s = init_lock L_cons s
        in bindR (kmalloc (of_nat INPUT_BUF_SIZE) s) (\<lambda>(b, s).
           if b = 0 then Inl (Panic ''console buf alloc'')
           else
             (let s = upd_cons (\<lambda>k. k\<lparr>con_bufp := b, con_buf := read_bytes (mem s) b INPUT_BUF_SIZE\<rparr>) s
              in Inr (s\<lparr>devsw_console := True\<rparr>)))))"

section \<open>The line editor\<close>

text \<open>
  What the driver keeps for the reader: the bytes a read may take, and the line being edited. \<open>edit\<close> is the effect of
  a typed byte on them.
\<close>

definition con_content :: "console \<Rightarrow> byte list" where
  "con_content k = ring (con_buf k) (con_r k) (unat (con_e k - con_r k))"

definition con_abs :: "console \<Rightarrow> byte list \<times> byte list" where
  "con_abs k = (take (unat (con_w k - con_r k)) (con_content k), drop (unat (con_w k - con_r k)) (con_content k))"

definition con_ok :: "console \<Rightarrow> bool" where
  "con_ok k \<longleftrightarrow> length (con_buf k) = INPUT_BUF_SIZE \<and> unat (con_w k - con_r k) \<le> unat (con_e k - con_r k) \<and>
     unat (con_e k - con_r k) \<le> INPUT_BUF_SIZE \<and> newline \<notin> set (snd (con_abs k))"

definition edit :: "int \<Rightarrow> byte list \<times> byte list \<Rightarrow> byte list \<times> byte list" where
  "edit c ab =
     (let (rdy, line) = ab in
      if c = Ctl 80 then (rdy, line)
      else if c = Ctl 85 then (rdy, [])
      else if c = Ctl 72 \<or> c = 127 then (rdy, butlast line)
      else if c \<noteq> 0 \<and> length rdy + length line < INPUT_BUF_SIZE
      then
        (let c = (if c = 13 then 10 else c); line = line @ [word_of_int c] in
         if c = 10 \<or> c = Ctl 68 \<or> length rdy + length line = INPUT_BUF_SIZE then (rdy @ line, []) else (rdy, line))
      else (rdy, line))"

lemma con_abs_lengths:
  assumes "con_ok k"
  shows "length (fst (con_abs k)) = unat (con_w k - con_r k)"
    "length (snd (con_abs k)) = unat (con_e k - con_r k) - unat (con_w k - con_r k)"
    "length (snd (con_abs k)) = unat (con_e k - con_w k)"
    "con_e k = con_w k \<longleftrightarrow> snd (con_abs k) = []"
proof -
  have le: "unat (con_w k - con_r k) \<le> unat (con_e k - con_r k)" using assms by (simp add: con_ok_def)
  show "length (fst (con_abs k)) = unat (con_w k - con_r k)"
    and l: "length (snd (con_abs k)) = unat (con_e k - con_r k) - unat (con_w k - con_r k)"
    using le by (simp_all add: con_abs_def con_content_def)
  have "unat ((con_e k - con_r k) - (con_w k - con_r k)) = unat (con_e k - con_r k) - unat (con_w k - con_r k)"
    by (rule unat_sub) (use le in \<open>simp add: word_le_nat_alt\<close>)
  then show l2: "length (snd (con_abs k)) = unat (con_e k - con_w k)" using l by simp
  have "con_e k = con_w k \<longleftrightarrow> unat (con_e k - con_w k) = 0" by (simp add: unat_eq_0)
  then show "con_e k = con_w k \<longleftrightarrow> snd (con_abs k) = []" using l2 by (metis length_0_conv)
qed

lemma con_len: "con_ok k \<Longrightarrow> length (fst (con_abs k)) + length (snd (con_abs k)) = unat (con_e k - con_r k)"
  using con_abs_lengths(1,2) [of k] by (simp add: con_ok_def)

lemma dvd_size: "INPUT_BUF_SIZE dvd 2 ^ 32"
  unfolding INPUT_BUF_SIZE_def by (rule dvdI [of _ _ 33554432]) simp

lemma con_back:
  assumes k: "con_ok k" and ne: "con_e k \<noteq> con_w k"
  defines "k' \<equiv> con_e_update (\<lambda>e. e - 1) k"
  shows "con_ok k'" "con_abs k' = (fst (con_abs k), butlast (snd (con_abs k)))"
    "con_buf k ! (unat (con_e k - 1) mod INPUT_BUF_SIZE) \<noteq> newline"
proof -
  let ?w = "unat (con_w k - con_r k)" and ?e = "unat (con_e k - con_r k)"
  have line: "snd (con_abs k) \<noteq> []" using con_abs_lengths(4) [OF k] ne by simp
  then have lt: "?w < ?e" using con_abs_lengths(2) [OF k] by (metis length_0_conv zero_less_diff gr0I)
  obtain m where m: "?e = Suc m" using lt by (cases ?e) auto
  have nz: "con_e k - con_r k \<noteq> 0" using m by (metis nat.distinct(1) unat_0)
  have e': "unat (con_e k - 1 - con_r k) = m"
    using unat_minus_one [OF nz] m by (simp add: algebra_simps)
  have sz: "length (con_buf k) = INPUT_BUF_SIZE" using k by (simp add: con_ok_def)
  have c: "con_content k = con_content k' @ [con_buf k ! ((unat (con_r k) + m) mod INPUT_BUF_SIZE)]"
    using m e' sz by (simp add: con_content_def k'_def ring_last)
  have l': "length (con_content k') = m" using e' by (simp add: con_content_def k'_def)
  have d: "drop ?w (con_content k) = drop ?w (con_content k') @ [con_buf k ! ((unat (con_r k) + m) mod INPUT_BUF_SIZE)]"
    unfolding c using l' lt m by simp
  show abs: "con_abs k' = (fst (con_abs k), butlast (snd (con_abs k)))"
    unfolding con_abs_def fst_conv snd_conv d using l' lt m by (simp add: c k'_def)
  have pos: "con_e k - 1 = con_r k + of_nat m"
    using e' by (metis add.commute diff_add_cancel of_nat_unat ucast_id)
  have "unat (con_e k - 1) mod INPUT_BUF_SIZE = (unat (con_r k) + m) mod INPUT_BUF_SIZE"
    unfolding pos by (rule ring_pos [OF dvd_size])
  then have "con_buf k ! (unat (con_e k - 1) mod INPUT_BUF_SIZE) \<in> set (snd (con_abs k))"
    unfolding con_abs_def snd_conv d by simp
  then show "con_buf k ! (unat (con_e k - 1) mod INPUT_BUF_SIZE) \<noteq> newline" using k by (auto simp: con_ok_def)
  have "newline \<notin> set (snd (con_abs k'))"
    unfolding abs snd_conv using k by (auto simp: con_ok_def dest: in_set_butlastD)
  then show "con_ok k'" using k e' m lt by (simp add: con_ok_def k'_def)
qed

lemma con_put:
  fixes b :: byte
  assumes k: "con_ok k" and lt: "unat (con_e k - con_r k) < INPUT_BUF_SIZE"
  defines "k' \<equiv> k\<lparr>con_buf := (con_buf k)[unat (con_e k) mod INPUT_BUF_SIZE := b], con_e := con_e k + 1\<rparr>"
  shows "con_content k' = con_content k @ [b]" "unat (con_e k' - con_r k') = Suc (unat (con_e k - con_r k))"
    "length (con_buf k') = INPUT_BUF_SIZE" "con_abs k' = (fst (con_abs k), snd (con_abs k) @ [b])"
proof -
  let ?e = "unat (con_e k - con_r k)"
  have sz: "length (con_buf k) = INPUT_BUF_SIZE" using k by (simp add: con_ok_def)
  then show "length (con_buf k') = INPUT_BUF_SIZE" by (simp add: k'_def)
  have "unat ((con_e k - con_r k) + 1) = Suc ?e"
    using lt by (simp add: unat_plus_if' INPUT_BUF_SIZE_def)
  then show e': "unat (con_e k' - con_r k') = Suc ?e" by (simp add: k'_def algebra_simps)
  have "con_e k = con_r k + of_nat ?e" by simp
  then have "unat (con_e k) mod INPUT_BUF_SIZE = (unat (con_r k) + ?e) mod length (con_buf k)"
    unfolding sz using ring_pos [OF dvd_size, of "con_r k" ?e] by simp
  then show c: "con_content k' = con_content k @ [b]"
    using ring_put [of ?e "con_buf k" "con_r k" b] lt sz e' by (simp add: con_content_def k'_def)
  have "unat (con_w k - con_r k) \<le> length (con_content k)" using k by (simp add: con_ok_def con_content_def)
  then show "con_abs k' = (fst (con_abs k), snd (con_abs k) @ [b])"
    unfolding con_abs_def c by (simp add: k'_def)
qed

lemma con_commit:
  assumes "length (con_buf k) = INPUT_BUF_SIZE" and "unat (con_e k - con_r k) \<le> INPUT_BUF_SIZE"
  shows "con_ok (k\<lparr>con_w := con_e k\<rparr>)" "con_abs (k\<lparr>con_w := con_e k\<rparr>) = (con_content k, [])"
  using assms by (simp_all add: con_ok_def con_abs_def con_content_def)

lemma consputc_simps [simp]: "cons (consputc c s) = cons s" "held (consputc c s) = held s"
  "no_proc_locks (consputc c s) = no_proc_locks s" "cons_ptr (consputc c s) = cons_ptr s"
  by (simp_all add: consputc_def uartputc_sync_def no_proc_locks_def)

lemma kill_line_ok:
  "con_ok (cons s) \<Longrightarrow> unat (con_e (cons s) - con_w (cons s)) = n \<Longrightarrow>
   con_ok (cons (kill_line n s)) \<and> con_abs (cons (kill_line n s)) = (fst (con_abs (cons s)), []) \<and>
   held (kill_line n s) = held s"
proof (induction n arbitrary: s)
  case 0
  then have "snd (con_abs (cons s)) = []" using con_abs_lengths(3) [OF 0(1)] by simp
  then show ?case using 0 by (metis kill_line.simps(1) prod.collapse)
next
  case (Suc n)
  have "snd (con_abs (cons s)) \<noteq> []" using con_abs_lengths(3) [OF Suc.prems(1)] Suc.prems(2) by auto
  then have ne: "con_e (cons s) \<noteq> con_w (cons s)" using con_abs_lengths(4) [OF Suc.prems(1)] by simp
  note b = con_back [OF Suc.prems(1) ne]
  let ?t = "consputc BACKSPACE (upd_cons (con_e_update (\<lambda>e. e - 1)) s)"
  have step: "kill_line (Suc n) s = kill_line n ?t" using ne b(3) by simp
  have "unat (con_e (cons ?t) - con_w (cons ?t)) = n"
    using con_abs_lengths(3) [OF b(1)] con_abs_lengths(3) [OF Suc.prems(1)] Suc.prems(2) b(2) by simp
  from Suc.IH [OF _ this] show ?case unfolding step using b(1,2) by simp
qed

lemma byte_newline: "0 \<le> c \<Longrightarrow> c < 256 \<Longrightarrow> (word_of_int c :: byte) = newline \<longleftrightarrow> c = 10"
  using word_of_int_eq_iff [where 'a = 8, of c 10] by (simp add: newline_def take_bit_eq_mod)

lemma no_proc_locks_cons [simp]: "no_proc_locks (s\<lparr>cons := k\<rparr>) = no_proc_locks s"
  by (simp add: no_proc_locks_def)

text \<open>The default branch of \<^verbatim>\<open>consoleintr\<close> on the buffer.\<close>

lemma con_type:
  assumes k: "con_ok k" and lt: "unat (con_e k - con_r k) < INPUT_BUF_SIZE" and c: "0 \<le> c" "c < 256"
  defines "k' \<equiv> k\<lparr>con_buf := (con_buf k)[unat (con_e k) mod INPUT_BUF_SIZE := word_of_int c], con_e := con_e k + 1\<rparr>"
  defines "m \<equiv> c = 10 \<or> c = Ctl 68 \<or> unat (con_e k' - con_r k') = INPUT_BUF_SIZE"
  shows "con_ok (if m then k'\<lparr>con_w := con_e k'\<rparr> else k')"
    "con_abs (if m then k'\<lparr>con_w := con_e k'\<rparr> else k') =
      (if m then (fst (con_abs k) @ snd (con_abs k) @ [word_of_int c], []) else (fst (con_abs k), snd (con_abs k) @ [word_of_int c]))"
    "unat (con_e k' - con_r k') = Suc (length (fst (con_abs k)) + length (snd (con_abs k)))"
proof -
  note p = con_put [OF k lt, of "word_of_int c", folded k'_def]
  show "unat (con_e k' - con_r k') = Suc (length (fst (con_abs k)) + length (snd (con_abs k)))"
    unfolding p(2) con_len [OF k] ..
  have cc: "con_content k = fst (con_abs k) @ snd (con_abs k)" by (simp add: con_abs_def)
  note w = con_commit [OF p(3)]
  have le: "unat (con_e k' - con_r k') \<le> INPUT_BUF_SIZE" unfolding p(2) using lt by simp
  show "con_abs (if m then k'\<lparr>con_w := con_e k'\<rparr> else k') =
      (if m then (fst (con_abs k) @ snd (con_abs k) @ [word_of_int c], []) else (fst (con_abs k), snd (con_abs k) @ [word_of_int c]))"
    using w(2) [OF le] p(1,4) cc by simp
  have "con_ok k'" if "\<not> m"
  proof -
    have "word_of_int c \<noteq> newline" using that byte_newline [OF c] by (simp add: m_def)
    then have "newline \<notin> set (snd (con_abs k'))" unfolding p(4) using k by (auto simp: con_ok_def)
    then show ?thesis using k p(2,3) le by (simp add: con_ok_def k'_def)
  qed
  then show "con_ok (if m then k'\<lparr>con_w := con_e k'\<rparr> else k')" using w(1) [OF le] by simp
qed

text \<open>
  C23: The console driver is a line editor. For every input byte \<^verbatim>\<open>consoleintr\<close> returns, keeps its circular buffer
  consistent (\<open>r\<close>, \<open>w\<close> and \<open>e\<close> in order and at most 128 apart, across the wrap of the counters) and has exactly the
  effect of the editor: erase removes the last byte of the line, kill removes the line and nothing before it, carriage
  return counts as newline, a byte is stored while there is room, and newline, end of file and a full buffer hand the line
  to the reader.
\<close>

theorem consoleintr_edits:
  assumes "con_ok (cons s)" and "L_cons \<notin> held s" and "no_proc_locks s" and "0 \<le> c" and "c < 256"
  shows "\<exists>t. consoleintr c s = Inr t \<and> con_ok (cons t) \<and> con_abs (cons t) = edit c (con_abs (cons s)) \<and> held t = held s"
proof -
  let ?s = "s\<lparr>held := insert L_cons (held s)\<rparr>" and ?k = "cons s"
  have npl: "no_proc_locks ?s" using assms(3) by (simp add: no_proc_locks_def)
  have rel: ?thesis if "consoleintr c s = release L_cons u" "con_ok (cons u)" "con_abs (cons u) = edit c (con_abs (cons s))"
      "held u = held ?s" for u
    using that assms(2) by simp
  note acq = acquire_free [OF assms(2)]
  obtain rdy line where ab: "con_abs ?k = (rdy, line)" by (cases "con_abs ?k")
  consider (P) "c = Ctl 80" | (U) "c = Ctl 85" | (H) "c = Ctl 72 \<or> c = 127" "c \<noteq> Ctl 80" "c \<noteq> Ctl 85"
    | (T) "c \<noteq> Ctl 80" "c \<noteq> Ctl 85" "\<not> (c = Ctl 72 \<or> c = 127)" by blast
  then show ?thesis
  proof cases
    case P
    show ?thesis by (rule rel [of ?s]) (use P assms ab in \<open>simp_all add: consoleintr_def edit_def\<close>)
  next
    case U
    then have "c \<noteq> Ctl 80" by (simp add: Ctl_def)
    note kl = kill_line_ok [of ?s, OF _ refl]
    show ?thesis
      by (rule rel [of "kill_line (unat (con_e (cons ?s) - con_w (cons ?s))) ?s"])
        (use U \<open>c \<noteq> Ctl 80\<close> assms(1,2) ab kl in \<open>simp_all add: consoleintr_def edit_def\<close>)
  next
    case H
    note b = con_back [OF assms(1)]
    have e: "con_e ?k = con_w ?k \<longleftrightarrow> line = []" using con_abs_lengths(4) [OF assms(1)] ab by simp
    show ?thesis
    proof (cases "line = []")
      case True
      show ?thesis by (rule rel [of ?s]) (use H True e assms ab in \<open>simp_all add: consoleintr_def edit_def\<close>)
    next
      case False
      show ?thesis
        by (rule rel [of "consputc BACKSPACE (upd_cons (con_e_update (\<lambda>e. e - 1)) ?s)"])
          (use H False e assms(2) ab b in \<open>simp_all add: consoleintr_def edit_def\<close>)
    qed
  next
    case T
    show ?thesis
    proof (cases "c \<noteq> 0 \<and> unat (con_e ?k - con_r ?k) < INPUT_BUF_SIZE")
      case False
      then have n: "\<not> (c \<noteq> 0 \<and> length rdy + length line < INPUT_BUF_SIZE)" using con_len [OF assms(1)] ab by simp
      show ?thesis by (rule rel [of ?s]) (use T False n assms ab in \<open>auto simp: consoleintr_def edit_def\<close>)
    next
      case True
      define d where "d = (if c = 13 then 10 else c)"
      have dr: "0 \<le> d" "d < 256" using assms(4,5) by (auto simp: d_def)
      let ?k' = "?k\<lparr>con_buf := (con_buf ?k)[unat (con_e ?k) mod INPUT_BUF_SIZE := word_of_int d], con_e := con_e ?k + 1\<rparr>"
      define m where "m \<longleftrightarrow> d = 10 \<or> d = Ctl 68 \<or> unat (con_e ?k' - con_r ?k') = INPUT_BUF_SIZE"
      note ty = con_type [OF assms(1) _ dr, folded m_def]
      have lt: "length rdy + length line < INPUT_BUF_SIZE" using con_len [OF assms(1)] ab True by simp
      have ed: "edit c (con_abs ?k) = (if m then (rdy @ line @ [word_of_int d], []) else (rdy, line @ [word_of_int d]))"
        using T True lt ty(3) ab unfolding edit_def m_def d_def by (simp add: Let_def)
      let ?w = "upd_cons (\<lambda>_. ?k') (consputc d ?s)"
      let ?v = "upd_cons (\<lambda>k. k\<lparr>con_w := con_e k\<rparr>) ?w"
      have step: "consoleintr c s = bindR (if m then wakeup (cons_ptr ?s + 32) ?v else Inr ?w) (release L_cons)"
        using T True acq unfolding consoleintr_def m_def by (simp add: Let_def d_def [symmetric])
      have "no_proc_locks ?v" using npl by simp
      then obtain u where u: "wakeup (cons_ptr ?s + 32) ?v = Inr u" "cons u = cons ?v" "held u = held ?v"
        using wakeup_eq by fastforce
      have eq: "consoleintr c s = release L_cons (if m then u else ?w)" using step u(1) by (cases m) simp_all
      show ?thesis
        by (rule rel [OF eq]) (use u(2,3) ty(1,2) True ed ab in \<open>auto split: if_splits\<close>)
    qed
  qed
qed

text \<open>An empty buffer whose counters are about to wrap around.\<close>

definition demo_cons :: console where
  "demo_cons = \<lparr>con_bufp = 0, con_buf = replicate INPUT_BUF_SIZE 0, con_r = - 1, con_w = - 1, con_e = - 1\<rparr>"

lemma demo_cons_ok: "con_ok demo_cons" "con_abs demo_cons = ([], [])"
  by (simp_all add: con_ok_def con_abs_def con_content_def demo_cons_def ring_def)

theorem consoleintr_edits_witness:
  "\<forall>s0 :: cons_st. \<exists>t. consoleintr 97 (s0\<lparr>held := {}, cons := demo_cons\<rparr>) = Inr t \<and> con_ok (cons t) \<and>
     con_abs (cons t) = ([], [97]) \<and> held t = {}"
proof
  fix s0 :: cons_st
  have e: "edit 97 ([], []) = ([], [97])" by (simp add: edit_def Ctl_def INPUT_BUF_SIZE_def)
  show "\<exists>t. consoleintr 97 (s0\<lparr>held := {}, cons := demo_cons\<rparr>) = Inr t \<and> con_ok (cons t) \<and>
     con_abs (cons t) = ([], [97]) \<and> held t = {}"
    using consoleintr_edits [of "s0\<lparr>held := {}, cons := demo_cons\<rparr>" 97] demo_cons_ok e
    by (simp add: no_proc_locks_def)
qed

end
