(* ===== verification/Pipe.thy ===== *)
theory Pipe
  imports Console
begin

text \<open>
  The pipes of \<^verbatim>\<open>kernel/pipe.c\<close>, with the file structures of \<^verbatim>\<open>kernel/file.h\<close> they are tied to. The
  buffer of a pipe is a byte list; \<^verbatim>\<open>nread\<close> and \<^verbatim>\<open>nwrite\<close> are 32-bit counters that wrap around. Where the code
  sleeps, the result is \<open>Asleep\<close> with the loop counter, in the state at the call of \<^verbatim>\<open>sleep\<close> with the pipe's
  lock held; the loop is entered again when the process wakes.
\<close>

definition PIPESIZE :: nat where "PIPESIZE = 512"

record pipe =
  pi_datap :: addr
  pi_data :: "byte list"
  nread :: uint32
  nwrite :: uint32
  readopen :: bool
  writeopen :: bool

datatype ftype = FD_NONE | FD_PIPE | FD_INODE | FD_DEVICE

record kfile =
  f_type :: ftype
  f_ref :: int
  readable :: bool
  writable :: bool
  f_pipe :: addr
  f_ip :: addr
  f_off :: uint32
  f_major :: "16 word"

definition zero_file :: kfile where
  "zero_file = \<lparr>f_type = FD_NONE, f_ref = 0, readable = False, writable = False, f_pipe = 0, f_ip = 0,
     f_off = 0, f_major = 0\<rparr>"

record file_st = cons_st +
  files :: "addr \<Rightarrow> kfile"
  pipes :: "addr \<Rightarrow> pipe"
  file_cache :: addr
  pipe_cache :: addr

definition upd_pipe :: "addr \<Rightarrow> (pipe \<Rightarrow> pipe) \<Rightarrow> 'z file_st_scheme \<Rightarrow> 'z file_st_scheme" where
  "upd_pipe pi f s = s\<lparr>pipes := (pipes s)(pi := f (pipes s pi))\<rparr>"

definition upd_file :: "addr \<Rightarrow> (kfile \<Rightarrow> kfile) \<Rightarrow> 'z file_st_scheme \<Rightarrow> 'z file_st_scheme" where
  "upd_file fp f s = s\<lparr>files := (files s)(fp := f (files s fp))\<rparr>"

text \<open>The wait channels \<^verbatim>\<open>&pi->nread\<close> and \<^verbatim>\<open>&pi->nwrite\<close>.\<close>

definition nread_chan :: "addr \<Rightarrow> addr" where "nread_chan pi = pi + 32"

definition nwrite_chan :: "addr \<Rightarrow> addr" where "nwrite_chan pi = pi + 36"

definition pipeclose :: "addr \<Rightarrow> bool \<Rightarrow> 'z file_st_scheme \<Rightarrow> 'z file_st_scheme res" where
  "pipeclose pi wr s =
     bindR (acquire (L_pipe pi) s) (\<lambda>s.
     bindR
       (if wr then wakeup (nread_chan pi) (upd_pipe pi (writeopen_update (\<lambda>_. False)) s)
        else wakeup (nwrite_chan pi) (upd_pipe pi (readopen_update (\<lambda>_. False)) s)) (\<lambda>s.
     if \<not> readopen (pipes s pi) \<and> \<not> writeopen (pipes s pi)
     then
       bindR (release (L_pipe pi) s) (\<lambda>s.
       bindR (kfree (pi_datap (pipes s pi)) s) (\<lambda>s.
       kmem_cache_free (pipe_cache s) pi s))
     else release (L_pipe pi) s))"

section \<open>Writing\<close>

definition pipe_full :: "pipe \<Rightarrow> bool" where
  "pipe_full r \<longleftrightarrow> nwrite r = nread r + of_nat PIPESIZE"

definition pipe_put :: "byte \<Rightarrow> pipe \<Rightarrow> pipe" where
  "pipe_put ch r = r\<lparr>pi_data := (pi_data r)[unat (nwrite r) mod PIPESIZE := ch], nwrite := nwrite r + 1\<rparr>"

function pipewrite_loop ::
  "addr \<Rightarrow> addr \<Rightarrow> int \<Rightarrow> int \<Rightarrow> 'z file_st_scheme \<Rightarrow> (int outcome \<times> 'z file_st_scheme) res"
where
  "pipewrite_loop pi a i n s =
     (if i < n
      then
        bindR (myproc s) (\<lambda>pr.
        bindR (if \<not> readopen (pipes s pi) then Inr (1, s) else killed pr s) (\<lambda>(k, s).
        if k \<noteq> 0 then bindR (release (L_pipe pi) s) (\<lambda>s. Inr (Ret (-1), s))
        else if pipe_full (pipes s pi)
        then bindR (wakeup (nread_chan pi) s) (\<lambda>s. Inr (Asleep i, s))
        else
          bindR (copyin (pagetable (procs s pr)) (a + of_int i) 1 s) (\<lambda>((r, bs), s).
          if r = -1
          then
            bindR (wakeup (nread_chan pi) s) (\<lambda>s.
            bindR (release (L_pipe pi) s) (\<lambda>s. Inr (Ret i, s)))
          else pipewrite_loop pi a (i + 1) n (upd_pipe pi (pipe_put (bs ! 0)) s))))
      else
        bindR (wakeup (nread_chan pi) s) (\<lambda>s.
        bindR (release (L_pipe pi) s) (\<lambda>s. Inr (Ret i, s))))"
  by auto
termination by (relation "measure (\<lambda>(_, _, i, n, _). nat (n - i))") auto

declare pipewrite_loop.simps [simp del]

definition pipewrite ::
  "addr \<Rightarrow> addr \<Rightarrow> int \<Rightarrow> 'z file_st_scheme \<Rightarrow> (int outcome \<times> 'z file_st_scheme) res"
where
  "pipewrite pi a n s = bindR (acquire (L_pipe pi) s) (\<lambda>s. pipewrite_loop pi a 0 n s)"

section \<open>Reading\<close>

definition pipe_empty :: "pipe \<Rightarrow> bool" where
  "pipe_empty r \<longleftrightarrow> nread r = nwrite r"

definition pipe_head :: "pipe \<Rightarrow> byte" where
  "pipe_head r = pi_data r ! (unat (nread r) mod PIPESIZE)"

text \<open>The copy loop, with \<open>k\<close> bytes to go and \<open>i\<close> read.\<close>

primrec piperead_copy ::
  "nat \<Rightarrow> int \<Rightarrow> addr \<Rightarrow> addr \<Rightarrow> 'z file_st_scheme \<Rightarrow> (int \<times> 'z file_st_scheme) res"
where
  "piperead_copy 0 i pi a s = Inr (i, s)"
| "piperead_copy (Suc k) i pi a s =
     (if pipe_empty (pipes s pi) then Inr (i, s)
      else
        bindR (myproc s) (\<lambda>pr.
        bindR (copyout (pagetable (procs s pr)) (a + of_int i) [pipe_head (pipes s pi)] s) (\<lambda>(r, s).
        if r = -1 then Inr (if i = 0 then -1 else i, s)
        else piperead_copy k (i + 1) pi a (upd_pipe pi (nread_update (\<lambda>x. x + 1)) s))))"

definition piperead_run ::
  "addr \<Rightarrow> addr \<Rightarrow> int \<Rightarrow> 'z file_st_scheme \<Rightarrow> (unit outcome \<times> 'z file_st_scheme) res"
where
  "piperead_run pi a n s =
     (if pipe_empty (pipes s pi) \<and> writeopen (pipes s pi)
      then
        bindR (myproc s) (\<lambda>pr.
        bindR (killed pr s) (\<lambda>(k, s).
        if k \<noteq> 0 then bindR (release (L_pipe pi) s) (\<lambda>s. Inr (Ret (-1), s))
        else Inr (Asleep (), s)))
      else
        bindR (piperead_copy (nat n) 0 pi a s) (\<lambda>(i, s).
        bindR (wakeup (nwrite_chan pi) s) (\<lambda>s.
        bindR (release (L_pipe pi) s) (\<lambda>s. Inr (Ret i, s)))))"

definition piperead ::
  "addr \<Rightarrow> addr \<Rightarrow> int \<Rightarrow> 'z file_st_scheme \<Rightarrow> (unit outcome \<times> 'z file_st_scheme) res"
where
  "piperead pi a n s = bindR (acquire (L_pipe pi) s) (\<lambda>s. piperead_run pi a n s)"

section \<open>A pipe is a queue\<close>

text \<open>The bytes in the pipe, oldest first, and the invariant of its counters.\<close>

definition pipe_content :: "pipe \<Rightarrow> byte list" where
  "pipe_content r =
     map (\<lambda>k. pi_data r ! (unat (nread r + of_nat k) mod PIPESIZE)) [0 ..< unat (nwrite r - nread r)]"

definition pipe_inv :: "pipe \<Rightarrow> bool" where
  "pipe_inv r \<longleftrightarrow> length (pi_data r) = PIPESIZE \<and> unat (nwrite r - nread r) \<le> PIPESIZE"

lemma length_pipe_content [simp]: "length (pipe_content r) = unat (nwrite r - nread r)"
  by (simp add: pipe_content_def)

text \<open>The size of the buffer divides \<open>2 ^ 32\<close>, so that positions are counters modulo 512 even when they wrap.\<close>

lemma pos_add: "unat (x + of_nat k :: uint32) mod PIPESIZE = (unat x + k) mod PIPESIZE"
proof -
  have "unat (x + of_nat k :: uint32) = (unat x + k) mod 2 ^ 32"
    by (simp add: unat_word_ariths unat_of_nat mod_add_right_eq)
  moreover have "(512::nat) dvd 2 ^ 32" by (rule dvdI [of _ _ 8388608]) simp
  ultimately show ?thesis by (simp add: PIPESIZE_def mod_mod_cancel)
qed

lemma pipe_full_iff: "pipe_full r \<longleftrightarrow> length (pipe_content r) = PIPESIZE"
proof -
  have "pipe_full r \<longleftrightarrow> nwrite r - nread r = 512"
    by (auto simp: pipe_full_def PIPESIZE_def algebra_simps)
  also have "\<dots> \<longleftrightarrow> unat (nwrite r - nread r) = 512"
    by (simp add: word_unat_eq_iff)
  finally show ?thesis by (simp add: PIPESIZE_def)
qed

lemma pipe_empty_iff: "pipe_empty r \<longleftrightarrow> pipe_content r = []"
proof -
  have "pipe_content r = [] \<longleftrightarrow> length (pipe_content r) = 0" by (simp only: length_0_conv)
  also have "\<dots> \<longleftrightarrow> nwrite r - nread r = 0" by (simp add: unat_eq_0)
  finally show ?thesis by (auto simp: pipe_empty_def)
qed

text \<open>The number of bytes after one byte more.\<close>

lemma count_put:
  assumes "pipe_inv r" and "\<not> pipe_full r"
  shows "unat (nwrite r - nread r) < PIPESIZE"
    and "unat (nwrite r + 1 - nread r) = Suc (unat (nwrite r - nread r))"
proof -
  show lt: "unat (nwrite r - nread r) < PIPESIZE"
    using assms by (auto simp: pipe_inv_def pipe_full_iff)
  have "nwrite r + 1 - nread r = (nwrite r - nread r) + 1" by simp
  moreover have "unat (x + 1) = Suc (unat x)" if "unat x < PIPESIZE" for x :: uint32
    using that by (simp add: unat_word_ariths PIPESIZE_def)
  ultimately show "unat (nwrite r + 1 - nread r) = Suc (unat (nwrite r - nread r))"
    using lt by (simp only:)
qed

lemma pipe_put_content:
  assumes "pipe_inv r" and "\<not> pipe_full r"
  shows "pipe_content (pipe_put ch r) = pipe_content r @ [ch]" and "pipe_inv (pipe_put ch r)"
proof -
  let ?n = "unat (nwrite r - nread r)"
  note c = count_put [OF assms]
  have w: "nwrite r = nread r + of_nat ?n" by simp
  have pos: "unat (nread r + of_nat k) mod PIPESIZE \<noteq> unat (nwrite r) mod PIPESIZE" if "k < ?n" for k
  proof -
    have "unat (nwrite r) mod PIPESIZE = (unat (nread r) + ?n) mod PIPESIZE"
      by (subst w) (rule pos_add)
    moreover have "(unat (nread r) + k) mod PIPESIZE \<noteq> (unat (nread r) + ?n) mod PIPESIZE"
    proof
      assume "(unat (nread r) + k) mod PIPESIZE = (unat (nread r) + ?n) mod PIPESIZE"
      then have "PIPESIZE dvd (unat (nread r) + ?n) - (unat (nread r) + k)"
        using mod_eq_dvd_iff_nat [of "unat (nread r) + k" "unat (nread r) + ?n" PIPESIZE] that by simp
      then have "PIPESIZE \<le> ?n - k" using that by (intro dvd_imp_le) simp_all
      then show False using c(1) by simp
    qed
    ultimately show ?thesis unfolding pos_add by simp
  qed
  have len: "length (pi_data r) = PIPESIZE" using assms(1) by (simp add: pipe_inv_def)
  show "pipe_inv (pipe_put ch r)"
    using assms(1) c by (simp add: pipe_inv_def pipe_put_def)
  have "unat (nwrite r) mod PIPESIZE < length (pi_data r)" using len by (simp add: PIPESIZE_def)
  then show "pipe_content (pipe_put ch r) = pipe_content r @ [ch]"
    using pos [THEN not_sym] by (simp add: pipe_content_def pipe_put_def c(2))
qed

lemma pipe_head_content:
  assumes "\<not> pipe_empty r"
  shows "pipe_content r = pipe_head r # pipe_content (r\<lparr>nread := nread r + 1\<rparr>)"
proof -
  let ?n = "unat (nwrite r - nread r)"
  have "nwrite r - nread r \<noteq> 0" using assms by (auto simp: pipe_empty_def)
  then have n: "unat (nwrite r - (nread r + 1)) = ?n - 1" "0 < ?n"
    using unat_minus_one [of "nwrite r - nread r"] by (simp_all add: diff_diff_eq [symmetric] unat_gt_0)
  have "[0 ..< ?n] = 0 # map Suc [0 ..< ?n - 1]"
    using n(2) by (cases ?n) (simp_all add: upt_conv_Cons map_Suc_upt)
  then show ?thesis
    unfolding pipe_content_def by (simp add: n(1) pipe_head_def o_def add.assoc)
qed

lemma pipe_get_inv:
  assumes "pipe_inv r" and "\<not> pipe_empty r"
  shows "pipe_inv (r\<lparr>nread := nread r + 1\<rparr>)"
proof -
  have "length (pipe_content (r\<lparr>nread := nread r + 1\<rparr>)) \<le> length (pipe_content r)"
    using arg_cong [OF pipe_head_content [OF assms(2)], of length] by simp
  then show ?thesis using assms(1) by (simp add: pipe_inv_def)
qed

section \<open>Whole calls\<close>

lemma killed_eq: "L_proc p \<notin> held s \<Longrightarrow> killed p s = Inr (killed_flag (procs s p), s)"
  by (simp add: killed_def insert_absorb)

lemma no_proc_locks_upd_pipe [simp]: "no_proc_locks (upd_pipe pi f s) = no_proc_locks s"
  by (simp add: no_proc_locks_def upd_pipe_def)

lemma upd_pipe_simps [simp]:
  "pipes (upd_pipe pi f s) q = (if q = pi then f (pipes s pi) else pipes s q)"
  "mem (upd_pipe pi f s) = mem s" "held (upd_pipe pi f s) = held s"
  "curproc (upd_pipe pi f s) = curproc s" "procs (upd_pipe pi f s) = procs s"
  by (simp_all add: upd_pipe_def)

text \<open>What a writer relies on: it holds the pipe's lock, has not been killed, and its source is mapped.\<close>

definition can_write :: "addr \<Rightarrow> nat \<Rightarrow> addr \<Rightarrow> int \<Rightarrow> int \<Rightarrow> 'z file_st_scheme \<Rightarrow> bool" where
  "can_write pi p a i n s \<longleftrightarrow>
     no_proc_locks s \<and> L_pipe pi \<in> held s \<and> curproc s = Some p \<and> killed_flag (procs s p) = 0 \<and>
     readopen (pipes s pi) \<and> pipe_inv (pipes s pi) \<and>
     (\<forall>k. i \<le> k \<and> k < n \<longrightarrow> user_mapped (pagetable (procs s p)) (a + of_int k) s)"

lemma can_write_step:
  assumes "can_write pi p a i n s" and "\<not> pipe_full (pipes s pi)"
  shows "can_write pi p a (i + 1) n (upd_pipe pi (pipe_put ch) s)"
  using assms pipe_put_content(2) [of "pipes s pi" ch]
  by (auto simp: can_write_def pipe_put_def user_mapped_mem [of "upd_pipe pi (pipe_put ch) s" s])

lemma pipewrite_loop_queue:
  assumes "can_write pi p a i n s" and "i \<le> n"
  defines "room \<equiv> PIPESIZE - length (pipe_content (pipes s pi))"
  shows "\<exists>t. pipewrite_loop pi a i n s = Inr (if nat (n - i) \<le> room then Ret n else Asleep (i + int room), t) \<and>
    pipe_inv (pipes t pi) \<and> mem t = mem s \<and>
    pipe_content (pipes t pi) = pipe_content (pipes s pi) @
      map (\<lambda>k. user_byte (pagetable (procs s p)) (a + of_int (i + int k)) s) [0 ..< min room (nat (n - i))]"
  using assms(1, 2) unfolding room_def
proof (induction "nat (n - i)" arbitrary: i s)
  case 0
  then have "i = n" by simp
  with 0(2) show ?case
    by (subst pipewrite_loop.simps) (auto simp: can_write_def wakeup_eq)
next
  case (Suc m)
  then have lt: "i < n" by simp
  have w: "no_proc_locks s" "curproc s = Some p" "killed_flag (procs s p) = 0" "readopen (pipes s pi)"
    "pipe_inv (pipes s pi)" "user_mapped (pagetable (procs s p)) (a + of_int i) s" "L_proc p \<notin> held s"
    using Suc.prems(1) lt by (auto simp: can_write_def no_proc_locks_def)
  show ?case
  proof (cases "pipe_full (pipes s pi)")
    case True
    then have "PIPESIZE - length (pipe_content (pipes s pi)) = 0" by (simp add: pipe_full_iff)
    with True w lt show ?thesis
      by (subst pipewrite_loop.simps) (simp add: killed_eq wakeup_eq)
  next
    case False
    let ?ch = "user_byte (pagetable (procs s p)) (a + of_int i) s"
    let ?s = "upd_pipe pi (pipe_put ?ch) s"
    have step: "pipewrite_loop pi a i n s = pipewrite_loop pi a (i + 1) n ?s"
      using False w lt by (subst pipewrite_loop.simps) (simp add: killed_eq copyin_byte [simplified])
    have c: "pipe_content (pipes ?s pi) = pipe_content (pipes s pi) @ [?ch]"
      using pipe_put_content(1) [OF w(5) False] by simp
    have room: "length (pipe_content (pipes s pi)) < PIPESIZE"
      using count_put(1) [OF w(5) False] by simp
    obtain r where r: "PIPESIZE - length (pipe_content (pipes s pi)) = Suc r"
      "PIPESIZE - length (pipe_content (pipes ?s pi)) = r"
      using room unfolding c by (simp del: length_pipe_content, metis Suc_diff_Suc)
    have m: "nat (n - (i + 1)) = m" "nat (n - i) = Suc m" using Suc(2) by simp_all
    obtain t where t: "pipewrite_loop pi a (i + 1) n ?s = Inr (if m \<le> r then Ret n else Asleep (i + 1 + int r), t)"
      "pipe_inv (pipes t pi)" "mem t = mem s"
      "pipe_content (pipes t pi) = pipe_content (pipes ?s pi) @
        map (\<lambda>k. user_byte (pagetable (procs s p)) (a + of_int (i + 1 + int k)) s) [0 ..< min r m]"
      using Suc.hyps(1) [of "i + 1" ?s] can_write_step [OF Suc.prems(1) False, of ?ch] lt m(1)
      unfolding r(2) by (auto simp: user_byte_mem [of ?s s])
    have "[0 ..< min (Suc r) (Suc m)] = 0 # map Suc [0 ..< min r m]"
      by (simp add: map_Suc_upt upt_conv_Cons del: upt_Suc)
    with t show ?thesis
      unfolding step r(1) m(2) c by (auto simp: algebra_simps o_def)
  qed
qed

text \<open>
  C24: \<^verbatim>\<open>pipewrite\<close> of mapped user memory by a live process appends to the bytes in the pipe exactly the next
  bytes of the user's buffer, in order, as many as there is room for up to \<^verbatim>\<open>n\<close>: it returns \<^verbatim>\<open>n\<close> when all fit
  and otherwise goes to sleep on a full pipe with the count of bytes written so far. The pipe never holds
  more than \<^verbatim>\<open>PIPESIZE\<close> bytes, also when its 32-bit counters wrap around.
\<close>

theorem pipewrite_appends:
  assumes "no_proc_locks s" and "L_pipe pi \<notin> held s" and "curproc s = Some p" and "killed_flag (procs s p) = 0"
    and "readopen (pipes s pi)" and "pipe_inv (pipes s pi)" and "0 \<le> n"
    and "\<forall>k. 0 \<le> k \<and> k < n \<longrightarrow> user_mapped (pagetable (procs s p)) (a + of_int k) s"
  defines "room \<equiv> PIPESIZE - length (pipe_content (pipes s pi))"
  shows "\<exists>t. pipewrite pi a n s = Inr (if nat n \<le> room then Ret n else Asleep (int room), t) \<and>
    pipe_inv (pipes t pi) \<and>
    pipe_content (pipes t pi) = pipe_content (pipes s pi) @
      map (\<lambda>k. user_byte (pagetable (procs s p)) (a + of_nat k) s) [0 ..< min room (nat n)]"
proof -
  let ?s = "s\<lparr>held := insert (L_pipe pi) (held s)\<rparr>"
  have "can_write pi p a 0 n ?s"
    using assms by (auto simp: can_write_def no_proc_locks_def user_mapped_mem [of ?s s])
  from pipewrite_loop_queue [OF this assms(7)] obtain t where
    "pipewrite_loop pi a 0 n ?s = Inr (if nat n \<le> room then Ret n else Asleep (int room), t)"
    "pipe_inv (pipes t pi)"
    "pipe_content (pipes t pi) = pipe_content (pipes s pi) @
      map (\<lambda>k. user_byte (pagetable (procs s p)) (a + of_nat k) s) [0 ..< min room (nat n)]"
    unfolding room_def by (auto simp: user_byte_mem [of ?s s])
  then show ?thesis using assms(2) by (simp add: pipewrite_def)
qed

theorem pipewrite_appends_witness:
  "\<forall>s0 :: file_st. \<exists>t.
     pipewrite 64 0 1
       (s0\<lparr>held := {}, mem := store64 (\<lambda>_. 0) 4096 1055, curproc := Some 0,
           procs := (procs s0)(0 := (procs s0 0)\<lparr>killed_flag := 0, pagetable := 4096\<rparr>),
           pipes := (pipes s0)(64 := \<lparr>pi_datap = 0, pi_data = replicate 512 0, nread = -1, nwrite = -1,
             readopen = True, writeopen = True\<rparr>)\<rparr>) = Inr (Ret 1, t) \<and>
     pipe_content (pipes t 64) = [31]"
proof
  fix s0 :: file_st
  let ?s = "s0\<lparr>held := {}, mem := store64 (\<lambda>_. 0) 4096 1055, curproc := Some 0,
    procs := (procs s0)(0 := (procs s0 0)\<lparr>killed_flag := 0, pagetable := 4096\<rparr>),
    pipes := (pipes s0)(64 := \<lparr>pi_datap = 0, pi_data = replicate 512 0, nread = -1, nwrite = -1,
      readopen = True, writeopen = True\<rparr>)\<rparr>"
  have one: "0 \<le> k \<and> k < 1 \<longleftrightarrow> k = 0" for k :: int by auto
  have m: "\<forall>k. 0 \<le> k \<and> k < 1 \<longrightarrow> user_mapped (pagetable (procs ?s 0)) (0 + of_int k) ?s"
    using demo_byte(1) [of ?s] by (simp add: one)
  have c: "pipe_content (pipes ?s 64) = []" by (simp add: pipe_content_def)
  show "\<exists>t. pipewrite 64 0 1 ?s = Inr (Ret 1, t) \<and> pipe_content (pipes t 64) = [31]"
    using pipewrite_appends [OF _ _ _ _ _ _ _ m, of 64] c demo_byte(2) [of ?s]
    by (auto simp: no_proc_locks_def pipe_inv_def PIPESIZE_def)
qed

end
