(* ===== verification/File.thy ===== *)
theory File
  imports Pipe
begin

text \<open>
  The file layer, \<^verbatim>\<open>kernel/file.c\<close>, and \<^verbatim>\<open>pipealloc\<close> of \<^verbatim>\<open>kernel/pipe.c\<close>. A file structure is named by the
  address of its slab object. A read or write that sleeps is the failure \<open>Block\<close> here.
\<close>

definition NDEV :: int where "NDEV = 10"

definition CONSOLE :: int where "CONSOLE = 1"

definition sizeof_file :: addr where "sizeof_file = 40"

definition sizeof_pipe :: addr where "sizeof_pipe = 48"

definition fileinit :: "'z file_st_scheme \<Rightarrow> 'z file_st_scheme res" where
  "fileinit s =
     bindR (kmem_cache_create (ascii ''file'') sizeof_file 0 0 (init_lock L_ftable s)) (\<lambda>(c, s).
     let s = s\<lparr>file_cache := c\<rparr> in if c = 0 then Inl (Panic ''file_cache'') else Inr s)"

definition filealloc :: "'z file_st_scheme \<Rightarrow> (addr \<times> 'z file_st_scheme) res" where
  "filealloc s =
     bindR (acquire L_ftable s) (\<lambda>s.
     bindR (kmem_cache_alloc (file_cache s) s) (\<lambda>(f, s).
     let s = (if f \<noteq> 0 then upd_file f (\<lambda>_. zero_file\<lparr>f_ref := 1\<rparr>) s else s)
     in bindR (release L_ftable s) (\<lambda>s. Inr (f, s))))"

definition filedup :: "addr \<Rightarrow> 'z file_st_scheme \<Rightarrow> (addr \<times> 'z file_st_scheme) res" where
  "filedup f s =
     bindR (acquire L_ftable s) (\<lambda>s.
     if f_ref (files s f) < 1 then Inl (Panic ''filedup'')
     else
       bindR (release L_ftable (upd_file f (f_ref_update (\<lambda>r. r + 1)) s)) (\<lambda>s. Inr (f, s)))"

definition fileclose :: "addr \<Rightarrow> 'z file_st_scheme \<Rightarrow> 'z file_st_scheme res" where
  "fileclose f s =
     bindR (acquire L_ftable s) (\<lambda>s.
     if f_ref (files s f) < 1 then Inl (Panic ''fileclose'')
     else
       (let s = upd_file f (f_ref_update (\<lambda>r. r - 1)) s in
        if f_ref (files s f) > 0 then release L_ftable s
        else
          (let ff = files s f;
               s = upd_file f (\<lambda>r. r\<lparr>f_ref := 0, f_type := FD_NONE\<rparr>) s
           in bindR (release L_ftable s) (\<lambda>s.
              bindR
                (if f_type ff = FD_PIPE then pipeclose (f_pipe ff) (writable ff) s
                 else if f_type ff = FD_INODE \<or> f_type ff = FD_DEVICE
                 then
                   bindR (begin_op s) (\<lambda>s.
                   bindR (iput (f_ip ff) s) (\<lambda>s.
                   end_op s))
                 else Inr s) (\<lambda>s.
              kmem_cache_free (file_cache s) f s)))))"

text \<open>\<^verbatim>\<open>struct stat\<close> as it is laid out in memory: the padding before \<^verbatim>\<open>size\<close> is not defined by C.\<close>

definition le_bytes :: "nat \<Rightarrow> 64 word \<Rightarrow> byte list" where
  "le_bytes n w = map (\<lambda>i. ucast (drop_bit (8 * i) w)) [0 ..< n]"

definition stat_bytes :: "stat \<Rightarrow> byte list" where
  "stat_bytes st =
     le_bytes 4 (ucast (st_dev st)) @ le_bytes 4 (ucast (st_ino st)) @ le_bytes 2 (ucast (st_type st)) @
     le_bytes 2 (ucast (st_nlink st)) @ replicate 4 0 @ le_bytes 8 (st_size st)"

definition filestat :: "addr \<Rightarrow> addr \<Rightarrow> 'z file_st_scheme \<Rightarrow> (int \<times> 'z file_st_scheme) res" where
  "filestat f a s =
     (if f_type (files s f) = FD_INODE \<or> f_type (files s f) = FD_DEVICE
      then
        bindR (ilock (f_ip (files s f)) s) (\<lambda>s.
        let st = stati (f_ip (files s f)) s in
        bindR (iunlock (f_ip (files s f)) s) (\<lambda>s.
        bindR (myproc s) (\<lambda>p.
        bindR (copyout (pagetable (procs s p)) a (stat_bytes st) s) (\<lambda>(r, s).
        Inr (if r < 0 then -1 else 0, s)))))
      else Inr (-1, s))"

text \<open>The result of an operation that was run on its own: sleeping is \<open>Block\<close>.\<close>

definition awake :: "('a outcome \<times> 's) res \<Rightarrow> (int \<times> 's) res" where
  "awake r = bindR r (\<lambda>(x, s). case x of Ret i \<Rightarrow> Inr (i, s) | Asleep _ \<Rightarrow> Inl Block)"

definition fileread :: "addr \<Rightarrow> addr \<Rightarrow> int \<Rightarrow> 'z file_st_scheme \<Rightarrow> (int \<times> 'z file_st_scheme) res" where
  "fileread f a n s =
     (if \<not> readable (files s f) then Inr (-1, s)
      else
        (case f_type (files s f) of
           FD_PIPE \<Rightarrow> awake (piperead (f_pipe (files s f)) a n s)
         | FD_DEVICE \<Rightarrow>
             (let m = sint (f_major (files s f)) in
              if m < 0 \<or> m \<ge> NDEV \<or> \<not> (m = CONSOLE \<and> devsw_console s) then Inr (-1, s)
              else awake (consoleread (UserDst a) n s))
         | FD_INODE \<Rightarrow>
             bindR (ilock (f_ip (files s f)) s) (\<lambda>s.
             bindR (readi (f_ip (files s f)) (UserDst a) (f_off (files s f)) (word_of_int n) s) (\<lambda>((r, _), s).
             let s = (if r > 0 then upd_file f (f_off_update (\<lambda>off. off + word_of_int r)) s else s)
             in bindR (iunlock (f_ip (files s f)) s) (\<lambda>s. Inr (r, s))))
         | FD_NONE \<Rightarrow> Inl (Panic ''fileread'')))"

definition max_write :: int where
  "max_write = (int MAXOPBLOCKS - 1 - 1 - 2) div 2 * int BSIZE"

function filewrite_loop ::
  "addr \<Rightarrow> addr \<Rightarrow> int \<Rightarrow> int \<Rightarrow> 'z file_st_scheme \<Rightarrow> (int \<times> 'z file_st_scheme) res"
where
  "filewrite_loop f a i n s =
     (if i < n
      then
        (let n1 = (if n - i > max_write then max_write else n - i) in
         bindR (begin_op s) (\<lambda>s.
         bindR (ilock (f_ip (files s f)) s) (\<lambda>s.
         bindR (writei (f_ip (files s f)) (UserSrc (a + of_int i)) (f_off (files s f)) (word_of_int n1) s) (\<lambda>(r, s).
         let s = (if r > 0 then upd_file f (f_off_update (\<lambda>off. off + word_of_int r)) s else s) in
         bindR (iunlock (f_ip (files s f)) s) (\<lambda>s.
         bindR (end_op s) (\<lambda>s.
         if r \<noteq> n1 then Inr (i, s) else filewrite_loop f a (i + r) n s))))))
      else Inr (i, s))"
  by auto
termination
  by (relation "measure (\<lambda>(_, _, i, n, _). nat (n - i))")
     (auto simp: max_write_def MAXOPBLOCKS_def BSIZE_def split: if_splits)

declare filewrite_loop.simps [simp del]

definition filewrite :: "addr \<Rightarrow> addr \<Rightarrow> int \<Rightarrow> 'z file_st_scheme \<Rightarrow> (int \<times> 'z file_st_scheme) res" where
  "filewrite f a n s =
     (if \<not> writable (files s f) then Inr (-1, s)
      else
        (case f_type (files s f) of
           FD_PIPE \<Rightarrow> awake (pipewrite (f_pipe (files s f)) a n s)
         | FD_DEVICE \<Rightarrow>
             (let m = sint (f_major (files s f)) in
              if m < 0 \<or> m \<ge> NDEV \<or> \<not> (m = CONSOLE \<and> devsw_console s) then Inr (-1, s)
              else consolewrite (UserSrc a) n s)
         | FD_INODE \<Rightarrow>
             bindR (filewrite_loop f a 0 n s) (\<lambda>(i, s). Inr (if i = n then n else -1, s))
         | FD_NONE \<Rightarrow> Inl (Panic ''filewrite'')))"

section \<open>Creating a pipe\<close>

text \<open>The exit \<^verbatim>\<open>bad\<close> of \<^verbatim>\<open>pipealloc\<close>.\<close>

definition pipealloc_bad :: "addr \<Rightarrow> addr \<Rightarrow> addr \<Rightarrow> 'z file_st_scheme \<Rightarrow> 'z file_st_scheme res" where
  "pipealloc_bad pi f0 f1 s =
     bindR
       (if pi \<noteq> 0
        then
          bindR (if pi_datap (pipes s pi) \<noteq> 0 then kfree (pi_datap (pipes s pi)) s else Inr s) (\<lambda>s.
          if pipe_cache s \<noteq> 0 then kmem_cache_free (pipe_cache s) pi s else Inr s)
        else Inr s) (\<lambda>s.
     bindR (if f0 \<noteq> 0 then fileclose f0 s else Inr s) (\<lambda>s.
     if f1 \<noteq> 0 then fileclose f1 s else Inr s))"

text \<open>The result is -1, or 0 with the addresses of the two files.\<close>

definition pipealloc :: "'z file_st_scheme \<Rightarrow> ((int \<times> addr \<times> addr) \<times> 'z file_st_scheme) res" where
  "pipealloc s =
     (let bad = (\<lambda>pi f0 f1 s. bindR (pipealloc_bad pi f0 f1 s) (\<lambda>s. Inr ((-1, f0, f1), s))) in
      bindR (filealloc s) (\<lambda>(f0, s).
      if f0 = 0 then bad 0 0 0 s
      else
        bindR (filealloc s) (\<lambda>(f1, s).
        if f1 = 0 then bad 0 f0 0 s
        else
          bindR
            (if pipe_cache s = 0
             then
               bindR (kmem_cache_create (ascii ''pipe'') sizeof_pipe 0 0 s) (\<lambda>(c, s).
               Inr (s\<lparr>pipe_cache := c\<rparr>))
             else Inr s) (\<lambda>s.
          if pipe_cache s = 0 then bad 0 f0 f1 s
          else
            bindR (kmem_cache_alloc (pipe_cache s) s) (\<lambda>(pi, s).
            if pi = 0 then bad 0 f0 f1 s
            else
              bindR (kmalloc (of_nat PIPESIZE) s) (\<lambda>(d, s).
              let s = upd_pipe pi (\<lambda>r. r\<lparr>pi_datap := d, pi_data := read_bytes (mem s) d PIPESIZE\<rparr>) s in
              if d = 0 then bad pi f0 f1 s
              else
                (let s = upd_pipe pi (\<lambda>r. r\<lparr>readopen := True, writeopen := True, nwrite := 0, nread := 0\<rparr>) s;
                     s = init_lock (L_pipe pi) s;
                     s = upd_file f0 (\<lambda>r. r\<lparr>f_type := FD_PIPE, readable := True, writable := False, f_pipe := pi\<rparr>) s;
                     s = upd_file f1 (\<lambda>r. r\<lparr>f_type := FD_PIPE, readable := False, writable := True, f_pipe := pi\<rparr>) s
                 in Inr ((0, f0, f1), s))))))))"

end
