(* ===== verification/Proc.thy ===== *)
theory Proc
  imports File
begin

text \<open>
  Creation, exit and reaping of processes: the rest of \<^verbatim>\<open>kernel/proc.c\<close>. The linker symbol \<^verbatim>\<open>end\<close>, the page of
  the trampoline code and the address of \<^verbatim>\<open>forkret\<close> are the parameters \<open>kend\<close>, \<open>tramp\<close> and \<open>fret\<close>. \<^verbatim>\<open>kexit\<close> ends
  at the context switch from which it does not return.
\<close>

section \<open>Trapframe\<close>

definition sizeof_trapframe :: nat where "sizeof_trapframe = 288"

definition tf_epc :: addr where "tf_epc = 24"

definition tf_sp :: addr where "tf_sp = 48"

definition tf_a0 :: addr where "tf_a0 = 112"

definition tf_a1 :: addr where "tf_a1 = 120"

definition tf_a7 :: addr where "tf_a7 = 168"

definition get_tf :: "addr \<Rightarrow> nat \<Rightarrow> 'z proc_st_scheme \<Rightarrow> addr" where
  "get_tf f p s = load64 (mem s) (trapframe (procs s p) + f)"

definition set_tf :: "addr \<Rightarrow> addr \<Rightarrow> nat \<Rightarrow> 'z proc_st_scheme \<Rightarrow> 'z proc_st_scheme" where
  "set_tf f v p s = s\<lparr>mem := store64 (mem s) (trapframe (procs s p) + f) v\<rparr>"

section \<open>The process table\<close>

definition zero_proc :: proc where
  "zero_proc = \<lparr>state = UNUSED, chan = 0, killed_flag = 0, xstate = 0, pid = 0, parent = None, kstack = 0,
     p_sz = 0, pagetable = 0, trapframe = 0, p_context = \<lparr>ctx_ra = 0, ctx_sp = 0\<rparr>,
     ofile = replicate NOFILE 0, cwd = 0, p_name = replicate 16 0\<rparr>"

primrec proc_mapstacks_loop :: "nat \<Rightarrow> addr \<Rightarrow> 'z proc_st_scheme \<Rightarrow> 'z proc_st_scheme res" where
  "proc_mapstacks_loop 0 kpgtbl s = Inr s"
| "proc_mapstacks_loop (Suc k) kpgtbl s =
     bindR (kalloc s) (\<lambda>(pa, s).
     if pa = 0 then Inl (Panic ''kalloc'')
     else
       bindR (kvmmap kpgtbl (KSTACK (NPROC - Suc k)) pa PGSIZE (PTE_R OR PTE_W) s)
         (proc_mapstacks_loop k kpgtbl))"

definition proc_mapstacks :: "addr \<Rightarrow> 'z proc_st_scheme \<Rightarrow> 'z proc_st_scheme res" where
  "proc_mapstacks kpgtbl s = proc_mapstacks_loop NPROC kpgtbl s"

primrec procinit_loop :: "nat \<Rightarrow> 'z proc_st_scheme \<Rightarrow> 'z proc_st_scheme" where
  "procinit_loop 0 s = s"
| "procinit_loop (Suc k) s =
     (let p = NPROC - Suc k in
      procinit_loop k
        (upd_proc p (\<lambda>r. r\<lparr>state := UNUSED, kstack := KSTACK p\<rparr>) (init_lock (L_proc p) s)))"

definition procinit :: "'z proc_st_scheme \<Rightarrow> 'z proc_st_scheme res" where
  "procinit s =
     bindR (kmalloc (sizeof_proc * of_nat NPROC) (init_lock L_wait (init_lock L_pid s))) (\<lambda>(a, s).
     let s = s\<lparr>proc_base := a\<rparr> in
     if a = 0 then Inl (Panic ''proc alloc'')
     else Inr (procinit_loop NPROC (s\<lparr>procs := \<lambda>p. if p < NPROC then zero_proc else procs s p\<rparr>)))"

definition allocpid :: "'z proc_st_scheme \<Rightarrow> (int \<times> 'z proc_st_scheme) res" where
  "allocpid s =
     bindR (acquire L_pid s) (\<lambda>s.
     let i = nextpid s;
         s = s\<lparr>nextpid := nextpid s + 1\<rparr>
     in bindR (release L_pid s) (\<lambda>s. Inr (i, s)))"

definition proc_pagetable ::
  "addr \<Rightarrow> addr \<Rightarrow> nat \<Rightarrow> 'z proc_st_scheme \<Rightarrow> (addr \<times> 'z proc_st_scheme) res"
where
  "proc_pagetable kend tramp p s =
     bindR (uvmcreate s) (\<lambda>(pt, s).
     if pt = 0 then Inr (0, s)
     else
       bindR (mappages pt TRAMPOLINE PGSIZE tramp (PTE_R OR PTE_X) s) (\<lambda>(r, s).
       if r < 0 then bindR (uvmfree kend pt 0 s) (\<lambda>s. Inr (0, s))
       else
         bindR (mappages pt TRAPFRAME PGSIZE (trapframe (procs s p)) (PTE_R OR PTE_W) s) (\<lambda>(r, s).
         if r < 0
         then
           bindR (uvmunmap kend pt TRAMPOLINE 1 False s) (\<lambda>s.
           bindR (uvmfree kend pt 0 s) (\<lambda>s. Inr (0, s)))
         else Inr (pt, s))))"

definition proc_freepagetable :: "addr \<Rightarrow> addr \<Rightarrow> addr \<Rightarrow> 'z proc_st_scheme \<Rightarrow> 'z proc_st_scheme res" where
  "proc_freepagetable kend pt sz s =
     bindR (uvmunmap kend pt TRAMPOLINE 1 False s) (\<lambda>s.
     bindR (uvmunmap kend pt TRAPFRAME 1 False s) (\<lambda>s.
     uvmfree kend pt sz s))"

definition freeproc :: "addr \<Rightarrow> nat \<Rightarrow> 'z proc_st_scheme \<Rightarrow> 'z proc_st_scheme res" where
  "freeproc kend p s =
     bindR (if trapframe (procs s p) \<noteq> 0 then page_kfree kend (trapframe (procs s p)) s else Inr s) (\<lambda>s.
     let s = upd_proc p (trapframe_update (\<lambda>_. 0)) s in
     bindR
       (if pagetable (procs s p) \<noteq> 0
        then proc_freepagetable kend (pagetable (procs s p)) (p_sz (procs s p)) s
        else Inr s) (\<lambda>s.
     Inr (upd_proc p (\<lambda>r. r\<lparr>pagetable := 0, p_sz := 0, pid := 0, parent := None,
       p_name := (p_name r)[0 := 0], chan := 0, killed_flag := 0, xstate := 0, state := UNUSED\<rparr>) s)))"

text \<open>What \<^verbatim>\<open>allocproc\<close> does with the unused slot \<open>p\<close> it has found, and its search.\<close>

definition allocproc_found ::
  "addr \<Rightarrow> addr \<Rightarrow> addr \<Rightarrow> nat \<Rightarrow> 'z proc_st_scheme \<Rightarrow> (nat option \<times> 'z proc_st_scheme) res"
where
  "allocproc_found kend tramp fret p s =
     bindR (allocpid s) (\<lambda>(i, s).
     let s = upd_proc p (\<lambda>r. r\<lparr>pid := i, state := USED\<rparr>) s;
         fail = (\<lambda>s. bindR (freeproc kend p s) (\<lambda>s. bindR (release (L_proc p) s) (\<lambda>s. Inr (None, s))))
     in bindR (kalloc s) (\<lambda>(tf, s).
        let s = upd_proc p (trapframe_update (\<lambda>_. tf)) s in
        if tf = 0 then fail s
        else
          bindR (proc_pagetable kend tramp p s) (\<lambda>(pt, s).
          let s = upd_proc p (pagetable_update (\<lambda>_. pt)) s in
          if pt = 0 then fail s
          else Inr (Some p, upd_proc p (\<lambda>r. r\<lparr>p_context := \<lparr>ctx_ra = fret, ctx_sp = kstack r + PGSIZE\<rparr>\<rparr>) s))))"

primrec allocproc_loop ::
  "nat \<Rightarrow> addr \<Rightarrow> addr \<Rightarrow> addr \<Rightarrow> 'z proc_st_scheme \<Rightarrow> (nat option \<times> 'z proc_st_scheme) res"
where
  "allocproc_loop 0 kend tramp fret s = Inr (None, s)"
| "allocproc_loop (Suc k) kend tramp fret s =
     (let p = NPROC - Suc k in
      bindR (acquire (L_proc p) s) (\<lambda>s.
      if state (procs s p) = UNUSED then allocproc_found kend tramp fret p s
      else bindR (release (L_proc p) s) (allocproc_loop k kend tramp fret)))"

definition allocproc ::
  "addr \<Rightarrow> addr \<Rightarrow> addr \<Rightarrow> 'z proc_st_scheme \<Rightarrow> (nat option \<times> 'z proc_st_scheme) res"
where
  "allocproc kend tramp fret s = allocproc_loop NPROC kend tramp fret s"

definition userinit :: "addr \<Rightarrow> addr \<Rightarrow> addr \<Rightarrow> 'z fs_st_scheme \<Rightarrow> 'z fs_st_scheme res" where
  "userinit kend tramp fret s =
     bindR (allocproc kend tramp fret s) (\<lambda>(np, s).
     let s = s\<lparr>initproc := np\<rparr> in
     case np of
       None \<Rightarrow> Inl (Fault ''userinit'')
     | Some p \<Rightarrow>
         bindR (namei [slash] s) (\<lambda>(ip, s).
         release (L_proc p) (upd_proc p (\<lambda>r. r\<lparr>cwd := ip, state := RUNNABLE\<rparr>) s)))"

definition growproc :: "addr \<Rightarrow> int \<Rightarrow> 'z proc_st_scheme \<Rightarrow> (int \<times> 'z proc_st_scheme) res" where
  "growproc kend n s =
     bindR (myproc s) (\<lambda>p.
     let sz = p_sz (procs s p);
         pt = pagetable (procs s p);
         done = (\<lambda>sz s. Inr (0, upd_proc p (p_sz_update (\<lambda>_. sz)) s))
     in if n > 0
        then
          (if sz + of_int n > TRAPFRAME then Inr (-1, s)
           else
             bindR (uvmalloc kend pt sz (sz + of_int n) PTE_W s) (\<lambda>(sz, s).
             if sz = 0 then Inr (-1, s) else done sz s))
        else if n < 0
        then bindR (uvmdealloc kend pt sz (sz + of_int n) s) (\<lambda>(sz, s). done sz s)
        else done sz s)"

section \<open>Fork\<close>

text \<open>\<^verbatim>\<open>safestrcpy(np->name, ..., 16)\<close> from a C string.\<close>

definition copy_name :: "byte list \<Rightarrow> byte list \<Rightarrow> byte list" where
  "copy_name old src =
     (let cs = take 15 (takeWhile (\<lambda>c. c \<noteq> 0) src) @ [0] in cs @ drop (length cs) old)"

primrec fork_files :: "nat \<Rightarrow> nat \<Rightarrow> nat \<Rightarrow> nat \<Rightarrow> 'z file_st_scheme \<Rightarrow> 'z file_st_scheme res" where
  "fork_files 0 i p np s = Inr s"
| "fork_files (Suc k) i p np s =
     bindR
       (let f = ofile (procs s p) ! i in
        if f \<noteq> 0
        then bindR (filedup f s) (\<lambda>(f, s). Inr (upd_proc np (ofile_update (\<lambda>fs. fs[i := f])) s))
        else Inr s)
       (fork_files k (Suc i) p np)"

definition kfork :: "addr \<Rightarrow> addr \<Rightarrow> addr \<Rightarrow> 'z file_st_scheme \<Rightarrow> (int \<times> 'z file_st_scheme) res" where
  "kfork kend tramp fret s =
     bindR (myproc s) (\<lambda>p.
     bindR (allocproc kend tramp fret s) (\<lambda>(np, s).
     case np of
       None \<Rightarrow> Inr (-1, s)
     | Some np \<Rightarrow>
         bindR (uvmcopy kend (pagetable (procs s p)) (pagetable (procs s np)) (p_sz (procs s p)) s) (\<lambda>(r, s).
         if r < 0
         then bindR (freeproc kend np s) (\<lambda>s. bindR (release (L_proc np) s) (\<lambda>s. Inr (-1, s)))
         else
           (let s = upd_proc np (p_sz_update (\<lambda>_. p_sz (procs s p))) s;
                s = s\<lparr>mem := write_bytes (mem s) (trapframe (procs s np))
                              (read_bytes (mem s) (trapframe (procs s p)) sizeof_trapframe)\<rparr>;
                s = set_tf tf_a0 0 np s
            in bindR (fork_files NOFILE 0 p np s) (\<lambda>s.
               bindR (idup (cwd (procs s p)) s) (\<lambda>(ip, s).
               let s = upd_proc np (cwd_update (\<lambda>_. ip)) s;
                   s = upd_proc np (p_name_update (\<lambda>old. copy_name old (p_name (procs s p)))) s;
                   i = pid (procs s np)
               in bindR (release (L_proc np) s) (\<lambda>s.
                  bindR (acquire L_wait s) (\<lambda>s.
                  bindR (release L_wait (upd_proc np (parent_update (\<lambda>_. Some p)) s)) (\<lambda>s.
                  bindR (acquire (L_proc np) s) (\<lambda>s.
                  bindR (release (L_proc np) (upd_proc np (state_update (\<lambda>_. RUNNABLE)) s)) (\<lambda>s.
                  Inr (i, s)))))))))))) "

section \<open>Exit and wait\<close>

text \<open>The address of a process as a wait channel; 0 for the null pointer.\<close>

definition proc_chan :: "nat option \<Rightarrow> 'z proc_st_scheme \<Rightarrow> addr" where
  "proc_chan q s = (case q of None \<Rightarrow> 0 | Some p \<Rightarrow> proc_addr p s)"

primrec reparent_loop :: "nat \<Rightarrow> nat \<Rightarrow> 'z proc_st_scheme \<Rightarrow> 'z proc_st_scheme res" where
  "reparent_loop 0 p s = Inr s"
| "reparent_loop (Suc k) p s =
     (let pp = NPROC - Suc k in
      bindR
        (if parent (procs s pp) = Some p
         then
           (let s = upd_proc pp (parent_update (\<lambda>_. initproc s)) s in wakeup (proc_chan (initproc s) s) s)
         else Inr s)
        (reparent_loop k p))"

definition reparent :: "nat \<Rightarrow> 'z proc_st_scheme \<Rightarrow> 'z proc_st_scheme res" where
  "reparent p s = reparent_loop NPROC p s"

primrec exit_files :: "nat \<Rightarrow> nat \<Rightarrow> nat \<Rightarrow> 'z file_st_scheme \<Rightarrow> 'z file_st_scheme res" where
  "exit_files 0 fd p s = Inr s"
| "exit_files (Suc k) fd p s =
     bindR
       (let f = ofile (procs s p) ! fd in
        if f \<noteq> 0
        then bindR (fileclose f s) (\<lambda>s. Inr (upd_proc p (ofile_update (\<lambda>fs. fs[fd := 0])) s))
        else Inr s)
       (exit_files k (Suc fd) p)"

definition kexit :: "int \<Rightarrow> 'z file_st_scheme \<Rightarrow> 'z file_st_scheme res" where
  "kexit status s =
     bindR (myproc s) (\<lambda>p.
     if Some p = initproc s then Inl (Panic ''init exiting'')
     else
       bindR (exit_files NOFILE 0 p s) (\<lambda>s.
       bindR (begin_op s) (\<lambda>s.
       bindR (iput (cwd (procs s p)) s) (\<lambda>s.
       bindR (end_op s) (\<lambda>s.
       let s = upd_proc p (cwd_update (\<lambda>_. 0)) s in
       bindR (acquire L_wait s) (\<lambda>s.
       bindR (reparent p s) (\<lambda>s.
       bindR (wakeup (proc_chan (parent (procs s p)) s) s) (\<lambda>s.
       bindR (acquire (L_proc p) s) (\<lambda>s.
       let s = upd_proc p (\<lambda>r. r\<lparr>xstate := status, state := ZOMBIE\<rparr>) s in
       bindR (release L_wait s) (\<lambda>s.
       sched_check s))))))))))"

text \<open>
  The scan of \<^verbatim>\<open>kwait\<close>: the value to return, or \<open>None\<close> and whether there are children. A process that waits
  for its children is \<open>Asleep\<close> with \<^verbatim>\<open>wait_lock\<close> held, and scans again when it wakes.
\<close>

primrec kwait_scan ::
  "nat \<Rightarrow> bool \<Rightarrow> addr \<Rightarrow> nat \<Rightarrow> addr \<Rightarrow> 'z proc_st_scheme \<Rightarrow>
   ((int option \<times> bool) \<times> 'z proc_st_scheme) res"
where
  "kwait_scan 0 havekids kend p a s = Inr ((None, havekids), s)"
| "kwait_scan (Suc k) havekids kend p a s =
     (let pp = NPROC - Suc k in
      if parent (procs s pp) = Some p
      then
        bindR (acquire (L_proc pp) s) (\<lambda>s.
        if state (procs s pp) = ZOMBIE
        then
          (let i = pid (procs s pp) in
           bindR
             (if a \<noteq> 0
              then copyout (pagetable (procs s p)) a
                     (map (\<lambda>j. ucast (drop_bit (8 * j) (word_of_int (xstate (procs s pp)) :: uint32))) [0 ..< 4]) s
              else Inr (0, s)) (\<lambda>(r, s).
           if r < 0
           then
             bindR (release (L_proc pp) s) (\<lambda>s.
             bindR (release L_wait s) (\<lambda>s. Inr ((Some (-1), True), s)))
           else
             bindR (freeproc kend pp s) (\<lambda>s.
             bindR (release (L_proc pp) s) (\<lambda>s.
             bindR (release L_wait s) (\<lambda>s. Inr ((Some i, True), s))))))
        else bindR (release (L_proc pp) s) (kwait_scan k True kend p a))
      else kwait_scan k havekids kend p a s)"

definition kwait_run ::
  "addr \<Rightarrow> addr \<Rightarrow> 'z proc_st_scheme \<Rightarrow> (unit outcome \<times> 'z proc_st_scheme) res"
where
  "kwait_run kend a s =
     bindR (myproc s) (\<lambda>p.
     bindR (kwait_scan NPROC False kend p a s) (\<lambda>((r, havekids), s).
     case r of
       Some i \<Rightarrow> Inr (Ret i, s)
     | None \<Rightarrow>
         bindR (if \<not> havekids then Inr (1, s) else killed p s) (\<lambda>(k, s).
         if k \<noteq> 0 then bindR (release L_wait s) (\<lambda>s. Inr (Ret (-1), s))
         else Inr (Asleep (), s))))"

definition kwait :: "addr \<Rightarrow> addr \<Rightarrow> 'z proc_st_scheme \<Rightarrow> (unit outcome \<times> 'z proc_st_scheme) res" where
  "kwait kend a s = bindR (acquire L_wait s) (\<lambda>s. kwait_run kend a s)"

end
