(* ===== verification/Exec.thy ===== *)
theory Exec
  imports Proc
begin

text \<open>
  \<^verbatim>\<open>kernel/exec.c\<close>: loading an ELF file into a new address space. The headers are read from the byte list that
  \<^verbatim>\<open>readi\<close> leaves in the local variable; \<^verbatim>\<open>argv\<close> is the list of the argument strings before its null entry.
\<close>

definition MAXARG :: nat where "MAXARG = 32"

definition USERSTACK :: addr where "USERSTACK = 1"

definition ELF_MAGIC :: uint32 where "ELF_MAGIC = 0x464C457F"

definition ELF_PROG_LOAD :: uint32 where "ELF_PROG_LOAD = 1"

definition get64 :: "byte list \<Rightarrow> nat \<Rightarrow> 64 word" where
  "get64 d i = ucast (get32 d i) OR push_bit 32 (ucast (get32 d (i + 4)))"

record elfhdr =
  e_magic :: uint32
  e_entry :: "64 word"
  e_phoff :: "64 word"
  e_phnum :: "16 word"

definition sizeof_elfhdr :: uint32 where "sizeof_elfhdr = 64"

definition read_elfhdr :: "byte list \<Rightarrow> elfhdr" where
  "read_elfhdr d = \<lparr>e_magic = get32 d 0, e_entry = get64 d 24, e_phoff = get64 d 32, e_phnum = get16 d 56\<rparr>"

record proghdr =
  ph_type :: uint32
  ph_flags :: uint32
  ph_off :: "64 word"
  ph_vaddr :: "64 word"
  ph_filesz :: "64 word"
  ph_memsz :: "64 word"

definition sizeof_proghdr :: uint32 where "sizeof_proghdr = 56"

definition read_proghdr :: "byte list \<Rightarrow> proghdr" where
  "read_proghdr d = \<lparr>ph_type = get32 d 0, ph_flags = get32 d 4, ph_off = get64 d 8, ph_vaddr = get64 d 16,
     ph_filesz = get64 d 32, ph_memsz = get64 d 40\<rparr>"

definition flags2perm :: "uint32 \<Rightarrow> addr" where
  "flags2perm flags =
     (let perm = (if flags AND 1 \<noteq> 0 then PTE_X else 0)
      in if flags AND 2 \<noteq> 0 then perm OR PTE_W else perm)"

partial_function (option) loadseg_loop ::
  "addr \<Rightarrow> addr \<Rightarrow> addr \<Rightarrow> uint32 \<Rightarrow> uint32 \<Rightarrow> uint32 \<Rightarrow> 'z fs_st_scheme \<Rightarrow> (int \<times> 'z fs_st_scheme) res option"
where
  "loadseg_loop pt va ip offset sz i s =
     (if i < sz
      then
        bindL (walkaddr pt (va + ucast i) s) (\<lambda>pa.
        if pa = 0 then Some (Inl (Panic ''loadseg: address should exist''))
        else
          (let n = (if sz - i < 4096 then sz - i else 4096) in
           bindL (readi ip (KernDst pa) (offset + i) n s) (\<lambda>((r, _), s).
           if r \<noteq> uint n then Some (Inr (-1, s))
           else loadseg_loop pt va ip offset sz (i + 4096) s)))
      else Some (Inr (0, s)))"

definition loadseg ::
  "addr \<Rightarrow> addr \<Rightarrow> addr \<Rightarrow> uint32 \<Rightarrow> uint32 \<Rightarrow> 'z fs_st_scheme \<Rightarrow> (int \<times> 'z fs_st_scheme) res"
where
  "loadseg pt va ip offset sz s = bindR (of_loop (loadseg_loop pt va ip offset sz 0 s)) id"

text \<open>
  The loop over the program headers, with \<open>k\<close> to go. The flag is false where the code goes to \<^verbatim>\<open>bad\<close>; the
  size is that of the address space so far.
\<close>

primrec exec_load ::
  "nat \<Rightarrow> uint32 \<Rightarrow> addr \<Rightarrow> addr \<Rightarrow> addr \<Rightarrow> addr \<Rightarrow> 'z fs_st_scheme \<Rightarrow>
   ((bool \<times> addr) \<times> 'z fs_st_scheme) res"
where
  "exec_load 0 off kend pt ip sz s = Inr ((True, sz), s)"
| "exec_load (Suc k) off kend pt ip sz s =
     bindR (readi ip VarDst off sizeof_proghdr s) (\<lambda>((r, d), s).
     if r \<noteq> uint sizeof_proghdr then Inr ((False, sz), s)
     else
       (let ph = read_proghdr d in
        if ph_type ph \<noteq> ELF_PROG_LOAD then exec_load k (off + sizeof_proghdr) kend pt ip sz s
        else if ph_memsz ph < ph_filesz ph then Inr ((False, sz), s)
        else if ph_vaddr ph + ph_memsz ph < ph_vaddr ph then Inr ((False, sz), s)
        else if ph_vaddr ph mod PGSIZE \<noteq> 0 then Inr ((False, sz), s)
        else
          bindR (uvmalloc kend pt sz (ph_vaddr ph + ph_memsz ph) (flags2perm (ph_flags ph)) s) (\<lambda>(sz1, s).
          if sz1 = 0 then Inr ((False, sz), s)
          else
            bindR (loadseg pt (ph_vaddr ph) ip (ucast (ph_off ph)) (ucast (ph_filesz ph)) s) (\<lambda>(r, s).
            if r < 0 then Inr ((False, sz1), s)
            else exec_load k (off + sizeof_proghdr) kend pt ip sz1 s))))"

text \<open>
  Pushing the argument strings: the stack pointer and the addresses pushed, or \<open>None\<close> where the code goes
  to \<^verbatim>\<open>bad\<close>.
\<close>

primrec exec_args ::
  "byte list list \<Rightarrow> addr \<Rightarrow> addr \<Rightarrow> addr \<Rightarrow> addr list \<Rightarrow> 'z proc_st_scheme \<Rightarrow>
   ((addr \<times> addr list) option \<times> 'z proc_st_scheme) res"
where
  "exec_args [] pt stackbase sp ustack s = Inr (Some (sp, ustack), s)"
| "exec_args (arg # args) pt stackbase sp ustack s =
     (if length ustack \<ge> MAXARG then Inr (None, s)
      else
        (let sp = sp - (of_nat (length arg) + 1);
             sp = sp - sp mod 16
         in if sp < stackbase then Inr (None, s)
            else
              bindR (copyout pt sp (arg @ [0]) s) (\<lambda>(r, s).
              if r < 0 then Inr (None, s)
              else exec_args args pt stackbase sp (ustack @ [sp]) s)))"

definition last_elem :: "byte list \<Rightarrow> byte list" where
  "last_elem path = rev (takeWhile (\<lambda>c. c \<noteq> slash) (rev path))"

definition exec_bad :: "addr \<Rightarrow> addr \<Rightarrow> addr \<Rightarrow> addr \<Rightarrow> 'z fs_st_scheme \<Rightarrow> (int \<times> 'z fs_st_scheme) res" where
  "exec_bad kend pt sz ip s =
     bindR (if pt \<noteq> 0 then proc_freepagetable kend pt sz s else Inr s) (\<lambda>s.
     bindR (if ip \<noteq> 0 then bindR (iunlockput ip s) (\<lambda>s. end_op s) else Inr s) (\<lambda>s.
     Inr (-1, s)))"

text \<open>The second half of \<^verbatim>\<open>kexec\<close>, from the allocation of the stack on.\<close>

definition exec_stack ::
  "addr \<Rightarrow> byte list \<Rightarrow> byte list list \<Rightarrow> addr \<Rightarrow> addr \<Rightarrow> addr \<Rightarrow> 'z fs_st_scheme \<Rightarrow> (int \<times> 'z fs_st_scheme) res"
where
  "exec_stack kend path argv entry pt sz s =
     bindR (myproc s) (\<lambda>p.
     let oldsz = p_sz (procs s p); sz = PGROUNDUP sz in
     bindR (uvmalloc kend pt sz (sz + (USERSTACK + 1) * PGSIZE) PTE_W s) (\<lambda>(sz1, s).
     if sz1 = 0 then exec_bad kend pt sz 0 s
     else
       bindR (uvmclear pt (sz1 - (USERSTACK + 1) * PGSIZE) s) (\<lambda>s.
       let sp = sz1; stackbase = sp - USERSTACK * PGSIZE in
       bindR (exec_args argv pt stackbase sp [] s) (\<lambda>(r, s).
       case r of
         None \<Rightarrow> exec_bad kend pt sz1 0 s
       | Some (sp, ustack) \<Rightarrow>
           (let ustack = ustack @ [0];
                sp = sp - of_nat (length ustack) * 8;
                sp = sp - sp mod 16
            in if sp < stackbase then exec_bad kend pt sz1 0 s
               else
                 bindR (copyout pt sp (concat (map (le_bytes 8) ustack)) s) (\<lambda>(r, s).
                 if r < 0 then exec_bad kend pt sz1 0 s
                 else
                   (let s = set_tf tf_a1 sp p s;
                        s = upd_proc p (p_name_update (\<lambda>old. copy_name old (last_elem path))) s;
                        oldpagetable = pagetable (procs s p);
                        s = upd_proc p (\<lambda>r. r\<lparr>pagetable := pt, p_sz := sz1\<rparr>) s;
                        s = set_tf tf_epc entry p s;
                        s = set_tf tf_sp sp p s
                    in bindR (proc_freepagetable kend oldpagetable oldsz s) (\<lambda>s.
                       Inr (int (length argv), s))))))))) "

definition kexec ::
  "addr \<Rightarrow> addr \<Rightarrow> byte list \<Rightarrow> byte list list \<Rightarrow> 'z fs_st_scheme \<Rightarrow> (int \<times> 'z fs_st_scheme) res"
where
  "kexec kend tramp path argv s =
     bindR (myproc s) (\<lambda>p.
     bindR (begin_op s) (\<lambda>s.
     bindR (namei path s) (\<lambda>(ip, s).
     if ip = 0 then bindR (end_op s) (\<lambda>s. Inr (-1, s))
     else
       bindR (ilock ip s) (\<lambda>s.
       bindR (readi ip VarDst 0 sizeof_elfhdr s) (\<lambda>((r, d), s).
       if r \<noteq> uint sizeof_elfhdr then exec_bad kend 0 0 ip s
       else
         (let elf = read_elfhdr d in
          if e_magic elf \<noteq> ELF_MAGIC then exec_bad kend 0 0 ip s
          else
            bindR (proc_pagetable kend tramp p s) (\<lambda>(pt, s).
            if pt = 0 then exec_bad kend 0 0 ip s
            else
              bindR (exec_load (unat (e_phnum elf)) (ucast (e_phoff elf)) kend pt ip 0 s) (\<lambda>((ok, sz), s).
              if \<not> ok then exec_bad kend pt sz ip s
              else
                bindR (iunlockput ip s) (\<lambda>s.
                bindR (end_op s) (\<lambda>s.
                exec_stack kend path argv (e_entry elf) pt sz s))))))))))"

end
