(* ===== verification/Fcntl.thy ===== *)
theory Fcntl
  imports Prelude
begin

text \<open>\<^verbatim>\<open>kernel/fcntl.h\<close>: the modes of \<^verbatim>\<open>open\<close>, which the kernel and the user programs share.\<close>

definition O_RDONLY :: uint32 where "O_RDONLY = 0"

definition O_WRONLY :: uint32 where "O_WRONLY = 1"

definition O_RDWR :: uint32 where "O_RDWR = 2"

definition O_CREATE :: uint32 where "O_CREATE = 0x200"

definition O_TRUNC :: uint32 where "O_TRUNC = 0x400"

end
