(* ===== verification/Sysfile.thy ===== *)
theory Sysfile
  imports Exec Fcntl
begin

text \<open>
  System-call arguments (\<^verbatim>\<open>kernel/syscall.c\<close>) and the file-system calls of \<^verbatim>\<open>kernel/sysfile.c\<close>. The path and
  name buffers on the kernel stack are byte lists without their NUL.
\<close>

section \<open>Arguments\<close>

definition fetchaddr :: "addr \<Rightarrow> 'z proc_st_scheme \<Rightarrow> (addr option \<times> 'z proc_st_scheme) res" where
  "fetchaddr a s =
     bindR (myproc s) (\<lambda>p.
     if a \<ge> p_sz (procs s p) \<or> a + 8 > p_sz (procs s p) then Inr (None, s)
     else
       bindR (copyin (pagetable (procs s p)) a 8 s) (\<lambda>((r, bs), s).
       Inr (if r \<noteq> 0 then None else Some (get64 bs 0), s)))"

text \<open>The bytes stored in \<^verbatim>\<open>buf\<close>, and the result: -1 or the length of the string.\<close>

definition fetchstr :: "addr \<Rightarrow> nat \<Rightarrow> 'z proc_st_scheme \<Rightarrow> (int \<times> byte list) res" where
  "fetchstr a maxlen s =
     bindR (myproc s) (\<lambda>p.
     bindR (copyinstr (pagetable (procs s p)) a maxlen s) (\<lambda>(r, bs).
     Inr (if r < 0 then -1 else int (length (takeWhile (\<lambda>c. c \<noteq> 0) bs)), bs)))"

definition argraw :: "nat \<Rightarrow> 'z proc_st_scheme \<Rightarrow> addr res" where
  "argraw n s =
     bindR (myproc s) (\<lambda>p.
     if n < 6 then Inr (get_tf (tf_a0 + 8 * of_nat n) p s) else Inl (Panic ''argraw''))"

definition argint :: "nat \<Rightarrow> 'z proc_st_scheme \<Rightarrow> int res" where
  "argint n s = bindR (argraw n s) (\<lambda>v. Inr (sint (ucast v :: uint32)))"

definition argaddr :: "nat \<Rightarrow> 'z proc_st_scheme \<Rightarrow> addr res" where
  "argaddr n s = argraw n s"

definition MAXPATH :: nat where "MAXPATH = 128"

text \<open>\<^verbatim>\<open>argstr\<close> into a buffer of \<^verbatim>\<open>MAXPATH\<close> bytes: the string, or \<open>None\<close> where the result is negative.\<close>

definition argstr :: "nat \<Rightarrow> nat \<Rightarrow> 'z proc_st_scheme \<Rightarrow> byte list option res" where
  "argstr n maxlen s =
     bindR (argaddr n s) (\<lambda>a.
     bindR (fetchstr a maxlen s) (\<lambda>(r, bs).
     Inr (if r < 0 then None else Some (takeWhile (\<lambda>c. c \<noteq> 0) bs))))"

definition argfd :: "nat \<Rightarrow> 'z proc_st_scheme \<Rightarrow> (nat \<times> addr) option res" where
  "argfd n s =
     bindR (argint n s) (\<lambda>fd.
     bindR (myproc s) (\<lambda>p.
     if fd < 0 \<or> fd \<ge> int NOFILE \<or> ofile (procs s p) ! nat fd = 0 then Inr None
     else Inr (Some (nat fd, ofile (procs s p) ! nat fd))))"

primrec fdalloc_loop :: "nat \<Rightarrow> nat \<Rightarrow> nat \<Rightarrow> addr \<Rightarrow> 'z proc_st_scheme \<Rightarrow> int \<times> 'z proc_st_scheme" where
  "fdalloc_loop 0 fd p f s = (-1, s)"
| "fdalloc_loop (Suc k) fd p f s =
     (if ofile (procs s p) ! fd = 0
      then (int fd, upd_proc p (ofile_update (\<lambda>fs. fs[fd := f])) s)
      else fdalloc_loop k (Suc fd) p f s)"

definition fdalloc :: "addr \<Rightarrow> 'z proc_st_scheme \<Rightarrow> (int \<times> 'z proc_st_scheme) res" where
  "fdalloc f s = bindR (myproc s) (\<lambda>p. Inr (fdalloc_loop NOFILE 0 p f s))"

section \<open>Descriptors\<close>

definition sys_dup :: "'z file_st_scheme \<Rightarrow> (int \<times> 'z file_st_scheme) res" where
  "sys_dup s =
     bindR (argfd 0 s) (\<lambda>r.
     case r of
       None \<Rightarrow> Inr (-1, s)
     | Some (_, f) \<Rightarrow>
         bindR (fdalloc f s) (\<lambda>(fd, s).
         if fd < 0 then Inr (-1, s)
         else bindR (filedup f s) (\<lambda>(_, s). Inr (fd, s))))"

definition sys_read :: "'z file_st_scheme \<Rightarrow> (int \<times> 'z file_st_scheme) res" where
  "sys_read s =
     bindR (argaddr 1 s) (\<lambda>p.
     bindR (argint 2 s) (\<lambda>n.
     bindR (argfd 0 s) (\<lambda>r.
     case r of None \<Rightarrow> Inr (-1, s) | Some (_, f) \<Rightarrow> fileread f p n s)))"

definition sys_write :: "'z file_st_scheme \<Rightarrow> (int \<times> 'z file_st_scheme) res" where
  "sys_write s =
     bindR (argaddr 1 s) (\<lambda>p.
     bindR (argint 2 s) (\<lambda>n.
     bindR (argfd 0 s) (\<lambda>r.
     case r of None \<Rightarrow> Inr (-1, s) | Some (_, f) \<Rightarrow> filewrite f p n s)))"

definition sys_close :: "'z file_st_scheme \<Rightarrow> (int \<times> 'z file_st_scheme) res" where
  "sys_close s =
     bindR (argfd 0 s) (\<lambda>r.
     case r of
       None \<Rightarrow> Inr (-1, s)
     | Some (fd, f) \<Rightarrow>
         bindR (myproc s) (\<lambda>p.
         bindR (fileclose f (upd_proc p (ofile_update (\<lambda>fs. fs[fd := 0])) s)) (\<lambda>s. Inr (0, s))))"

definition sys_fstat :: "'z file_st_scheme \<Rightarrow> (int \<times> 'z file_st_scheme) res" where
  "sys_fstat s =
     bindR (argaddr 1 s) (\<lambda>st.
     bindR (argfd 0 s) (\<lambda>r.
     case r of None \<Rightarrow> Inr (-1, s) | Some (_, f) \<Rightarrow> filestat f st s))"

section \<open>Links\<close>

definition link_bad :: "addr \<Rightarrow> 'z fs_st_scheme \<Rightarrow> (int \<times> 'z fs_st_scheme) res" where
  "link_bad ip s =
     bindR (ilock ip s) (\<lambda>s.
     bindR (iupdate ip (upd_inode ip (nlink_update (\<lambda>n. n - 1)) s)) (\<lambda>s.
     bindR (iunlockput ip s) (\<lambda>s.
     bindR (end_op s) (\<lambda>s. Inr (-1, s)))))"

definition sys_link :: "'z fs_st_scheme \<Rightarrow> (int \<times> 'z fs_st_scheme) res" where
  "sys_link s =
     bindR (argstr 0 MAXPATH s) (\<lambda>old.
     case old of
       None \<Rightarrow> Inr (-1, s)
     | Some old \<Rightarrow>
         bindR (argstr 1 MAXPATH s) (\<lambda>new.
         case new of
           None \<Rightarrow> Inr (-1, s)
         | Some new \<Rightarrow>
             bindR (begin_op s) (\<lambda>s.
             bindR (namei old s) (\<lambda>(ip, s).
             if ip = 0 then bindR (end_op s) (\<lambda>s. Inr (-1, s))
             else
               bindR (ilock ip s) (\<lambda>s.
               if i_type (inodes s ip) = T_DIR
               then bindR (iunlockput ip s) (\<lambda>s. bindR (end_op s) (\<lambda>s. Inr (-1, s)))
               else
                 bindR (iupdate ip (upd_inode ip (nlink_update (\<lambda>n. n + 1)) s)) (\<lambda>s.
                 bindR (iunlock ip s) (\<lambda>s.
                 bindR (nameiparent new s) (\<lambda>((dp, name), s).
                 if dp = 0 then link_bad ip s
                 else
                   bindR (ilock dp s) (\<lambda>s.
                   bindR
                     (if i_dev (inodes s dp) \<noteq> i_dev (inodes s ip) then Inr (-1, s)
                      else dirlink dp name (inum (inodes s ip)) s) (\<lambda>(r, s).
                   bindR (iunlockput dp s) (\<lambda>s.
                   if r < 0 then link_bad ip s
                   else
                     bindR (iput ip s) (\<lambda>s.
                     bindR (end_op s) (\<lambda>s. Inr (0, s)))))))))))))) "

partial_function (option) isdirempty_loop ::
  "addr \<Rightarrow> uint32 \<Rightarrow> 'z fs_st_scheme \<Rightarrow> (bool \<times> 'z fs_st_scheme) res option"
where
  "isdirempty_loop dp off s =
     (if off < i_size (inodes s dp)
      then
        bindL (readi dp VarDst off sizeof_dirent s) (\<lambda>((r, de), s).
        if r \<noteq> uint sizeof_dirent then Some (Inl (Panic ''isdirempty: readi''))
        else if de_inum de \<noteq> 0 then Some (Inr (False, s))
        else isdirempty_loop dp (off + sizeof_dirent) s)
      else Some (Inr (True, s)))"

definition isdirempty :: "addr \<Rightarrow> 'z fs_st_scheme \<Rightarrow> (bool \<times> 'z fs_st_scheme) res" where
  "isdirempty dp s = bindR (of_loop (isdirempty_loop dp (2 * sizeof_dirent) s)) id"

definition sys_unlink :: "'z fs_st_scheme \<Rightarrow> (int \<times> 'z fs_st_scheme) res" where
  "sys_unlink s =
     bindR (argstr 0 MAXPATH s) (\<lambda>path.
     case path of
       None \<Rightarrow> Inr (-1, s)
     | Some path \<Rightarrow>
         bindR (begin_op s) (\<lambda>s.
         bindR (nameiparent path s) (\<lambda>((dp, name), s).
         if dp = 0 then bindR (end_op s) (\<lambda>s. Inr (-1, s))
         else
           (let bad = (\<lambda>s. bindR (iunlockput dp s) (\<lambda>s. bindR (end_op s) (\<lambda>s. Inr (-1, s)))) in
            bindR (ilock dp s) (\<lambda>s.
            if namecmp name (ascii ''.'') = 0 \<or> namecmp name (ascii ''..'') = 0 then bad s
            else
              bindR (dirlookup dp name s) (\<lambda>((ip, off), s).
              if ip = 0 then bad s
              else
                bindR (ilock ip s) (\<lambda>s.
                if sint (nlink (inodes s ip)) < 1 then Inl (Panic ''unlink: nlink < 1'')
                else
                  bindR (if i_type (inodes s ip) = T_DIR then isdirempty ip s else Inr (True, s)) (\<lambda>(e, s).
                  if \<not> e then bindR (iunlockput ip s) bad
                  else
                    bindR (writei dp (VarSrc (replicate 16 0)) off sizeof_dirent s) (\<lambda>(r, s).
                    if r \<noteq> uint sizeof_dirent then Inl (Panic ''unlink: writei'')
                    else
                      bindR
                        (if i_type (inodes s ip) = T_DIR
                         then iupdate dp (upd_inode dp (nlink_update (\<lambda>n. n - 1)) s)
                         else Inr s) (\<lambda>s.
                      bindR (iunlockput dp s) (\<lambda>s.
                      bindR (iupdate ip (upd_inode ip (nlink_update (\<lambda>n. n - 1)) s)) (\<lambda>s.
                      bindR (iunlockput ip s) (\<lambda>s.
                      bindR (end_op s) (\<lambda>s. Inr (0, s)))))))))))))) )"

section \<open>Creating and opening\<close>

definition create_fail :: "addr \<Rightarrow> addr \<Rightarrow> 'z fs_st_scheme \<Rightarrow> (addr \<times> 'z fs_st_scheme) res" where
  "create_fail ip dp s =
     bindR (iupdate ip (upd_inode ip (nlink_update (\<lambda>_. 0)) s)) (\<lambda>s.
     bindR (iunlockput ip s) (\<lambda>s.
     bindR (iunlockput dp s) (\<lambda>s. Inr (0, s))))"

definition create ::
  "byte list \<Rightarrow> 16 word \<Rightarrow> 16 word \<Rightarrow> 16 word \<Rightarrow> 'z fs_st_scheme \<Rightarrow> (addr \<times> 'z fs_st_scheme) res"
where
  "create path type major minor s =
     bindR (nameiparent path s) (\<lambda>((dp, name), s).
     if dp = 0 then Inr (0, s)
     else
       bindR (ilock dp s) (\<lambda>s.
       bindR (dirlookup dp name s) (\<lambda>((ip, _), s).
       if ip \<noteq> 0
       then
         bindR (iunlockput dp s) (\<lambda>s.
         bindR (ilock ip s) (\<lambda>s.
         if type = T_FILE \<and> (i_type (inodes s ip) = T_FILE \<or> i_type (inodes s ip) = T_DEVICE)
         then Inr (ip, s)
         else bindR (iunlockput ip s) (\<lambda>s. Inr (0, s))))
       else
         bindR (ialloc (i_dev (inodes s dp)) type s) (\<lambda>(ip, s).
         if ip = 0 then bindR (iunlockput dp s) (\<lambda>s. Inr (0, s))
         else
           bindR (ilock ip s) (\<lambda>s.
           bindR (iupdate ip (upd_inode ip (\<lambda>r. r\<lparr>i_major := major, i_minor := minor, nlink := 1\<rparr>) s)) (\<lambda>s.
           bindR
             (if type = T_DIR
              then
                bindR (dirlink ip (ascii ''.'') (inum (inodes s ip)) s) (\<lambda>(r, s).
                if r < 0 then Inr (r, s)
                else dirlink ip (ascii ''..'') (inum (inodes s dp)) s)
              else Inr (0, s)) (\<lambda>(r, s).
           if r < 0 then create_fail ip dp s
           else
             bindR (dirlink dp name (inum (inodes s ip)) s) (\<lambda>(r, s).
             if r < 0 then create_fail ip dp s
             else
               bindR
                 (if type = T_DIR then iupdate dp (upd_inode dp (nlink_update (\<lambda>n. n + 1)) s) else Inr s) (\<lambda>s.
               bindR (iunlockput dp s) (\<lambda>s. Inr (ip, s)))))))))) )"

text \<open>The first part of \<^verbatim>\<open>sys_open\<close>: the locked inode, or 0 after \<^verbatim>\<open>end_op\<close> where the call fails.\<close>

definition open_inode :: "byte list \<Rightarrow> uint32 \<Rightarrow> 'z fs_st_scheme \<Rightarrow> (addr \<times> 'z fs_st_scheme) res" where
  "open_inode path omode s =
     (let failed = (\<lambda>s. bindR (end_op s) (\<lambda>s. Inr (0, s))) in
      bindR
        (if omode AND O_CREATE \<noteq> 0
         then
           bindR (create path T_FILE 0 0 s) (\<lambda>(ip, s).
           if ip = 0 then failed s else Inr (ip, s))
         else
           bindR (namei path s) (\<lambda>(ip, s).
           if ip = 0 then failed s
           else
             bindR (ilock ip s) (\<lambda>s.
             if i_type (inodes s ip) = T_DIR \<and> omode \<noteq> O_RDONLY
             then bindR (iunlockput ip s) failed
             else Inr (ip, s)))) (\<lambda>(ip, s).
      if ip = 0 then Inr (0, s)
      else if i_type (inodes s ip) = T_DEVICE \<and> (sint (i_major (inodes s ip)) < 0 \<or> sint (i_major (inodes s ip)) \<ge> NDEV)
      then bindR (iunlockput ip s) failed
      else Inr (ip, s)))"

definition sys_open :: "'z file_st_scheme \<Rightarrow> (int \<times> 'z file_st_scheme) res" where
  "sys_open s =
     bindR (argint 1 s) (\<lambda>om.
     let omode = word_of_int om in
     bindR (argstr 0 MAXPATH s) (\<lambda>path.
     case path of
       None \<Rightarrow> Inr (-1, s)
     | Some path \<Rightarrow>
         bindR (begin_op s) (\<lambda>s.
         bindR (open_inode path omode s) (\<lambda>(ip, s).
         if ip = 0 then Inr (-1, s)
         else
           bindR (filealloc s) (\<lambda>(f, s).
           bindR (if f = 0 then Inr (-1, s) else fdalloc f s) (\<lambda>(fd, s).
           if fd < 0
           then
             bindR (if f \<noteq> 0 then fileclose f s else Inr s) (\<lambda>s.
             bindR (iunlockput ip s) (\<lambda>s.
             bindR (end_op s) (\<lambda>s. Inr (-1, s))))
           else
             (let s = (if i_type (inodes s ip) = T_DEVICE
                       then upd_file f (\<lambda>r. r\<lparr>f_type := FD_DEVICE, f_major := i_major (inodes s ip)\<rparr>) s
                       else upd_file f (\<lambda>r. r\<lparr>f_type := FD_INODE, f_off := 0\<rparr>) s);
                  s = upd_file f (\<lambda>r. r\<lparr>f_ip := ip, readable := omode AND O_WRONLY = 0,
                        writable := (omode AND O_WRONLY \<noteq> 0 \<or> omode AND O_RDWR \<noteq> 0)\<rparr>) s
              in bindR
                   (if omode AND O_TRUNC \<noteq> 0 \<and> i_type (inodes s ip) = T_FILE then itrunc ip s else Inr s) (\<lambda>s.
                 bindR (iunlock ip s) (\<lambda>s.
                 bindR (end_op s) (\<lambda>s. Inr (fd, s)))))))))))"

text \<open>The common part of \<^verbatim>\<open>sys_mkdir\<close> and \<^verbatim>\<open>sys_mknod\<close>, inside the transaction.\<close>

definition make_node ::
  "16 word \<Rightarrow> 16 word \<Rightarrow> 16 word \<Rightarrow> 'z fs_st_scheme \<Rightarrow> (int \<times> 'z fs_st_scheme) res"
where
  "make_node type major minor s =
     bindR (argstr 0 MAXPATH s) (\<lambda>path.
     bindR (case path of None \<Rightarrow> Inr (0, s) | Some path \<Rightarrow> create path type major minor s) (\<lambda>(ip, s).
     if ip = 0 then bindR (end_op s) (\<lambda>s. Inr (-1, s))
     else bindR (iunlockput ip s) (\<lambda>s. bindR (end_op s) (\<lambda>s. Inr (0, s)))))"

definition sys_mkdir :: "'z fs_st_scheme \<Rightarrow> (int \<times> 'z fs_st_scheme) res" where
  "sys_mkdir s = bindR (begin_op s) (\<lambda>s. make_node T_DIR 0 0 s)"

definition sys_mknod :: "'z fs_st_scheme \<Rightarrow> (int \<times> 'z fs_st_scheme) res" where
  "sys_mknod s =
     bindR (begin_op s) (\<lambda>s.
     bindR (argint 1 s) (\<lambda>major.
     bindR (argint 2 s) (\<lambda>minor.
     make_node T_DEVICE (word_of_int major) (word_of_int minor) s)))"

definition sys_chdir :: "'z fs_st_scheme \<Rightarrow> (int \<times> 'z fs_st_scheme) res" where
  "sys_chdir s =
     bindR (myproc s) (\<lambda>p.
     bindR (begin_op s) (\<lambda>s.
     bindR (argstr 0 MAXPATH s) (\<lambda>path.
     bindR (case path of None \<Rightarrow> Inr (0, s) | Some path \<Rightarrow> namei path s) (\<lambda>(ip, s).
     if ip = 0 then bindR (end_op s) (\<lambda>s. Inr (-1, s))
     else
       bindR (ilock ip s) (\<lambda>s.
       if i_type (inodes s ip) \<noteq> T_DIR
       then bindR (iunlockput ip s) (\<lambda>s. bindR (end_op s) (\<lambda>s. Inr (-1, s)))
       else
         bindR (iunlock ip s) (\<lambda>s.
         bindR (iput (cwd (procs s p)) s) (\<lambda>s.
         bindR (end_op s) (\<lambda>s.
         Inr (0, upd_proc p (cwd_update (\<lambda>_. ip)) s)))))))))"

section \<open>Exec and pipe\<close>

text \<open>
  The loop of \<^verbatim>\<open>sys_exec\<close> with \<open>k\<close> entries of \<^verbatim>\<open>argv\<close> left: the pages allocated, and the argument strings or
  \<open>None\<close> where the code goes to \<^verbatim>\<open>bad\<close>.
\<close>

primrec fetch_args ::
  "nat \<Rightarrow> addr \<Rightarrow> addr list \<Rightarrow> byte list list \<Rightarrow> 'z proc_st_scheme \<Rightarrow>
   ((addr list \<times> byte list list option) \<times> 'z proc_st_scheme) res"
where
  "fetch_args 0 uargv pages args s = Inr ((pages, None), s)"
| "fetch_args (Suc k) uargv pages args s =
     bindR (fetchaddr (uargv + 8 * of_nat (MAXARG - Suc k)) s) (\<lambda>(uarg, s).
     case uarg of
       None \<Rightarrow> Inr ((pages, None), s)
     | Some uarg \<Rightarrow>
         if uarg = 0 then Inr ((pages, Some args), s)
         else
           bindR (kalloc s) (\<lambda>(pg, s).
           if pg = 0 then Inr ((pages, None), s)
           else
             bindR (fetchstr uarg (unat PGSIZE) s) (\<lambda>(r, bs).
             let s = s\<lparr>mem := write_bytes (mem s) pg bs\<rparr> in
             if r < 0 then Inr ((pages @ [pg], None), s)
             else fetch_args k uargv (pages @ [pg]) (args @ [takeWhile (\<lambda>c. c \<noteq> 0) bs]) s)))"

primrec free_pages :: "addr list \<Rightarrow> addr \<Rightarrow> 'z phys_st_scheme \<Rightarrow> 'z phys_st_scheme res" where
  "free_pages [] kend s = Inr s"
| "free_pages (a # as) kend s = bindR (page_kfree kend a s) (free_pages as kend)"

definition sys_exec :: "addr \<Rightarrow> addr \<Rightarrow> 'z fs_st_scheme \<Rightarrow> (int \<times> 'z fs_st_scheme) res" where
  "sys_exec kend tramp s =
     bindR (argaddr 1 s) (\<lambda>uargv.
     bindR (argstr 0 MAXPATH s) (\<lambda>path.
     case path of
       None \<Rightarrow> Inr (-1, s)
     | Some path \<Rightarrow>
         bindR (fetch_args MAXARG uargv [] [] s) (\<lambda>((pages, args), s).
         bindR (case args of None \<Rightarrow> Inr (-1, s) | Some args \<Rightarrow> kexec kend tramp path args s) (\<lambda>(r, s).
         bindR (free_pages pages kend s) (\<lambda>s. Inr (r, s))))))"

definition int_bytes :: "int \<Rightarrow> byte list" where
  "int_bytes i = le_bytes 4 (ucast (word_of_int i :: uint32))"

definition sys_pipe :: "'z file_st_scheme \<Rightarrow> (int \<times> 'z file_st_scheme) res" where
  "sys_pipe s =
     bindR (myproc s) (\<lambda>p.
     bindR (argaddr 0 s) (\<lambda>fdarray.
     bindR (pipealloc s) (\<lambda>((r, rf, wf), s).
     if r < 0 then Inr (-1, s)
     else
       (let close_both = (\<lambda>s. bindR (fileclose rf s) (\<lambda>s. bindR (fileclose wf s) (\<lambda>s. Inr (-1, s))));
            clear = (\<lambda>fd s. upd_proc p (ofile_update (\<lambda>fs. fs[nat fd := 0])) s)
        in bindR (fdalloc rf s) (\<lambda>(fd0, s).
           bindR (if fd0 < 0 then Inr (-1, s) else fdalloc wf s) (\<lambda>(fd1, s).
           if fd0 < 0 \<or> fd1 < 0 then close_both (if fd0 \<ge> 0 then clear fd0 s else s)
           else
             bindR (copyout (pagetable (procs s p)) fdarray (int_bytes fd0) s) (\<lambda>(r, s).
             bindR
               (if r < 0 then Inr (r, s)
                else copyout (pagetable (procs s p)) (fdarray + 4) (int_bytes fd1) s) (\<lambda>(r, s).
             if r < 0 then close_both (clear fd1 (clear fd0 s)) else Inr (0, s)))))))))"

section \<open>Descriptors are the lowest free ones\<close>

lemma fdalloc_loop_ok:
  "(\<forall>j < k. ofile (procs s p) ! (fd + j) \<noteq> 0) \<and> fdalloc_loop k fd p f s = (-1, s) \<or>
   (\<exists>j < k. ofile (procs s p) ! (fd + j) = 0 \<and> (\<forall>i < j. ofile (procs s p) ! (fd + i) \<noteq> 0) \<and>
     fdalloc_loop k fd p f s = (int (fd + j), upd_proc p (ofile_update (\<lambda>fs. fs[fd + j := f])) s))"
proof (induction k arbitrary: fd)
  case (Suc k)
  show ?case
  proof (cases "ofile (procs s p) ! fd = 0")
    case False
    have all: "(\<forall>j < Suc n. ofile (procs s p) ! (fd + j) \<noteq> 0) \<longleftrightarrow> (\<forall>j < n. ofile (procs s p) ! (Suc fd + j) \<noteq> 0)" for n
      using False by (auto simp: less_Suc_eq_0_disj)
    from Suc.IH [of "Suc fd"] show ?thesis
    proof (elim disjE exE conjE)
      fix j
      assume j: "j < k" "ofile (procs s p) ! (Suc fd + j) = 0" "\<forall>i < j. ofile (procs s p) ! (Suc fd + i) \<noteq> 0"
        "fdalloc_loop k (Suc fd) p f s = (int (Suc fd + j), upd_proc p (ofile_update (\<lambda>fs. fs[Suc fd + j := f])) s)"
      show ?thesis
        by (intro disjI2 exI [of _ "Suc j"] conjI) (use j False all [of j] in simp_all)
    qed (use False all [of k] in simp)
  qed (intro disjI2 exI [of _ 0], simp)
qed simp

text \<open>
  C25: \<^verbatim>\<open>fdalloc\<close> gives the lowest descriptor that is free and puts the file there, changing nothing else; it fails with
  -1 exactly when all descriptors of the process are in use.
\<close>

theorem fdalloc_lowest:
  assumes "curproc s = Some p"
  defines "used \<equiv> \<lambda>fd. ofile (procs s p) ! fd \<noteq> 0"
  shows "(\<forall>fd < NOFILE. used fd) \<and> fdalloc f s = Inr (-1, s) \<or>
    (\<exists>fd < NOFILE. \<not> used fd \<and> (\<forall>i < fd. used i) \<and>
      fdalloc f s = Inr (int fd, upd_proc p (ofile_update (\<lambda>fs. fs[fd := f])) s))"
  using fdalloc_loop_ok [of NOFILE s p 0 f] assms(1) unfolding used_def by (auto simp: fdalloc_def)

definition demo_proc_files :: "addr list" where
  "demo_proc_files = [4096, 4096, 0, 8192] @ replicate 12 0"

theorem fdalloc_lowest_witness:
  "\<forall>s0 :: proc_st. \<exists>s. s = s0\<lparr>curproc := Some 3, procs := (procs s0)(3 := (procs s0 3)\<lparr>ofile := demo_proc_files\<rparr>)\<rparr> \<and>
     fdalloc 12288 s = Inr (2, upd_proc 3 (ofile_update (\<lambda>fs. fs[2 := 12288])) s)"
proof
  fix s0 :: proc_st
  let ?s = "s0\<lparr>curproc := Some 3, procs := (procs s0)(3 := (procs s0 3)\<lparr>ofile := demo_proc_files\<rparr>)\<rparr>"
  have n: "2 < NOFILE" "demo_proc_files ! 2 = 0" "demo_proc_files ! 0 \<noteq> 0" "demo_proc_files ! 1 \<noteq> 0"
    by (simp_all add: NOFILE_def demo_proc_files_def)
  have files: "ofile (procs ?s 3) = demo_proc_files" by simp
  have fd: "fd = 2" if "\<not> ofile (procs ?s 3) ! fd \<noteq> 0" "\<forall>i < fd. ofile (procs ?s 3) ! i \<noteq> 0" for fd
  proof -
    have "fd \<noteq> 0" "fd \<noteq> 1" "\<not> 2 < fd" using that n unfolding files by metis+
    then show ?thesis by linarith
  qed
  have cur: "curproc ?s = Some 3" by simp
  have "\<not> (\<forall>fd < NOFILE. ofile (procs ?s 3) ! fd \<noteq> 0)" unfolding files using n by blast
  then obtain fd where r: "\<not> ofile (procs ?s 3) ! fd \<noteq> 0" "\<forall>i < fd. ofile (procs ?s 3) ! i \<noteq> 0"
      "fdalloc 12288 ?s = Inr (int fd, upd_proc 3 (ofile_update (\<lambda>fs. fs[fd := 12288])) ?s)"
    using fdalloc_lowest [OF cur, of 12288] by blast
  have "fdalloc 12288 ?s = Inr (2, upd_proc 3 (ofile_update (\<lambda>fs. fs[2 := 12288])) ?s)"
    using r(3) unfolding fd [OF r(1,2)] by simp
  then show "\<exists>s. s = ?s \<and> fdalloc 12288 s = Inr (2, upd_proc 3 (ofile_update (\<lambda>fs. fs[2 := 12288])) s)" by blast
qed

end
