(* ===== verification/Syscall.thy ===== *)
theory Syscall
  imports Sysfile
begin

text \<open>
  The process and allocator system calls of \<^verbatim>\<open>kernel/sysproc.c\<close>, the dispatch of \<^verbatim>\<open>kernel/syscall.c\<close>, and the
  trap handlers of \<^verbatim>\<open>kernel/trap.c\<close>. The control registers a handler reads are an argument; the input
  characters waiting in the UART and the interrupt the PLIC reports are arguments too.
\<close>

record sys_st = file_st +
  ticks_addr :: addr
  ticks :: uint32
  tx_busy :: bool
  tx_chan :: addr
  kernel_pagetable :: addr

section \<open>Processes\<close>

definition sys_exit :: "'z sys_st_scheme \<Rightarrow> 'z sys_st_scheme res" where
  "sys_exit s = bindR (argint 0 s) (\<lambda>n. kexit n s)"

definition sys_getpid :: "'z sys_st_scheme \<Rightarrow> (int \<times> 'z sys_st_scheme) res" where
  "sys_getpid s = bindR (myproc s) (\<lambda>p. Inr (pid (procs s p), s))"

definition sys_fork :: "addr \<Rightarrow> addr \<Rightarrow> addr \<Rightarrow> 'z sys_st_scheme \<Rightarrow> (int \<times> 'z sys_st_scheme) res" where
  "sys_fork kend tramp fret s = kfork kend tramp fret s"

definition sys_wait :: "addr \<Rightarrow> 'z sys_st_scheme \<Rightarrow> (unit outcome \<times> 'z sys_st_scheme) res" where
  "sys_wait kend s = bindR (argaddr 0 s) (\<lambda>p. kwait kend p s)"

definition SBRK_EAGER :: int where "SBRK_EAGER = 1"

definition sys_sbrk :: "addr \<Rightarrow> 'z sys_st_scheme \<Rightarrow> (addr \<times> 'z sys_st_scheme) res" where
  "sys_sbrk kend s =
     bindR (argint 0 s) (\<lambda>n.
     bindR (argint 1 s) (\<lambda>t.
     bindR (myproc s) (\<lambda>p.
     let a = p_sz (procs s p) in
     if t = SBRK_EAGER \<or> n < 0
     then bindR (growproc kend n s) (\<lambda>(r, s). Inr (if r < 0 then -1 else a, s))
     else if a + of_int n < a then Inr (-1, s)
     else if a + of_int n > TRAPFRAME then Inr (-1, s)
     else Inr (a, upd_proc p (p_sz_update (\<lambda>sz. sz + of_int n)) s))))"

text \<open>The loop of \<^verbatim>\<open>sys_pause\<close> up to its next sleep, with \<^verbatim>\<open>tickslock\<close> held.\<close>

definition pause_run ::
  "uint32 \<Rightarrow> int \<Rightarrow> 'z sys_st_scheme \<Rightarrow> (uint32 outcome \<times> 'z sys_st_scheme) res"
where
  "pause_run ticks0 n s =
     (if uint (ticks s - ticks0) < n
      then
        bindR (myproc s) (\<lambda>p.
        bindR (killed p s) (\<lambda>(k, s).
        if k \<noteq> 0 then bindR (release L_ticks s) (\<lambda>s. Inr (Ret (-1), s))
        else Inr (Asleep ticks0, s)))
      else bindR (release L_ticks s) (\<lambda>s. Inr (Ret 0, s)))"

definition sys_pause :: "'z sys_st_scheme \<Rightarrow> (uint32 outcome \<times> 'z sys_st_scheme) res" where
  "sys_pause s =
     bindR (argint 0 s) (\<lambda>n.
     bindR (acquire L_ticks s) (\<lambda>s.
     pause_run (ticks s) (if n < 0 then 0 else n) s))"

definition sys_kill :: "'z sys_st_scheme \<Rightarrow> (int \<times> 'z sys_st_scheme) res" where
  "sys_kill s = bindR (argint 0 s) (\<lambda>i. kkill i s)"

definition sys_uptime :: "'z sys_st_scheme \<Rightarrow> (addr \<times> 'z sys_st_scheme) res" where
  "sys_uptime s =
     bindR (acquire L_ticks s) (\<lambda>s.
     let x = ticks s in bindR (release L_ticks s) (\<lambda>s. Inr (ucast x, s)))"

section \<open>Allocator calls\<close>

definition fetchstr_safe :: "addr \<Rightarrow> nat \<Rightarrow> 'z proc_st_scheme \<Rightarrow> byte list option res" where
  "fetchstr_safe a maxlen s =
     bindR (myproc s) (\<lambda>p.
     bindR (copyinstr (pagetable (procs s p)) a maxlen s) (\<lambda>(r, bs).
     Inr (if r < 0 then None else Some (takeWhile (\<lambda>c. c \<noteq> 0) bs))))"

partial_function (option) kmem_map_loop ::
  "addr \<Rightarrow> addr \<Rightarrow> nat \<Rightarrow> 'z sys_st_scheme \<Rightarrow> (int \<times> 'z sys_st_scheme) res option"
where
  "kmem_map_loop va bound p s =
     (if va < bound
      then
        bindL (walkaddr (pagetable (procs s p)) va s) (\<lambda>pa.
        if pa = 0 then Some (Inr (-1, s))
        else
          bindL (ismapped (kernel_pagetable s) va s) (\<lambda>m.
          bindL
            (if \<not> m then mappages (kernel_pagetable s) va PGSIZE pa (PTE_R OR PTE_W) s
             else Inr (0, s)) (\<lambda>(r, s).
          if r \<noteq> 0 then Some (Inr (-1, s)) else kmem_map_loop (va + PGSIZE) bound p s)))
      else Some (Inr (0, s)))"

definition sys_kmem_init :: "'z sys_st_scheme \<Rightarrow> (int \<times> 'z sys_st_scheme) res" where
  "sys_kmem_init s =
     bindR (argaddr 0 s) (\<lambda>space.
     bindR (argint 1 s) (\<lambda>block_num.
     bindR (myproc s) (\<lambda>p.
     bindR (bindR (of_loop (kmem_map_loop (PGROUNDDOWN space) (space + of_int block_num * BLOCK_SIZE) p s)) id) (\<lambda>(r, s).
     if r < 0 then Inr (-1, s)
     else bindR (kmem_init space block_num s) (\<lambda>s. Inr (0, s))))))"

definition sys_kmem_cache_create :: "'z sys_st_scheme \<Rightarrow> (addr \<times> 'z sys_st_scheme) res" where
  "sys_kmem_cache_create s =
     bindR (argaddr 0 s) (\<lambda>name_addr.
     bindR (argint 1 s) (\<lambda>size'.
     bindR (argaddr 2 s) (\<lambda>ctor.
     bindR (argaddr 3 s) (\<lambda>dtor.
     bindR (fetchstr_safe name_addr 64 s) (\<lambda>name.
     case name of
       None \<Rightarrow> Inr (0, s)
     | Some name \<Rightarrow> kmem_cache_create name (of_int size') ctor dtor s)))))"

definition sys_kmem_cache_shrink :: "'z sys_st_scheme \<Rightarrow> (int \<times> 'z sys_st_scheme) res" where
  "sys_kmem_cache_shrink s =
     bindR (argaddr 0 s) (\<lambda>c. if c = 0 then Inr (-1, s) else kmem_cache_shrink c s)"

definition sys_kmem_cache_alloc :: "'z sys_st_scheme \<Rightarrow> (addr \<times> 'z sys_st_scheme) res" where
  "sys_kmem_cache_alloc s =
     bindR (argaddr 0 s) (\<lambda>c. if c = 0 then Inr (0, s) else kmem_cache_alloc c s)"

definition sys_kmem_cache_free :: "'z sys_st_scheme \<Rightarrow> (int \<times> 'z sys_st_scheme) res" where
  "sys_kmem_cache_free s =
     bindR (argaddr 0 s) (\<lambda>c.
     bindR (argaddr 1 s) (\<lambda>obj.
     if c = 0 \<or> obj = 0 then Inr (0, s)
     else bindR (kmem_cache_free c obj s) (\<lambda>s. Inr (0, s))))"

definition sys_kmalloc :: "'z sys_st_scheme \<Rightarrow> (addr \<times> 'z sys_st_scheme) res" where
  "sys_kmalloc s =
     bindR (argint 0 s) (\<lambda>n. if n \<le> 0 then Inr (0, s) else kmalloc (of_int n) s)"

definition sys_kfree :: "'z sys_st_scheme \<Rightarrow> (int \<times> 'z sys_st_scheme) res" where
  "sys_kfree s =
     bindR (argaddr 0 s) (\<lambda>obj. if obj = 0 then Inr (0, s) else bindR (kfree obj s) (\<lambda>s. Inr (0, s)))"

definition sys_kmem_cache_destroy :: "'z sys_st_scheme \<Rightarrow> (int \<times> 'z sys_st_scheme) res" where
  "sys_kmem_cache_destroy s =
     bindR (argaddr 0 s) (\<lambda>c.
     if c = 0 then Inr (0, s) else bindR (kmem_cache_destroy c s) (\<lambda>s. Inr (0, s)))"

definition sys_kmem_cache_info :: "'z sys_st_scheme \<Rightarrow> (int \<times> 'z sys_st_scheme) res" where
  "sys_kmem_cache_info s =
     bindR (argaddr 0 s) (\<lambda>c.
     if c = 0 then Inr (0, s) else bindR (kmem_cache_info c s) (\<lambda>(_, s). Inr (0, s)))"

definition sys_kmem_cache_error :: "'z sys_st_scheme \<Rightarrow> (int \<times> 'z sys_st_scheme) res" where
  "sys_kmem_cache_error s =
     bindR (argaddr 0 s) (\<lambda>c. if c = 0 then Inr (1, s) else kmem_cache_error c s)"

section \<open>Dispatch\<close>

text \<open>A result as it is stored in \<^verbatim>\<open>a0\<close>: an \<^verbatim>\<open>int\<close> is extended to 64 bits.\<close>

definition ret_int :: "(int \<times> 's) res \<Rightarrow> (addr \<times> 's) res" where
  "ret_int r = bindR r (\<lambda>(i, s). Inr (of_int i, s))"

text \<open>
  The table \<^verbatim>\<open>syscalls\<close>. \<open>None\<close> stands for a number without an entry; \<^verbatim>\<open>sys_exit\<close>, which does not return, is
  handled apart.
\<close>

definition syscalls :: "addr \<Rightarrow> addr \<Rightarrow> addr \<Rightarrow> int \<Rightarrow> ('z sys_st_scheme \<Rightarrow> (addr \<times> 'z sys_st_scheme) res) option" where
  "syscalls kend tramp fret num =
     (if num = 1 then Some (\<lambda>s. ret_int (sys_fork kend tramp fret s))
      else if num = 3 then Some (\<lambda>s. ret_int (awake (sys_wait kend s)))
      else if num = 4 then Some (\<lambda>s. ret_int (sys_pipe s))
      else if num = 5 then Some (\<lambda>s. ret_int (sys_read s))
      else if num = 6 then Some (\<lambda>s. ret_int (sys_kill s))
      else if num = 7 then Some (\<lambda>s. ret_int (sys_exec kend tramp s))
      else if num = 8 then Some (\<lambda>s. ret_int (sys_fstat s))
      else if num = 9 then Some (\<lambda>s. ret_int (sys_chdir s))
      else if num = 10 then Some (\<lambda>s. ret_int (sys_dup s))
      else if num = 11 then Some (\<lambda>s. ret_int (sys_getpid s))
      else if num = 12 then Some (\<lambda>s. sys_sbrk kend s)
      else if num = 13 then Some (\<lambda>s. ret_int (awake (sys_pause s)))
      else if num = 14 then Some (\<lambda>s. sys_uptime s)
      else if num = 15 then Some (\<lambda>s. ret_int (sys_open s))
      else if num = 16 then Some (\<lambda>s. ret_int (sys_write s))
      else if num = 17 then Some (\<lambda>s. ret_int (sys_mknod s))
      else if num = 18 then Some (\<lambda>s. ret_int (sys_unlink s))
      else if num = 19 then Some (\<lambda>s. ret_int (sys_link s))
      else if num = 20 then Some (\<lambda>s. ret_int (sys_mkdir s))
      else if num = 21 then Some (\<lambda>s. ret_int (sys_close s))
      else if num = 22 then Some (\<lambda>s. ret_int (sys_kmem_init s))
      else if num = 23 then Some (\<lambda>s. sys_kmem_cache_create s)
      else if num = 24 then Some (\<lambda>s. ret_int (sys_kmem_cache_shrink s))
      else if num = 25 then Some (\<lambda>s. sys_kmem_cache_alloc s)
      else if num = 26 then Some (\<lambda>s. ret_int (sys_kmem_cache_free s))
      else if num = 27 then Some (\<lambda>s. sys_kmalloc s)
      else if num = 28 then Some (\<lambda>s. ret_int (sys_kfree s))
      else if num = 29 then Some (\<lambda>s. ret_int (sys_kmem_cache_destroy s))
      else if num = 30 then Some (\<lambda>s. ret_int (sys_kmem_cache_info s))
      else if num = 31 then Some (\<lambda>s. ret_int (sys_kmem_cache_error s))
      else None)"

text \<open>The flag is false where the process has exited and \<^verbatim>\<open>syscall\<close> does not return.\<close>

definition syscall ::
  "addr \<Rightarrow> addr \<Rightarrow> addr \<Rightarrow> 'z sys_st_scheme \<Rightarrow> (bool \<times> 'z sys_st_scheme) res"
where
  "syscall kend tramp fret s =
     bindR (myproc s) (\<lambda>p.
     let num = sint (ucast (get_tf tf_a7 p s) :: uint32) in
     if num = 2 then bindR (sys_exit s) (\<lambda>s. Inr (False, s))
     else
       (case syscalls kend tramp fret num of
          Some f \<Rightarrow> bindR (f s) (\<lambda>(r, s). Inr (True, set_tf tf_a0 r p s))
        | None \<Rightarrow> Inr (True, set_tf tf_a0 (-1) p s)))"

section \<open>Traps\<close>

record csrs =
  spp :: bool
  sepc :: addr
  scause :: addr
  stval :: addr

definition clockintr :: "nat \<Rightarrow> 'z sys_st_scheme \<Rightarrow> 'z sys_st_scheme res" where
  "clockintr hart s =
     (if hart = 0
      then
        bindR (acquire L_ticks s) (\<lambda>s.
        let s = s\<lparr>ticks := ticks s + 1\<rparr> in
        bindR (wakeup (ticks_addr s) s) (\<lambda>s. release L_ticks s))
      else Inr s)"

primrec uart_input :: "byte list \<Rightarrow> 'z sys_st_scheme \<Rightarrow> 'z sys_st_scheme res" where
  "uart_input [] s = Inr s"
| "uart_input (c # cs) s = bindR (consoleintr (uint c) s) (uart_input cs)"

text \<open>\<open>idle\<close> is the transmit-idle bit of the line status register.\<close>

definition uartintr :: "bool \<Rightarrow> byte list \<Rightarrow> 'z sys_st_scheme \<Rightarrow> 'z sys_st_scheme res" where
  "uartintr idle cs s =
     bindR (acquire L_tx s) (\<lambda>s.
     bindR (if idle then wakeup (tx_chan s) (s\<lparr>tx_busy := False\<rparr>) else Inr s) (\<lambda>s.
     bindR (release L_tx s) (\<lambda>s. uart_input cs s)))"

definition UART0_IRQ :: int where "UART0_IRQ = 10"

definition SCAUSE_EXT :: addr where "SCAUSE_EXT = 0x8000000000000009"

definition SCAUSE_TIMER :: addr where "SCAUSE_TIMER = 0x8000000000000005"

definition devintr ::
  "nat \<Rightarrow> int \<Rightarrow> bool \<Rightarrow> byte list \<Rightarrow> addr \<Rightarrow> 'z sys_st_scheme \<Rightarrow> (int \<times> 'z sys_st_scheme) res"
where
  "devintr hart irq idle cs cause s =
     (if cause = SCAUSE_EXT
      then bindR (if irq = UART0_IRQ then uartintr idle cs s else Inr s) (\<lambda>s. Inr (1, s))
      else if cause = SCAUSE_TIMER then bindR (clockintr hart s) (\<lambda>s. Inr (2, s))
      else Inr (0, s))"

datatype trap_end = ToUser | Exited | Yielded

text \<open>The end of \<^verbatim>\<open>usertrap\<close>: a killed process exits, a timer interrupt gives up the CPU.\<close>

definition usertrap_end ::
  "nat \<Rightarrow> int \<Rightarrow> 'z sys_st_scheme \<Rightarrow> (trap_end \<times> 'z sys_st_scheme) res"
where
  "usertrap_end p which_dev s =
     bindR (killed p s) (\<lambda>(k, s).
     if k \<noteq> 0 then bindR (kexit (-1) s) (\<lambda>s. Inr (Exited, s))
     else if which_dev = 2 then bindR (yield_enter s) (\<lambda>s. Inr (Yielded, s))
     else Inr (ToUser, s))"

definition usertrap ::
  "addr \<Rightarrow> addr \<Rightarrow> addr \<Rightarrow> nat \<Rightarrow> int \<Rightarrow> bool \<Rightarrow> byte list \<Rightarrow> csrs \<Rightarrow> 'z sys_st_scheme \<Rightarrow>
   (trap_end \<times> 'z sys_st_scheme) res"
where
  "usertrap kend tramp fret hart irq idle cs c s =
     (if spp c then Inl (Panic ''usertrap: not from user mode'')
      else
        bindR (myproc s) (\<lambda>p.
        let s = set_tf tf_epc (sepc c) p s in
        if scause c = 8
        then
          bindR (killed p s) (\<lambda>(k, s).
          if k \<noteq> 0 then bindR (kexit (-1) s) (\<lambda>s. Inr (Exited, s))
          else
            (let s = set_tf tf_epc (get_tf tf_epc p s + 4) p s in
             bindR (syscall kend tramp fret s) (\<lambda>(live, s).
             if live then usertrap_end p 0 s else Inr (Exited, s))))
        else
          bindR (devintr hart irq idle cs (scause c) s) (\<lambda>(which_dev, s).
          if which_dev \<noteq> 0 then usertrap_end p which_dev s
          else
            bindR
              (if scause c = 15 \<or> scause c = 13 then vmfault (pagetable (procs s p)) (stval c) s
               else Inr (0, s)) (\<lambda>(m, s).
            bindR (if m \<noteq> 0 then Inr s else setkilled p s) (\<lambda>s.
            usertrap_end p 0 s)))))"

definition kerneltrap ::
  "nat \<Rightarrow> int \<Rightarrow> bool \<Rightarrow> byte list \<Rightarrow> bool \<Rightarrow> csrs \<Rightarrow> 'z sys_st_scheme \<Rightarrow> (trap_end \<times> 'z sys_st_scheme) res"
where
  "kerneltrap hart irq idle cs intr c s =
     (if \<not> spp c then Inl (Panic ''kerneltrap: not from supervisor mode'')
      else if intr then Inl (Panic ''kerneltrap: interrupts enabled'')
      else
        bindR (devintr hart irq idle cs (scause c) s) (\<lambda>(which_dev, s).
        if which_dev = 0 then Inl (Panic ''kerneltrap'')
        else if which_dev = 2 \<and> curproc s \<noteq> None
        then bindR (yield_enter s) (\<lambda>s. Inr (Yielded, s))
        else Inr (ToUser, s)))"

end
