(* ===== verification/Boot.thy ===== *)
theory Boot
  imports Syscall
begin

text \<open>
  The kernel's page table (\<^verbatim>\<open>kvmmake\<close>), the order of initialisation in \<^verbatim>\<open>main.c\<close>, the return to user space
  (\<^verbatim>\<open>prepare_return\<close>, \<^verbatim>\<open>forkret\<close>) with the control registers it writes as a record, and \<^verbatim>\<open>procdump\<close>. It is proved that the return goes to the saved
  user program counter, in user mode and with interrupts on.
\<close>

section \<open>The page table of the kernel\<close>

definition UART0 :: addr where "UART0 = 0x10000000"

definition VIRTIO0 :: addr where "VIRTIO0 = 0x10001000"

definition PLIC :: addr where "PLIC = 0x0c000000"

text \<open>\<^verbatim>\<open>kalloc\<close> is not checked: without a page, \<^verbatim>\<open>memset\<close> writes through a null pointer.\<close>

definition kvmmake :: "addr \<Rightarrow> addr \<Rightarrow> 'z proc_st_scheme \<Rightarrow> (addr \<times> 'z proc_st_scheme) res" where
  "kvmmake etext tramp s =
     bindR (kalloc s) (\<lambda>(kpgtbl, s).
     if kpgtbl = 0 then Inl (Fault ''memset'')
     else
       (let s = s\<lparr>mem := memset (mem s) kpgtbl 0 (ucast PGSIZE)\<rparr> in
        bindR (kvmmap kpgtbl UART0 UART0 PGSIZE (PTE_R OR PTE_W) s) (\<lambda>s.
        bindR (kvmmap kpgtbl VIRTIO0 VIRTIO0 PGSIZE (PTE_R OR PTE_W) s) (\<lambda>s.
        bindR (kvmmap kpgtbl PLIC PLIC 0x4000000 (PTE_R OR PTE_W) s) (\<lambda>s.
        bindR (kvmmap kpgtbl KERNBASE KERNBASE (etext - KERNBASE) (PTE_R OR PTE_X) s) (\<lambda>s.
        bindR (kvmmap kpgtbl etext etext (PHYSTOP - etext) (PTE_R OR PTE_W) s) (\<lambda>s.
        bindR (kvmmap kpgtbl TRAMPOLINE tramp PGSIZE (PTE_R OR PTE_X) s) (\<lambda>s.
        bindR (proc_mapstacks kpgtbl s) (\<lambda>s. Inr (kpgtbl, s))))))))))"

definition trapinit :: "'z sys_st_scheme \<Rightarrow> 'z sys_st_scheme" where
  "trapinit s = init_lock L_ticks s"

text \<open>
  \<^verbatim>\<open>main\<close> on CPU 0 up to the scheduler, without the messages and the device registers; the result has the kernel's page
  table, which \<^verbatim>\<open>kvminit\<close> stores.
\<close>

definition kmain :: "addr \<Rightarrow> addr \<Rightarrow> addr \<Rightarrow> addr \<Rightarrow> 'z sys_st_scheme \<Rightarrow> (addr \<times> 'z sys_st_scheme) res" where
  "kmain kend etext tramp fret s =
     bindR (kinit kend s) (\<lambda>s.
     bindR (kmem_init (PHYSTOP - SLAB_RESERVED_BLOCKS * BLOCK_SIZE) (uint SLAB_RESERVED_BLOCKS) s) (\<lambda>s.
     bindR (consoleinit s) (\<lambda>s.
     bindR (kvmmake etext tramp s) (\<lambda>(kernel_pagetable, s).
     bindR (procinit s) (\<lambda>s.
     bindR (binit (trapinit s)) (\<lambda>s.
     bindR (iinit s) (\<lambda>s.
     bindR (fileinit s) (\<lambda>s.
     bindR (userinit kend tramp fret s) (\<lambda>s.
     Inr (kernel_pagetable, s))))))))))"

section \<open>The return to user space\<close>

record uregs =
  ur_stvec :: addr
  ur_sstatus :: addr
  ur_sepc :: addr
  ur_satp :: addr
  ur_tp :: addr

definition SSTATUS_SPP :: addr where "SSTATUS_SPP = push_bit 8 1"

definition SSTATUS_SPIE :: addr where "SSTATUS_SPIE = push_bit 5 1"

definition SSTATUS_SIE :: addr where "SSTATUS_SIE = push_bit 1 1"

definition sstatus_intr_off :: "uregs \<Rightarrow> uregs" where
  "sstatus_intr_off r = r\<lparr>ur_sstatus := ur_sstatus r AND NOT SSTATUS_SIE\<rparr>"

definition tf_kernel_satp :: addr where "tf_kernel_satp = 0"

definition tf_kernel_sp :: addr where "tf_kernel_sp = 8"

definition tf_kernel_trap :: addr where "tf_kernel_trap = 16"

definition tf_kernel_hartid :: addr where "tf_kernel_hartid = 32"

text \<open>The addresses of \<^verbatim>\<open>uservec\<close>, \<^verbatim>\<open>trampoline\<close> and \<^verbatim>\<open>usertrap\<close> are arguments.\<close>

definition prepare_return ::
  "addr \<Rightarrow> addr \<Rightarrow> addr \<Rightarrow> uregs \<Rightarrow> 'z proc_st_scheme \<Rightarrow> (uregs \<times> 'z proc_st_scheme) res"
where
  "prepare_return uservec tramp usertrap_fn r s =
     bindR (myproc s) (\<lambda>p.
     let r = sstatus_intr_off r;
         r = r\<lparr>ur_stvec := TRAMPOLINE + (uservec - tramp)\<rparr>;
         s = set_tf tf_kernel_satp (ur_satp r) p s;
         s = set_tf tf_kernel_sp (kstack (procs s p) + PGSIZE) p s;
         s = set_tf tf_kernel_trap usertrap_fn p s;
         s = set_tf tf_kernel_hartid (ur_tp r) p s;
         x = ur_sstatus r AND NOT SSTATUS_SPP OR SSTATUS_SPIE;
         r = r\<lparr>ur_sstatus := x\<rparr>
     in Inr (r\<lparr>ur_sepc := get_tf tf_epc p s\<rparr>, s))"

lemma set_tf_procs [simp]: "procs (set_tf f v p s) = procs s"
  by (simp add: set_tf_def)

lemma get_set_tf: "get_tf f p (set_tf g v p s) = (if f = g then v else get_tf f p s)" if "f = g \<or> apart8 g f"
proof -
  have "apart8 (x + g) (x + f)" if "apart8 g f" for x using that by (simp add: apart8_def)
  then show ?thesis using that by (auto simp: get_tf_def set_tf_def load64_store64_apart)
qed

lemmas tf_offsets = tf_kernel_satp_def tf_kernel_sp_def tf_kernel_trap_def tf_kernel_hartid_def tf_epc_def

lemma prepare_return_ok:
  assumes "curproc s = Some p"
  shows "\<exists>r' t. prepare_return uservec tramp usertrap_fn r s = Inr (r', t) \<and> ur_sepc r' = get_tf tf_epc p s \<and>
    \<not> bit (ur_sstatus r') 8 \<and> bit (ur_sstatus r') 5 \<and> \<not> bit (ur_sstatus r') 1 \<and>
    get_tf tf_kernel_sp p t = kstack (procs s p) + PGSIZE \<and> get_tf tf_kernel_satp p t = ur_satp r \<and>
    get_tf tf_kernel_trap p t = usertrap_fn \<and> get_tf tf_kernel_hartid p t = ur_tp r \<and> get_tf tf_epc p t = get_tf tf_epc p s"
  using assms
  by (simp add: prepare_return_def Let_def get_set_tf tf_offsets apart8_def sstatus_intr_off_def
      SSTATUS_SPP_def SSTATUS_SPIE_def SSTATUS_SIE_def bit_simps)

text \<open>The common end of \<^verbatim>\<open>usertrap\<close> and \<^verbatim>\<open>forkret\<close>, whose value is the \<^verbatim>\<open>satp\<close> for the code of the trampoline.\<close>

definition SATP_SV39 :: addr where "SATP_SV39 = push_bit 60 8"

definition MAKE_SATP :: "addr \<Rightarrow> addr" where
  "MAKE_SATP pt = SATP_SV39 OR drop_bit 12 pt"

definition to_user ::
  "addr \<Rightarrow> addr \<Rightarrow> addr \<Rightarrow> uregs \<Rightarrow> 'z proc_st_scheme \<Rightarrow> (addr \<times> uregs \<times> 'z proc_st_scheme) res"
where
  "to_user uservec tramp usertrap_fn r s =
     bindR (myproc s) (\<lambda>p.
     bindR (prepare_return uservec tramp usertrap_fn r s) (\<lambda>(r, s).
     Inr (MAKE_SATP (pagetable (procs s p)), r, s)))"

text \<open>The first process to run initialises the file system and executes \<^verbatim>\<open>/init\<close>; \<open>first\<close> is the static variable.\<close>

definition forkret ::
  "addr \<Rightarrow> addr \<Rightarrow> addr \<Rightarrow> addr \<Rightarrow> bool \<Rightarrow> uregs \<Rightarrow> 'z fs_st_scheme \<Rightarrow> (addr \<times> uregs \<times> 'z fs_st_scheme) res"
where
  "forkret kend uservec tramp usertrap_fn first r s =
     bindR (myproc s) (\<lambda>p.
     bindR (release (L_proc p) s) (\<lambda>s.
     bindR
       (if first
        then
          bindR (fsinit ROOTDEV s) (\<lambda>s.
          bindR (kexec kend tramp (ascii ''/init'') [ascii ''/init''] s) (\<lambda>(v, s).
          let s = set_tf tf_a0 (word_of_int v) p s in
          if get_tf tf_a0 p s = - 1 then Inl (Panic ''exec'') else Inr s))
        else Inr s) (\<lambda>s.
     to_user uservec tramp usertrap_fn r s)))"

lemma to_user_ok:
  assumes "curproc s = Some p"
  shows "\<exists>r' t. to_user uservec tramp usertrap_fn r s = Inr (MAKE_SATP (pagetable (procs s p)), r', t) \<and>
    ur_sepc r' = get_tf tf_epc p s \<and> \<not> bit (ur_sstatus r') 8"
proof -
  have "\<exists>r' t. prepare_return uservec tramp usertrap_fn r s = Inr (r', t) \<and> procs t = procs s"
    using assms by (simp add: prepare_return_def Let_def)
  then show ?thesis using prepare_return_ok [OF assms, of uservec tramp usertrap_fn r] assms by (auto simp: to_user_def)
qed

text \<open>A child of \<^verbatim>\<open>fork\<close> that is scheduled for the first time goes to its user program.\<close>

lemma forkret_child:
  assumes "curproc s = Some p" and "L_proc p \<in> held s"
  shows "\<exists>r' t. forkret kend uservec tramp usertrap_fn False r s = Inr (MAKE_SATP (pagetable (procs s p)), r', t) \<and>
    ur_sepc r' = get_tf tf_epc p s \<and> \<not> bit (ur_sstatus r') 8"
proof -
  let ?s = "s\<lparr>held := held s - {L_proc p}\<rparr>"
  have "get_tf tf_epc p ?s = get_tf tf_epc p s" by (simp add: get_tf_def)
  then show ?thesis
    using to_user_ok [of ?s p uservec tramp usertrap_fn r] assms by (simp add: forkret_def)
qed

section \<open>The process listing\<close>

primrec state_name :: "procstate \<Rightarrow> string" where
  "state_name UNUSED = ''unused''"
| "state_name USED = ''used''"
| "state_name SLEEPING = ''sleep ''"
| "state_name RUNNABLE = ''runble''"
| "state_name RUNNING = ''run   ''"
| "state_name ZOMBIE = ''zombie''"

text \<open>What \<^verbatim>\<open>procdump\<close> prints: the process identifier, the state and the name of each slot in use.\<close>

definition procdump :: "'z proc_st_scheme \<Rightarrow> (int \<times> string \<times> byte list) list" where
  "procdump s =
     map (\<lambda>p. (pid (procs s p), state_name (state (procs s p)), p_name (procs s p)))
       (filter (\<lambda>p. state (procs s p) \<noteq> UNUSED) [0 ..< NPROC])"

end
