(* ===== verification/Buddy_Print.thy ===== *)
theory Buddy_Print
  imports Buddy
begin

text \<open>
  The two printing functions of \<^verbatim>\<open>buddy.c\<close>. What they print is the list of their calls of \<^verbatim>\<open>printf\<close>: the format, without
  its newlines, and its arguments; a newline alone is \<open>''newline''\<close>. It is proved that both return on every state of the allocator, and what \<^verbatim>\<open>buddy_print_info\<close> reports.
\<close>

type_synonym printed = "(string \<times> int list) list"

section \<open>The report\<close>

text \<open>\<^verbatim>\<open>(n * BLOCK_SIZE) / 1024\<close> in \<^verbatim>\<open>int\<close>.\<close>

definition kbytes :: "int \<Rightarrow> int res" where
  "kbytes n = (if 0 \<le> n \<and> n * 4096 < 2 ^ 31 then Inr (n * 4096 div 1024) else Inl (Fault ''int overflow''))"

partial_function (option) count_chunks :: "memory \<Rightarrow> addr \<Rightarrow> int \<Rightarrow> int option" where
  "count_chunks m block count = (if block \<noteq> 0 then count_chunks m (load64 m block) (count + 1) else Some count)"

text \<open>The lines for the orders below \<open>n\<close>, from the highest down.\<close>

primrec report_orders :: "nat \<Rightarrow> 'z buddy_st_scheme \<Rightarrow> printed res" where
  "report_orders 0 s = Inr []"
| "report_orders (Suc order) s =
     bindR (fl_get order s) (\<lambda>block.
     bindR (of_loop (count_chunks (mem s) block 0)) (\<lambda>count.
     bindR (if count > 0
            then bindR (kbytes (2 ^ order)) (\<lambda>kb.
                 Inr [(''  Order %d: %d blocks (%d KB) - %d chunks'', [int order, 2 ^ order, kb, count])])
            else Inr []) (\<lambda>out.
     bindR (report_orders order s) (\<lambda>rest. Inr (out @ rest)))))"

definition buddy_print_info :: "'z buddy_st_scheme \<Rightarrow> (printed \<times> 'z buddy_st_scheme) res" where
  "buddy_print_info s =
     bindR (acquire L_buddy s) (\<lambda>s.
     bindR (kbytes (total_blocks s)) (\<lambda>total_kb.
     bindR (kbytes (free_blocks s)) (\<lambda>free_kb.
     bindR (kbytes (total_blocks s - free_blocks s)) (\<lambda>used_kb.
     if total_blocks s = 0 then Inl (Fault ''division by zero'')
     else
       bindR (report_orders (max_order s) s) (\<lambda>orders.
       bindR (release L_buddy s) (\<lambda>s.
       Inr ([(''=== Buddy Allocator Info ==='', []), (''Total blocks: %d (%d KB)'', [total_blocks s, total_kb]),
             (''Free blocks: %d (%d KB)'', [free_blocks s, free_kb]),
             (''Used blocks: %d (%d KB)'', [total_blocks s - free_blocks s, used_kb]),
             (''Utilization: %d%%'', [(total_blocks s - free_blocks s) * 100 div total_blocks s]),
             (''Free lists by order:'', [])] @ orders @ [(''============================'', [])], s)))))))"

section \<open>The picture\<close>

primrec found_order :: "nat \<Rightarrow> addr \<Rightarrow> 'z buddy_st_scheme \<Rightarrow> nat option res" where
  "found_order 0 current s = bindR (is_block_free current 0 s) (\<lambda>free. Inr (if free then Some 0 else None))"
| "found_order (Suc order) current s =
     bindR (is_block_free current (int (Suc order)) s) (\<lambda>free.
     if free then Inr (Some (Suc order)) else found_order order current s)"

fun label_digits :: "nat \<Rightarrow> nat" where
  "label_digits temp = (if temp > 0 then 1 + label_digits (temp div 10) else 0)"

definition label_len :: "nat \<Rightarrow> nat" where
  "label_len num_blocks = (if num_blocks = 0 then 1 else label_digits num_blocks)"

text \<open>A free chunk: what is printed for it and the length of the line then.\<close>

definition free_box :: "nat \<Rightarrow> nat \<Rightarrow> printed \<times> nat" where
  "free_box num_blocks line_len =
     (let inner_width = max (min num_blocks 128) (label_len num_blocks);
          block_width = inner_width + 2;
          wrap = line_len + block_width > 128 \<and> line_len > 0;
          pad_left = (inner_width - label_len num_blocks) div 2;
          pad_right = inner_width - label_len num_blocks - pad_left
      in ((if wrap then [(''newline'', [])] else []) @ [(''['', [])] @ replicate pad_left (''-'', []) @
            [(''%d'', [int num_blocks])] @ replicate pad_right (''-'', []) @ [('']'', [])],
          (if wrap then 0 else line_len) + block_width))"

definition used_box :: "nat \<Rightarrow> printed \<times> nat" where
  "used_box line_len =
     (let wrap = line_len + 2 > 128 \<and> line_len > 0
      in ((if wrap then [(''newline'', [])] else []) @ [(''..'', [])], (if wrap then 0 else line_len) + 2))"

partial_function (option) pretty_loop ::
  "addr \<Rightarrow> addr \<Rightarrow> nat \<Rightarrow> printed \<Rightarrow> 'z buddy_st_scheme \<Rightarrow> printed res option"
where
  "pretty_loop current end' line_len out s =
     (if current < end'
      then
        (case found_order (max_order s) current s of
           Inl e \<Rightarrow> Some (Inl e)
         | Inr None \<Rightarrow>
             (let (o', l) = used_box line_len in pretty_loop (current + 4096) end' l (out @ o') s)
         | Inr (Some k) \<Rightarrow>
             (let (o', l) = free_box (2 ^ k) line_len in
              pretty_loop (current + word_of_int (2 ^ k * 4096)) end' l (out @ o') s))
      else Some (Inr (out @ [(''newline'', [])])))"

definition pretty_print_buddy :: "'z buddy_st_scheme \<Rightarrow> (printed \<times> 'z buddy_st_scheme) res" where
  "pretty_print_buddy s =
     bindR (acquire L_buddy s) (\<lambda>s.
     bindR (of_loop (pretty_loop (memory_start s) (memory_start s + word_of_int (total_blocks s * 4096)) 0 [] s)) (\<lambda>r.
     bindR r (\<lambda>out.
     bindR (release L_buddy s) (\<lambda>s. Inr (out, s)))))"

section \<open>Both return\<close>

lemma count_chunks_chain: "chain (load64 m) p xs \<Longrightarrow> count_chunks m p n = Some (n + int (length xs))"
proof (induction xs arbitrary: p n)
  case Nil
  then show ?case by (subst count_chunks.simps) simp
next
  case (Cons a xs)
  then show ?case by (subst count_chunks.simps) auto
qed

definition order_line :: "flists \<Rightarrow> nat \<Rightarrow> printed" where
  "order_line L k =
     (if L k = [] then []
      else [(''  Order %d: %d blocks (%d KB) - %d chunks'', [int k, 2 ^ k, 2 ^ k * 4096 div 1024, int (length (L k))])])"

lemma report_orders_ok:
  assumes "buddy_ok base K s L"
  shows "n \<le> Suc K \<Longrightarrow> report_orders n s = Inr (concat (map (order_line L) (rev [0 ..< n])))"
proof (induction n)
  case (Suc n)
  have "K \<le> 13" using assms by (simp add: buddy_ok_def region_def)
  then have "n \<le> 13" using Suc.prems by simp
  then have "(2 :: int) ^ n \<le> 2 ^ 13" by (intro power_increasing) simp_all
  then have "kbytes (2 ^ n) = Inr (2 ^ n * 4096 div 1024)" by (simp add: kbytes_def)
  moreover have "n < length (free_list s)" by (rule buddy_ok_order [OF assms]) (use Suc.prems in simp)
  moreover have "count_chunks (mem s) (free_list s ! n) 0 = Some (int (length (L n)))"
    using count_chunks_chain [OF buddy_ok_chain [OF assms, of n], of 0] Suc.prems by simp
  ultimately show ?case using Suc by (simp add: fl_get_def order_line_def)
qed simp

text \<open>Each free list with its chunks is reported, from the largest order down, and the state is as before.\<close>

lemma buddy_print_info_ok:
  assumes st: "buddy_state base K s L" and f: "free_blocks s \<le> 2 ^ K"
  shows "buddy_print_info s = Inr (
    [(''=== Buddy Allocator Info ==='', []), (''Total blocks: %d (%d KB)'', [2 ^ K, 4 * 2 ^ K]),
     (''Free blocks: %d (%d KB)'', [free_blocks s, 4 * free_blocks s]),
     (''Used blocks: %d (%d KB)'', [2 ^ K - free_blocks s, 4 * (2 ^ K - free_blocks s)]),
     (''Utilization: %d%%'', [(2 ^ K - free_blocks s) * 100 div 2 ^ K]), (''Free lists by order:'', [])] @
    concat (map (order_line L) (rev [0 ..< Suc K])) @ [(''============================'', [])], s)"
proof -
  have ok: "buddy_ok base K s L" and h: "L_buddy \<notin> held s" and t: "total_blocks s = 2 ^ K" and f0: "0 \<le> free_blocks s"
    using st by (auto simp: buddy_state_def)
  let ?s = "s\<lparr>held := insert L_buddy (held s)\<rparr>"
  have ok': "buddy_ok base K ?s L" using ok by (simp add: buddy_ok_def buddy_rep_def)
  have K: "K \<le> 13" "max_order s = Suc K" using ok by (auto simp: buddy_ok_def region_def buddy_rep_def)
  have "(2 :: int) ^ K \<le> 2 ^ 13" using K(1) by (intro power_increasing) simp_all
  then have kb: "kbytes n = Inr (4 * n)" if "0 \<le> n" "n \<le> 2 ^ K" for n using that by (simp add: kbytes_def)
  have rel: "release L_buddy ?s = Inr s" using h by simp
  show ?thesis
    using report_orders_ok [OF ok' order_refl] rel h t f f0 K(2) by (simp add: buddy_print_info_def kb del: upt_Suc report_orders.simps)
qed

lemma found_order_ok:
  assumes "buddy_ok base K s L" and "j < 2 ^ K"
  shows "n \<le> Suc K \<Longrightarrow> \<exists>r. found_order n (blk base j) s = Inr r \<and> (\<forall>k. r = Some k \<longrightarrow> j \<in> set (L k))"
proof (induction n)
  case 0
  then show ?case using is_block_free_ok [OF assms(1), of 0 j] assms(2) by simp
next
  case (Suc n)
  show ?case
  proof (cases "n = K")
    case True
    have "is_block_free (blk base j) (int (Suc n)) s = Inr False"
      using assms(1) True by (simp add: is_block_free_def buddy_ok_def buddy_rep_def)
    then show ?thesis using Suc by simp
  next
    case False
    then have "is_block_free (blk base j) (int (Suc n)) s = Inr (j \<in> set (L (Suc n)))"
      using is_block_free_ok [OF assms(1), of "Suc n" j] Suc.prems assms(2) by simp
    then show ?thesis using Suc by auto
  qed
qed

lemma pretty_loop_returns:
  assumes "buddy_ok base K s L" and "unat base + 2 ^ K * 4096 < 2 ^ 64"
  shows "j \<le> 2 ^ K \<Longrightarrow> \<exists>out'. pretty_loop (blk base j) (blk base (2 ^ K)) l out s = Some (Inr out')"
proof (induction "2 ^ K - j" arbitrary: j l out rule: less_induct)
  case less
  have reg: "region base K" "max_order s = Suc K" using assms(1) by (auto simp: buddy_ok_def buddy_rep_def)
  have lim: "unat (blk base (2 ^ K)) = unat base + 2 ^ K * 4096"
    using assms(2) by (simp add: blk_def unat_plus_if' del: of_nat_mult of_nat_power)
  show ?case
  proof (cases "j < 2 ^ K")
    case True
    then have lt: "blk base j < blk base (2 ^ K)" using blk_unat [OF reg(1) True] lim by (simp add: word_less_nat_alt)
    obtain r where r: "found_order (Suc K) (blk base j) s = Inr r" "\<And>k. r = Some k \<Longrightarrow> j \<in> set (L k)"
      using found_order_ok [OF assms(1) True order_refl] by blast
    show ?thesis
    proof (cases r)
      case None
      have "blk base j + 4096 = blk base (j + 2 ^ 0)" using blk_add [of base j 0] by simp
      then show ?thesis
        using less.hyps [of "j + 2 ^ 0" "snd (used_box l)" "out @ fst (used_box l)"] True lt r(1) None reg(2)
        by (subst pretty_loop.simps) (simp add: case_prod_beta)
    next
      case (Some k)
      have "chunk_ok K k j"
        using chunks_ok_chunk [of K "fsets L" j k] r(2) [OF Some] assms(1) by (simp add: buddy_ok_def fsets_def)
      then have "j + 2 ^ k \<le> 2 ^ K" by (simp add: chunk_ok_def)
      moreover have "2 ^ K - (j + 2 ^ k) < 2 ^ K - j" using True by (intro diff_less_mono2) simp_all
      moreover have "blk base j + 2 ^ k * 4096 = blk base (j + 2 ^ k)" using blk_add [of base j k] by simp
      ultimately show ?thesis
        using less.hyps [of "j + 2 ^ k" "snd (free_box (2 ^ k) l)" "out @ fst (free_box (2 ^ k) l)"] True lt r(1) Some reg(2)
        by (subst pretty_loop.simps) (simp add: case_prod_beta)
    qed
  next
    case False
    then show ?thesis using less.prems by (subst pretty_loop.simps) simp
  qed
qed

lemma pretty_print_buddy_returns:
  assumes st: "buddy_state base K s L" and "unat base + 2 ^ K * 4096 < 2 ^ 64"
  shows "\<exists>out. pretty_print_buddy s = Inr (out, s)"
proof -
  let ?s = "s\<lparr>held := insert L_buddy (held s)\<rparr>"
  have h: "L_buddy \<notin> held s" and t: "total_blocks s = 2 ^ K" and m: "memory_start s = base" and ok: "buddy_ok base K ?s L"
    using st by (auto simp: buddy_state_def buddy_ok_def buddy_rep_def)
  have b: "blk base 0 = base" "base + word_of_int (2 ^ K * 4096) = blk base (2 ^ K)"
    using blk_add [of base 0 K] by (simp_all add: blk_def)
  obtain out where "pretty_loop (blk base 0) (blk base (2 ^ K)) 0 [] ?s = Some (Inr out)"
    using pretty_loop_returns [OF ok assms(2), of 0 0 "[]"] by auto
  then have "pretty_loop base (base + word_of_int (2 ^ K * 4096)) 0 [] ?s = Some (Inr out)" using b by simp
  then have "pretty_print_buddy s = Inr (out, s)"
    unfolding pretty_print_buddy_def using h t m by simp
  then show ?thesis by blast
qed

end
