(* ===== verification/Slab_Inv.thy ===== *)
theory Slab_Inv
  imports Slab
begin

text \<open>
  The invariant of a slab cache and what it gives a client. A cache keeps its slabs on three doubly linked lists
  by the number of free objects, and threads the free objects of a slab into a list. The theory shows that
  \<^verbatim>\<open>kmem_cache_alloc\<close> and \<^verbatim>\<open>kmem_cache_free\<close> keep both kinds of lists, that objects handed out never overlap
  one another, the headers or the free blocks of the buddy allocator, and that a cache meets the contract of an
  allocator. The blocks of the slabs are runs the cache holds from the buddy allocator, so the theory is a client of
  that allocator's contract.
\<close>

section \<open>Unlinking\<close>

lemma dll_prev: "dll S pv p (as @ x # bs) \<Longrightarrow> sl_prev (S x) = (if as = [] then pv else last as)"
  by (induction as arbitrary: pv p) auto

lemma dll_next: "dll S pv p (as @ x # bs) \<Longrightarrow> sl_next (S x) = (if bs = [] then 0 else hd bs)"
  by (induction as arbitrary: pv p) (auto simp: neq_Nil_conv)

lemma dll_unlink:
  assumes "dll S pv p (as @ x # bs)"
    and "\<And>y. y \<in> set (as @ bs) \<Longrightarrow>
      sl_next (S' y) = (if as \<noteq> [] \<and> y = last as then sl_next (S x) else sl_next (S y))"
    and "\<And>y. y \<in> set (as @ bs) \<Longrightarrow>
      sl_prev (S' y) = (if bs \<noteq> [] \<and> y = hd bs then sl_prev (S x) else sl_prev (S y))"
  shows "dll S' pv (if as = [] then sl_next (S x) else p) (as @ bs)"
  using assms
proof (induction as arbitrary: pv p)
  case Nil
  have d: "dll S x (sl_next (S x)) bs" "sl_prev (S x) = pv" using Nil(1) by simp_all
  have "y \<noteq> hd bs" if "y \<in> set (tl bs)" for y
    using dll_distinct [OF d(1)] that by (cases bs) auto
  moreover have "y \<in> set bs" if "y \<in> set (tl bs)" for y using that by (cases bs) auto
  moreover have "sl_next (S x) \<noteq> 0 \<Longrightarrow> bs \<noteq> [] \<and> sl_next (S x) = hd bs" using dll_head [OF d(1)] by (cases bs) auto
  ultimately have "dll S' pv (sl_next (S x)) bs"
    using Nil(2,3) d(2) by (intro dll_reprev [OF d(1)]) auto
  then show ?case by simp
next
  case (Cons a as)
  have d: "p = a" "a \<noteq> 0" "sl_prev (S a) = pv" "dll S a (sl_next (S a)) (as @ x # bs)" using Cons.prems(1) by simp_all
  have dis: "a \<notin> set as" "a \<notin> set bs" using dll_distinct [OF Cons.prems(1)] by simp_all
  have "dll S' a (if as = [] then sl_next (S x) else sl_next (S a)) (as @ bs)"
  proof (rule Cons.IH [OF d(4)])
    fix y assume y: "y \<in> set (as @ bs)"
    then show "sl_next (S' y) = (if as \<noteq> [] \<and> y = last as then sl_next (S x) else sl_next (S y))"
      using Cons.prems(2) [of y] dis by (auto split: if_splits)
    show "sl_prev (S' y) = (if bs \<noteq> [] \<and> y = hd bs then sl_prev (S x) else sl_prev (S y))"
      using Cons.prems(3) [of y] y by simp
  qed
  moreover have "sl_next (S' a) = (if as = [] then sl_next (S x) else sl_next (S a))"
    using Cons.prems(2) [of a] dis by (auto split: if_splits)
  moreover have "sl_prev (S' a) = pv" using Cons.prems(3) [of a] d(3) dis by (auto split: if_splits)
  ultimately show ?case using d by simp
qed

text \<open>
  A step that relinks slabs of the cache \<open>c\<close> and changes nothing else.
\<close>

definition relinked :: "addr \<Rightarrow> 'z slab_st_scheme \<Rightarrow> 'z slab_st_scheme \<Rightarrow> bool" where
  "relinked c s t \<longleftrightarrow>
     (\<exists>S C. t = s\<lparr>slabs := S, caches := (caches s)(c := C)\<rparr> \<and>
       (\<forall>y. slab_core (S y) = slab_core (slabs s y)) \<and> cache_core C = cache_core (caches s c))"

lemma relinked_refl [simp]: "relinked c s s"
  unfolding relinked_def by (intro exI [of _ "slabs s"] exI [of _ "caches s c"]) simp

lemma relinked_trans: "relinked c s t \<Longrightarrow> relinked c t u \<Longrightarrow> relinked c s u"
  unfolding relinked_def
proof (elim exE conjE)
  fix S C S' C'
  assume "t = s\<lparr>slabs := S, caches := (caches s)(c := C)\<rparr>" "u = t\<lparr>slabs := S', caches := (caches t)(c := C')\<rparr>"
    "\<forall>y. slab_core (S y) = slab_core (slabs s y)" "cache_core C = cache_core (caches s c)"
    "\<forall>y. slab_core (S' y) = slab_core (slabs t y)" "cache_core C' = cache_core (caches t c)"
  then show "\<exists>S C. u = s\<lparr>slabs := S, caches := (caches s)(c := C)\<rparr> \<and>
      (\<forall>y. slab_core (S y) = slab_core (slabs s y)) \<and> cache_core C = cache_core (caches s c)"
    by (intro exI [of _ S'] exI [of _ C']) simp
qed

lemma remove_slab_ok:
  assumes d: "dll (slabs s) 0 (head_of l (caches s c)) xs" and x: "x \<in> set xs"
  shows "relinked c s (remove_slab_from_list l c x s) \<and>
    (\<forall>y. y \<notin> set xs \<longrightarrow> slabs (remove_slab_from_list l c x s) y = slabs s y) \<and>
    dll (slabs (remove_slab_from_list l c x s)) 0 (head_of l (caches (remove_slab_from_list l c x s) c)) (remove1 x xs) \<and>
    (\<forall>l'. l' \<noteq> l \<longrightarrow> head_of l' (caches (remove_slab_from_list l c x s) c) = head_of l' (caches s c))"
proof -
  obtain as bs where xs: "xs = as @ x # bs" "x \<notin> set as" using split_list_first [OF x] by blast
  note d' = d [unfolded xs(1)]
  note pn = dll_prev [OF d'] dll_next [OF d']
  have dis: "distinct (as @ x # bs)" and nz: "\<And>y. y \<in> set (as @ x # bs) \<Longrightarrow> y \<noteq> 0"
    using dll_distinct [OF d'] dll_nz [OF d'] by simp_all
  let ?S = "slabs s" and ?pv = "sl_prev (slabs s x)" and ?nx = "sl_next (slabs s x)"
  define S1 where "S1 = (if ?pv \<noteq> 0 then ?S(?pv := (?S ?pv)\<lparr>sl_next := ?nx\<rparr>) else ?S)"
  define S2 where "S2 = (if ?nx \<noteq> 0 then S1(?nx := (S1 ?nx)\<lparr>sl_prev := ?pv\<rparr>) else S1)"
  define S3 where "S3 = S2(x := (S2 x)\<lparr>sl_prev := 0, sl_next := 0\<rparr>)"
  define C where "C = (if ?pv \<noteq> 0 then caches s c else head_upd l ?nx (caches s c))"
  have px: "?pv \<noteq> x" "?nx \<noteq> x" "?pv \<noteq> 0 \<longleftrightarrow> as \<noteq> []" "?nx \<noteq> 0 \<longleftrightarrow> bs \<noteq> []"
    "as \<noteq> [] \<Longrightarrow> ?pv = last as \<and> last as \<in> set as" "bs \<noteq> [] \<Longrightarrow> ?nx = hd bs \<and> hd bs \<in> set bs"
    using pn dis nz by (auto split: if_splits)
  have eq: "remove_slab_from_list l c x s = s\<lparr>slabs := S3, caches := (caches s)(c := C)\<rparr>"
    using px(1,2) by (simp add: remove_slab_from_list_def Let_def set_head_eq upd_slab_def upd_cache_def
        S1_def S2_def S3_def C_def)
  have S1: "S1 y = (if as \<noteq> [] \<and> y = last as then (?S y)\<lparr>sl_next := ?nx\<rparr> else ?S y)" for y
    unfolding S1_def using px(3, 5) by (cases "as = []") simp_all
  have S2: "S2 y = (if bs \<noteq> [] \<and> y = hd bs then (S1 y)\<lparr>sl_prev := ?pv\<rparr> else S1 y)" for y
    unfolding S2_def using px(4, 6) by (cases "bs = []") simp_all
  have S3: "sl_next (S3 y) = (if as \<noteq> [] \<and> y = last as then ?nx else sl_next (?S y))"
      "sl_prev (S3 y) = (if bs \<noteq> [] \<and> y = hd bs then ?pv else sl_prev (?S y))" if "y \<in> set (as @ bs)" for y
  proof -
    have "y \<noteq> x" using that dis by auto
    then show "sl_next (S3 y) = (if as \<noteq> [] \<and> y = last as then ?nx else sl_next (?S y))"
      "sl_prev (S3 y) = (if bs \<noteq> [] \<and> y = hd bs then ?pv else sl_prev (?S y))"
      by (simp_all add: S3_def S2 S1)
  qed
  have g1: "dll S3 0 (if as = [] then ?nx else head_of l (caches s c)) (as @ bs)"
    by (rule dll_unlink [OF d' S3])
  have g2: "head_of l C = (if as = [] then ?nx else head_of l (caches s c))" using px(3) by (simp add: C_def)
  have g3: "remove1 x xs = as @ bs" using xs by (simp add: remove1_append)
  have g4: "\<forall>y. y \<notin> set xs \<longrightarrow> S3 y = ?S y"
  proof (intro allI impI)
    fix y assume y: "y \<notin> set xs"
    then have n: "\<not> (as \<noteq> [] \<and> y = last as)" "\<not> (bs \<noteq> [] \<and> y = hd bs)" "y \<noteq> x" using xs(1) by auto
    have "S1 y = ?S y" "S2 y = S1 y" using S1 [of y] S2 [of y] n by (simp_all only: if_False)
    then show "S3 y = ?S y" using n(3) by (simp add: S3_def)
  qed
  have g5: "\<forall>y. slab_core (S3 y) = slab_core (?S y)" by (auto simp: S3_def S2_def S1_def)
  have g6: "\<forall>l'. l' \<noteq> l \<longrightarrow> head_of l' C = head_of l' (caches s c)" by (simp add: C_def)
  have g7: "cache_core C = cache_core (caches s c)" by (simp add: C_def)
  have "relinked c s (s\<lparr>slabs := S3, caches := (caches s)(c := C)\<rparr>)"
    unfolding relinked_def by (intro exI [of _ S3] exI [of _ C] conjI refl g5 g7)
  then show ?thesis unfolding eq using g1 g2 g3 g4 g6 by simp
qed

section \<open>The slab lists of a cache\<close>

type_synonym slists = "slab_list \<Rightarrow> addr list"

definition cache_lists :: "addr \<Rightarrow> 'z slab_st_scheme \<Rightarrow> slists \<Rightarrow> bool" where
  "cache_lists c s L \<longleftrightarrow>
     (\<forall>l. dll (slabs s) 0 (head_of l (caches s c)) (L l)) \<and>
     (\<forall>l l'. l \<noteq> l' \<longrightarrow> set (L l) \<inter> set (L l') = {})"

definition all_slabs :: "slists \<Rightarrow> addr set" where
  "all_slabs L = (\<Union>l. set (L l))"

definition moved :: "addr \<Rightarrow> slab_list \<Rightarrow> slab_list \<Rightarrow> slists \<Rightarrow> slists" where
  "moved x l l' L = (let M = L(l := remove1 x (L l)) in M(l' := x # M l'))"

lemma cache_listsD:
  assumes "cache_lists c s L"
  shows "dll (slabs s) 0 (head_of l (caches s c)) (L l)" "distinct (L l)"
    "x \<in> set (L l) \<Longrightarrow> x \<noteq> 0" "x \<in> set (L l) \<Longrightarrow> x \<in> set (L l') \<Longrightarrow> l' = l"
    "head_of l (caches s c) = (case L l of [] \<Rightarrow> 0 | x # _ \<Rightarrow> x)"
proof -
  show d: "dll (slabs s) 0 (head_of l (caches s c)) (L l)" using assms by (simp add: cache_lists_def)
  show "distinct (L l)" by (rule dll_distinct [OF d])
  show "x \<in> set (L l) \<Longrightarrow> x \<noteq> 0" by (rule dll_nz [OF d])
  show "x \<in> set (L l) \<Longrightarrow> x \<in> set (L l') \<Longrightarrow> l' = l" using assms unfolding cache_lists_def by blast
  show "head_of l (caches s c) = (case L l of [] \<Rightarrow> 0 | x # _ \<Rightarrow> x)" by (rule dll_head [OF d])
qed

lemma set_moved:
  assumes "distinct (L l)" and "x \<in> set (L l)" and "l' \<noteq> l"
  shows "set (moved x l l' L k) = (if k = l then set (L l) - {x} else if k = l' then insert x (set (L l')) else set (L k))"
  using assms by (auto simp: moved_def Let_def)

lemma all_slabs_moved:
  assumes "distinct (L l)" and "x \<in> set (L l)" and "l' \<noteq> l"
  shows "all_slabs (moved x l l' L) = all_slabs L"
proof -
  have "y \<in> all_slabs (moved x l l' L) \<longleftrightarrow> y \<in> all_slabs L" for y
    using assms(2,3) unfolding all_slabs_def by (auto simp: set_moved [of L l, OF assms] split: if_splits)
  then show ?thesis by blast
qed

text \<open>Taking a slab off one list and pushing it on another.\<close>

lemma move_slab_ok:
  assumes s: "cache_lists c s L" and x: "x \<in> set (L l)" "l' \<noteq> l"
  defines "t \<equiv> add_slab_to_list l' c x (remove_slab_from_list l c x s)"
  shows "relinked c s t" and "cache_lists c t (moved x l l' L)"
proof -
  let ?u = "remove_slab_from_list l c x s"
  note R = remove_slab_ok [OF cache_listsD(1) [OF s] x(1)]
  have dis: "k \<noteq> l \<Longrightarrow> y \<in> set (L k) \<Longrightarrow> y \<notin> set (L l)" for k y using cache_listsD(4) [OF s] by blast
  have dk: "dll (slabs ?u) 0 (head_of k (caches ?u c)) (L k)" if k: "k \<noteq> l" for k
  proof -
    have "dll (slabs ?u) 0 (head_of k (caches s c)) (L k) = dll (slabs s) 0 (head_of k (caches s c)) (L k)"
      by (rule dll_cong) (use R dis [OF k] in simp)
    then show ?thesis using R k cache_listsD(1) [OF s, of k] by simp
  qed
  have xl': "x \<notin> set (L l')" using x dis by blast
  obtain S C where S: "t = ?u\<lparr>slabs := S, caches := (caches ?u)(c := C)\<rparr>"
      "\<forall>y. y \<notin> set (x # L l') \<longrightarrow> S y = slabs ?u y" "\<forall>y. slab_core (S y) = slab_core (slabs ?u y)"
      "cache_core C = cache_core (caches ?u c)" "dll S 0 (head_of l' C) (x # L l')"
      "\<forall>k. k \<noteq> l' \<longrightarrow> head_of k C = head_of k (caches ?u c)"
    using add_slab_ok [OF dk [OF x(2)] cache_listsD(3) [OF s x(1)] xl'] unfolding t_def by blast
  have "relinked c ?u t" unfolding relinked_def by (intro exI [of _ S] exI [of _ C] conjI S(1,3,4))
  then show "relinked c s t" using R relinked_trans by blast
  have keep: "dll S 0 (head_of k C) ys" if "dll (slabs ?u) 0 (head_of k (caches ?u c)) ys" "k \<noteq> l'"
      "set ys \<inter> set (x # L l') = {}" for k ys
  proof -
    have "dll S 0 (head_of k (caches ?u c)) ys = dll (slabs ?u) 0 (head_of k (caches ?u c)) ys"
      by (rule dll_cong) (use S(2) that(3) in auto)
    then show ?thesis using that S(6) by simp
  qed
  have "dll S 0 (head_of k C) (moved x l l' L k)" for k
  proof (cases "k = l")
    case True
    have "set (remove1 x (L l)) \<inter> set (x # L l') = {}"
      using cache_listsD(2) [OF s, of l] dis [OF x(2)] by auto
    then show ?thesis using keep [of l "remove1 x (L l)"] R x(2) True by (simp add: moved_def Let_def)
  next
    case kl: False
    show ?thesis
    proof (cases "k = l'")
      case True
      then show ?thesis using S(5) kl by (simp add: moved_def Let_def)
    next
      case False
      have "set (L k) \<inter> set (x # L l') = {}"
        using cache_listsD(4) [OF s, of _ k l'] cache_listsD(4) [OF s, of x k l] x(1) kl False by auto
      then show ?thesis using keep [OF dk [OF kl] False] kl False by (simp add: moved_def Let_def)
    qed
  qed
  moreover have "set (moved x l l' L k) \<inter> set (moved x l l' L k') = {}" if "k \<noteq> k'" for k k'
    unfolding set_moved [of L l, OF cache_listsD(2) [OF s] x]
    using that x cache_listsD(4) [OF s] by (auto split: if_splits)
  ultimately show "cache_lists c t (moved x l l' L)" unfolding cache_lists_def S(1) by simp
qed

section \<open>Slabs and their objects\<close>

definition slots :: "addr \<Rightarrow> int \<Rightarrow> addr \<Rightarrow> addr set" where
  "slots z b x = slot x z ` {..< slab_objs z b}"

text \<open>A slab at \<open>x\<close> whose free objects are \<open>fr\<close>; every other object of it points back to it.\<close>

definition slab_ok :: "addr \<Rightarrow> addr \<Rightarrow> int \<Rightarrow> 'z slab_st_scheme \<Rightarrow> addr \<Rightarrow> addr list \<Rightarrow> bool" where
  "slab_ok c z b s x fr \<longleftrightarrow>
     sl_mem (slabs s x) = x \<and> sl_cache (slabs s x) = c \<and>
     unat (num_objects_max (slabs s x)) = slab_objs z b \<and> unat (num_free (slabs s x)) = length fr \<and>
     chain (\<lambda>p. ob_next (objs s p)) (sl_free_list (slabs s x)) fr \<and> set fr \<subseteq> slots z b x \<and>
     (\<forall>p \<in> slots z b x - set fr. ob_slab (objs s p) = x)"

text \<open>The list a slab with \<open>k\<close> free objects out of \<open>n\<close> belongs to.\<close>

definition place :: "nat \<Rightarrow> nat \<Rightarrow> slab_list" where
  "place n k = (if k = 0 then SLAB_FULL else if k = n then SLAB_EMPTY else SLAB_PARTIAL)"

definition live_slots :: "addr \<Rightarrow> int \<Rightarrow> slists \<Rightarrow> (addr \<Rightarrow> addr list) \<Rightarrow> addr set" where
  "live_slots z b L F = (\<Union>x \<in> all_slabs L. slots z b x - set (F x))"

definition cache_ok :: "addr \<Rightarrow> addr \<Rightarrow> int \<Rightarrow> 'z slab_st_scheme \<Rightarrow> slists \<Rightarrow> (addr \<Rightarrow> addr list) \<Rightarrow> bool" where
  "cache_ok c z b s L F \<longleftrightarrow>
     object_size (caches s c) = z \<and> aligned_size (caches s c) = z + sizeof_kmem_object \<and>
     slab_size (caches s c) = b \<and> valid_cache c s \<and>
     cache_lists c s L \<and> (\<forall>x \<in> all_slabs L. slab_ok c z b s x (F x)) \<and>
     (\<forall>l. \<forall>x \<in> set (L l). l = place (slab_objs z b) (length (F x))) \<and>
     num_allocated (caches s c) = of_nat (card (live_slots z b L F))"

lemma slab_core_fields:
  assumes "slab_core k = slab_core k'"
  shows "sl_mem k = sl_mem k'" "sl_cache k = sl_cache k'" "num_objects_max k = num_objects_max k'"
    "num_free k = num_free k'" "sl_free_list k = sl_free_list k'"
  using assms by (cases k; cases k'; simp add: slab_core_def)+

lemma cache_core_fields:
  assumes "cache_core k = cache_core k'"
  shows "object_size k = object_size k'" "aligned_size k = aligned_size k'" "slab_size k = slab_size k'"
    "error_detection k = error_detection k'" "num_allocated k = num_allocated k'"
  using assms by (cases k; cases k'; simp add: cache_core_def)+

lemma relinkedD:
  assumes "relinked c s t"
  shows "objs t = objs s" "slab_core (slabs t x) = slab_core (slabs s x)"
    "cache_core (caches t c) = cache_core (caches s c)" "held t = held s" "mem t = mem s"
    "k \<noteq> c \<Longrightarrow> caches t k = caches s k"
  using assms unfolding relinked_def by auto

lemma relinked_slab_ok:
  assumes "relinked c s t"
  shows "slab_ok c' z b t x fr = slab_ok c' z b s x fr"
  using slab_core_fields [OF relinkedD(2) [OF assms]] by (simp add: slab_ok_def relinkedD(1) [OF assms])

lemma relinked_valid:
  assumes "relinked c s t"
  shows "valid_cache c t = valid_cache c s"
  using cache_core_fields(4) [OF relinkedD(3) [OF assms]] by (simp add: valid_cache_def)

text \<open>
  The relinking at the end of \<^verbatim>\<open>kmem_cache_alloc\<close> and \<^verbatim>\<open>kmem_cache_free\<close>: a slab whose count has changed by
  one goes to the list of its new count, over \<^verbatim>\<open>slabs_partial\<close> when it has a single object.
\<close>

definition relink :: "slab_list \<Rightarrow> slab_list \<Rightarrow> bool \<Rightarrow> addr \<Rightarrow> addr \<Rightarrow> 'z slab_st_scheme \<Rightarrow> 'z slab_st_scheme" where
  "relink l l' m c x s = (if m then add_slab_to_list l' c x (remove_slab_from_list l c x s) else s)"

definition goes :: "addr \<Rightarrow> slab_list \<Rightarrow> slists \<Rightarrow> slists \<Rightarrow> bool" where
  "goes x l L M \<longleftrightarrow> x \<in> set (M l) \<and> all_slabs M = all_slabs L \<and> (\<forall>k. set (M k) - {x} = set (L k) - {x})"

lemma goes_refl: "x \<in> set (L l) \<Longrightarrow> goes x l L L"
  by (simp add: goes_def)

lemma goes_trans: "goes x l L M \<Longrightarrow> goes x l' M N \<Longrightarrow> goes x l' L N"
  by (auto simp: goes_def)

lemma relink_goes:
  assumes "cache_lists c s L" and "x \<in> set (L k)" and "m \<Longrightarrow> k = l" and "l' \<noteq> l"
  shows "\<exists>M. relinked c s (relink l l' m c x s) \<and> cache_lists c (relink l l' m c x s) M \<and>
    goes x (if m then l' else k) L M"
proof (cases m)
  case True
  then have x: "x \<in> set (L l)" using assms(2,3) by simp
  note D = cache_listsD(2) [OF assms(1)]
  have "goes x l' L (moved x l l' L)"
    unfolding goes_def all_slabs_moved [of L l, OF D x assms(4)] set_moved [of L l, OF D x assms(4)]
    using assms(4) by auto
  then show ?thesis
    using move_slab_ok [OF assms(1) x assms(4)] True by (intro exI [of _ "moved x l l' L"]) (simp add: relink_def)
next
  case False
  then show ?thesis using assms by (intro exI [of _ L]) (simp add: relink_def goes_refl)
qed

lemma relink_twice:
  assumes "cache_lists c s L" and "x \<in> set (L k)" and "m \<Longrightarrow> k = l" and "m' \<Longrightarrow> m \<or> k = p" and "l \<noteq> p" and "l' \<noteq> p"
  defines "t \<equiv> relink p l' m' c x (relink l p m c x s)"
  shows "\<exists>M. relinked c s t \<and> cache_lists c t M \<and> goes x (if m' then l' else if m then p else k) L M"
proof -
  let ?u = "relink l p m c x s"
  obtain N where N: "relinked c s ?u" "cache_lists c ?u N" "goes x (if m then p else k) L N"
    using relink_goes [of c s L x k m l p] assms by blast
  have x: "x \<in> set (N (if m then p else k))" using N(3) unfolding goes_def by blast
  have m: "m' \<Longrightarrow> (if m then p else k) = p" using assms(4) by auto
  obtain M where M: "relinked c ?u t" "cache_lists c t M" "goes x (if m' then l' else if m then p else k) N M"
    using relink_goes [OF N(2) x m assms(6)] unfolding t_def by blast
  show ?thesis using relinked_trans [OF N(1) M(1)] M(2) goes_trans [OF N(3) M(3)] by blast
qed

text \<open>The state between the change of a slab's count and its relinking.\<close>

definition cache_pre ::
  "addr \<Rightarrow> addr \<Rightarrow> int \<Rightarrow> 'z slab_st_scheme \<Rightarrow> slists \<Rightarrow> (addr \<Rightarrow> addr list) \<Rightarrow> addr \<Rightarrow> slab_list \<Rightarrow> bool"
where
  "cache_pre c z b s L F x k \<longleftrightarrow>
     object_size (caches s c) = z \<and> aligned_size (caches s c) = z + sizeof_kmem_object \<and>
     slab_size (caches s c) = b \<and> valid_cache c s \<and>
     cache_lists c s L \<and> (\<forall>y \<in> all_slabs L. slab_ok c z b s y (F y)) \<and> x \<in> set (L k) \<and>
     (\<forall>l. \<forall>y \<in> set (L l). y \<noteq> x \<longrightarrow> l = place (slab_objs z b) (length (F y))) \<and>
     num_allocated (caches s c) = of_nat (card (live_slots z b L F))"

lemma cache_pre_relink:
  assumes s: "cache_pre c z b s L F x k"
    and "m \<Longrightarrow> k = l" and "m' \<Longrightarrow> m \<or> k = p" and "l \<noteq> p" and "l' \<noteq> p"
    and p: "(if m' then l' else if m then p else k) = place (slab_objs z b) (length (F x))"
  defines "t \<equiv> relink p l' m' c x (relink l p m c x s)"
  shows "\<exists>M. relinked c s t \<and> cache_ok c z b t M F \<and> all_slabs M = all_slabs L"
proof -
  have x: "cache_lists c s L" "x \<in> set (L k)" using s unfolding cache_pre_def by blast+
  obtain M where M: "relinked c s t" "cache_lists c t M" "goes x (place (slab_objs z b) (length (F x))) L M"
    using relink_twice [of c s L x k m l m' p l'] x assms(2-5) unfolding p t_def by blast
  note core = cache_core_fields [OF relinkedD(3) [OF M(1)]]
  have A: "all_slabs M = all_slabs L" "x \<in> set (M (place (slab_objs z b) (length (F x))))"
    "\<And>k. set (M k) - {x} = set (L k) - {x}" using M(3) unfolding goes_def by blast+
  have "l = place (slab_objs z b) (length (F y))" if y: "y \<in> set (M l)" for l y
  proof (cases "y = x")
    case True
    then show ?thesis using cache_listsD(4) [OF M(2) A(2)] y by blast
  next
    case False
    then have "y \<in> set (L l)" using A(3) [of l] y by blast
    then show ?thesis using s False unfolding cache_pre_def by blast
  qed
  moreover have "slab_ok c z b t y (F y)" if "y \<in> all_slabs L" for y
    using s that unfolding relinked_slab_ok [OF M(1)] cache_pre_def by blast
  ultimately have "cache_ok c z b t M F"
    using s M(2) unfolding cache_ok_def cache_pre_def core relinked_valid [OF M(1)] A(1) live_slots_def by blast
  then show ?thesis using M(1) A(1) by blast
qed

section \<open>Taking and returning an object\<close>

definition slots_apart :: "addr \<Rightarrow> int \<Rightarrow> addr set \<Rightarrow> bool" where
  "slots_apart z b A \<longleftrightarrow> (\<forall>x \<in> A. \<forall>y \<in> A. x \<noteq> y \<longrightarrow> slots z b x \<inter> slots z b y = {})"

lemma all_slabs_eq: "all_slabs L = set (L SLAB_PARTIAL) \<union> set (L SLAB_FULL) \<union> set (L SLAB_EMPTY)"
proof -
  have "x \<in> all_slabs L \<longleftrightarrow> x \<in> set (L SLAB_PARTIAL) \<union> set (L SLAB_FULL) \<union> set (L SLAB_EMPTY)" for x
  proof
    assume "x \<in> all_slabs L"
    then obtain l where "x \<in> set (L l)" by (auto simp: all_slabs_def)
    then show "x \<in> set (L SLAB_PARTIAL) \<union> set (L SLAB_FULL) \<union> set (L SLAB_EMPTY)" by (cases l) auto
  qed (auto simp: all_slabs_def)
  then show ?thesis by blast
qed

lemma finite_live: "finite (live_slots z b L F)"
  unfolding live_slots_def all_slabs_eq slots_def by simp

lemma live_take:
  assumes "slots_apart z b (all_slabs L)" and "x \<in> all_slabs L" and "F x = p # fr" and "distinct (F x)"
    and "p \<in> slots z b x"
  shows "live_slots z b L (F(x := fr)) = insert p (live_slots z b L F)" "p \<notin> live_slots z b L F"
proof -
  have o: "p \<notin> slots z b y" if "y \<in> all_slabs L" "y \<noteq> x" for y
    using assms(1,2,5) that unfolding slots_apart_def by blast
  show "p \<notin> live_slots z b L F" 
    using o assms(3) unfolding live_slots_def by (metis (no_types, lifting) DiffE UN_E list.set_intros(1))
  have "q \<in> live_slots z b L (F(x := fr)) \<longleftrightarrow> q \<in> insert p (live_slots z b L F)" for q
    using assms(2-5) unfolding live_slots_def by (auto split: if_splits)
  then show "live_slots z b L (F(x := fr)) = insert p (live_slots z b L F)" by blast
qed

text \<open>The updates of \<^verbatim>\<open>kmem_cache_alloc\<close> between the choice of the slab and the relinking.\<close>

definition took :: "addr \<Rightarrow> addr \<Rightarrow> addr \<Rightarrow> 'z slab_st_scheme \<Rightarrow> 'z slab_st_scheme" where
  "took c x p s =
     upd_cache c (num_allocated_update (\<lambda>n. n + 1)) (upd_slab x (num_free_update (\<lambda>n. n - 1))
       (upd_obj p (ob_slab_update (\<lambda>_. x)) (upd_slab x (sl_free_list_update (\<lambda>_. ob_next (objs s p))) s)))"

lemma field_upd:
  "num_free_update f k = k\<lparr>num_free := f (num_free k)\<rparr>" "num_allocated_update g h = h\<lparr>num_allocated := g (num_allocated h)\<rparr>"
  by (cases k; simp) (cases h; simp)

lemma took_simps:
  "slabs (took c x p s) = (slabs s)(x := (slabs s x)\<lparr>sl_free_list := ob_next (objs s p), num_free := num_free (slabs s x) - 1\<rparr>)"
  "objs (took c x p s) = (objs s)(p := (objs s p)\<lparr>ob_slab := x\<rparr>)"
  "caches (took c x p s) = (caches s)(c := (caches s c)\<lparr>num_allocated := num_allocated (caches s c) + 1\<rparr>)"
  by (simp_all add: took_def upd_cache_def upd_slab_def upd_obj_def field_upd(1) [where f = "\<lambda>n. n - 1"] field_upd(2) [where g = "\<lambda>n. n + 1"])

lemma head_of_allocated [simp]: "head_of l (k\<lparr>num_allocated := n\<rparr>) = head_of l k"
  by (cases l) simp_all

lemma chain_slots:
  assumes "slab_ok c z b s x fr"
  shows "distinct fr" "length fr \<le> slab_objs z b" "fr \<noteq> [] \<Longrightarrow> sl_free_list (slabs s x) = hd fr" "0 \<notin> set fr"
    "sl_free_list (slabs s x) = 0 \<longleftrightarrow> fr = []"
proof -
  have ch: "chain (\<lambda>p. ob_next (objs s p)) (sl_free_list (slabs s x)) fr" using assms unfolding slab_ok_def by blast
  show d: "distinct fr" by (rule chain_distinct [OF ch])
  have "length fr = card (set fr)" using d by (simp add: distinct_card)
  also have "\<dots> \<le> card (slots z b x)" using assms unfolding slab_ok_def slots_def by (intro card_mono) auto
  also have "\<dots> \<le> slab_objs z b" unfolding slots_def using card_image_le [of "{..< slab_objs z b}" "slot x z"] by simp
  finally show "length fr \<le> slab_objs z b" .
  show "fr \<noteq> [] \<Longrightarrow> sl_free_list (slabs s x) = hd fr" "sl_free_list (slabs s x) = 0 \<longleftrightarrow> fr = []"
    using ch by (cases fr; auto)+
  show "0 \<notin> set fr" by (rule chain_not_null [OF ch])
qed

lemma took_slab:
  assumes s: "slab_ok c z b s x (p # fr)"
  shows "slab_ok c z b (took c x p s) x fr"
proof -
  have ch: "chain (\<lambda>p. ob_next (objs s p)) (ob_next (objs s p)) fr" and n: "unat (num_free (slabs s x)) = Suc (length fr)"
    using s by (simp_all add: slab_ok_def)
  have "chain (\<lambda>q. ob_next (objs (took c x p s) q)) (ob_next (objs s p)) fr = chain (\<lambda>q. ob_next (objs s q)) (ob_next (objs s p)) fr"
    by (rule chain_cong) (simp add: took_simps)
  moreover have "unat (num_free (slabs s x) - 1) = length fr"
    using n unat_minus_one [of "num_free (slabs s x)"] by (cases "num_free (slabs s x) = 0") simp_all
  moreover have "ob_slab (objs (took c x p s) q) = x" if "q \<in> slots z b x - set fr" for q
    using s that by (auto simp: took_simps slab_ok_def)
  ultimately show ?thesis using s ch by (simp add: slab_ok_def took_simps(1))
qed

lemma took_other:
  assumes "slab_ok c z b s y fr" and "y \<noteq> x" and "p \<notin> slots z b y"
  shows "slab_ok c z b (took c x p s) y fr"
proof -
  have "chain (\<lambda>q. ob_next (objs (took c x p s) q)) (sl_free_list (slabs s y)) fr = chain (\<lambda>q. ob_next (objs s q)) (sl_free_list (slabs s y)) fr"
    by (rule chain_cong) (simp add: took_simps)
  moreover have "q \<in> slots z b y \<Longrightarrow> q \<noteq> p" for q using assms(3) by blast
  ultimately show ?thesis using assms by (simp add: slab_ok_def took_simps(1)) (simp add: took_simps(2))
qed

lemma took_lists: "cache_lists c (took c x p s) L = cache_lists c s L"
proof -
  have "dll (slabs (took c x p s)) 0 q xs = dll (slabs s) 0 q xs" for q xs
    by (rule dll_cong) (simp add: took_simps)
  then show ?thesis by (simp add: cache_lists_def took_simps(3))
qed

lemma took_pre:
  assumes s: "cache_ok c z b s L F" and A: "slots_apart z b (all_slabs L)" and x: "x \<in> set (L l)" "F x = p # fr"
  shows "cache_pre c z b (took c x p s) L (F(x := fr)) x l" "p \<notin> live_slots z b L F"
    "live_slots z b L (F(x := fr)) = insert p (live_slots z b L F)"
proof -
  have xA: "x \<in> all_slabs L" using x(1) by (auto simp: all_slabs_def)
  have ok: "slab_ok c z b s y (F y)" if "y \<in> all_slabs L" for y using s that unfolding cache_ok_def by blast
  have p: "p \<in> slots z b x" using ok [OF xA] x(2) by (simp add: slab_ok_def)
  note live = live_take [where F = F, OF A xA x(2) chain_slots(1) [OF ok [OF xA]] p]
  show "p \<notin> live_slots z b L F" "live_slots z b L (F(x := fr)) = insert p (live_slots z b L F)" by (rule live)+
  have "slab_ok c z b (took c x p s) y ((F(x := fr)) y)" if y: "y \<in> all_slabs L" for y
  proof (cases "y = x")
    case True
    then show ?thesis using took_slab [of c z b s x p fr] ok [OF xA] x(2) by simp
  next
    case False
    then have "p \<notin> slots z b y" using A xA y p unfolding slots_apart_def by blast
    then show ?thesis using took_other [OF ok [OF y] False] False by simp
  qed
  moreover have "num_allocated (caches s c) + 1 = of_nat (card (live_slots z b L (F(x := fr))))"
    using s live finite_live [of z b L F] by (simp add: cache_ok_def)
  ultimately show "cache_pre c z b (took c x p s) L (F(x := fr)) x l"
    using s x(1) by (simp add: cache_pre_def cache_ok_def took_lists took_simps(3) valid_cache_def)
qed

text \<open>The updates of \<^verbatim>\<open>kmem_cache_free\<close> before the relinking.\<close>

definition gave :: "addr \<Rightarrow> addr \<Rightarrow> addr \<Rightarrow> 'z slab_st_scheme \<Rightarrow> 'z slab_st_scheme" where
  "gave c x p s =
     upd_cache c (num_allocated_update (\<lambda>n. n - 1)) (upd_slab x (num_free_update (\<lambda>n. n + 1))
       (upd_slab x (sl_free_list_update (\<lambda>_. p)) (upd_obj p (ob_next_update (\<lambda>_. sl_free_list (slabs s x))) s)))"

lemma gave_simps:
  "slabs (gave c x p s) = (slabs s)(x := (slabs s x)\<lparr>sl_free_list := p, num_free := num_free (slabs s x) + 1\<rparr>)"
  "objs (gave c x p s) = (objs s)(p := (objs s p)\<lparr>ob_next := sl_free_list (slabs s x)\<rparr>)"
  "caches (gave c x p s) = (caches s)(c := (caches s c)\<lparr>num_allocated := num_allocated (caches s c) - 1\<rparr>)"
  by (simp_all add: gave_def upd_cache_def upd_slab_def upd_obj_def field_upd(1) [where f = "\<lambda>n. n + 1"] field_upd(2) [where g = "\<lambda>n. n - 1"])

lemma live_give:
  assumes "slots_apart z b (all_slabs L)" and "x \<in> all_slabs L" and "p \<in> slots z b x - set (F x)"
  shows "live_slots z b L (F(x := p # F x)) = live_slots z b L F - {p}" "p \<in> live_slots z b L F"
proof -
  have o: "p \<notin> slots z b y" if "y \<in> all_slabs L" "y \<noteq> x" for y
    using assms that unfolding slots_apart_def by blast
  show "p \<in> live_slots z b L F" using assms(2,3) unfolding live_slots_def by blast
  have "q \<in> live_slots z b L (F(x := p # F x)) \<longleftrightarrow> q \<in> live_slots z b L F - {p}" for q
    using assms(2,3) o unfolding live_slots_def by (auto split: if_splits) (metis)
  then show "live_slots z b L (F(x := p # F x)) = live_slots z b L F - {p}" by blast
qed

lemma gave_slab:
  assumes s: "slab_ok c z b s x fr" and b: "b \<in> slab_sizes" and p: "p \<in> slots z b x - set fr" "p \<noteq> 0"
  shows "slab_ok c z b (gave c x p s) x (p # fr)" "length fr < slab_objs z b"
proof -
  have ch: "chain (\<lambda>p. ob_next (objs s p)) (sl_free_list (slabs s x)) fr" and n: "unat (num_free (slabs s x)) = length fr"
    using s by (simp_all add: slab_ok_def)
  have "Suc (length fr) = card (insert p (set fr))" using p(1) chain_slots(1) [OF s] by (simp add: distinct_card)
  also have "\<dots> \<le> card (slots z b x)" using s p(1) unfolding slab_ok_def slots_def by (intro card_mono) auto
  also have "\<dots> \<le> slab_objs z b" unfolding slots_def using card_image_le [of "{..< slab_objs z b}" "slot x z"] by simp
  finally show lt: "length fr < slab_objs z b" by simp
  have "chain (\<lambda>q. ob_next (objs (gave c x p s) q)) (sl_free_list (slabs s x)) fr =
      chain (\<lambda>q. ob_next (objs s q)) (sl_free_list (slabs s x)) fr"
    using p(1) by (intro chain_cong) (auto simp: gave_simps)
  moreover have "unat (num_free (slabs s x) + 1) = Suc (length fr)"
    using n lt slab_objs_le [OF b, of z] by (simp add: unat_plus_if')
  moreover have "ob_slab (objs (gave c x p s) q) = x" if "q \<in> slots z b x - set (p # fr)" for q
    using s that by (auto simp: gave_simps slab_ok_def)
  moreover have "ob_next (objs (gave c x p s) p) = sl_free_list (slabs s x)" by (simp add: gave_simps)
  ultimately show "slab_ok c z b (gave c x p s) x (p # fr)" using s ch p by (simp add: slab_ok_def gave_simps(1))
qed

lemma gave_other:
  assumes "slab_ok c z b s y fr" and "y \<noteq> x" and "p \<notin> slots z b y"
  shows "slab_ok c z b (gave c x p s) y fr"
proof -
  have "set fr \<subseteq> slots z b y" using assms(1) by (simp add: slab_ok_def)
  then have "chain (\<lambda>q. ob_next (objs (gave c x p s) q)) (sl_free_list (slabs s y)) fr =
      chain (\<lambda>q. ob_next (objs s q)) (sl_free_list (slabs s y)) fr"
    using assms(3) by (intro chain_cong) (auto simp: gave_simps)
  moreover have "ob_slab (objs (gave c x p s) q) = ob_slab (objs s q)" for q by (simp add: gave_simps)
  ultimately show ?thesis using assms by (simp add: slab_ok_def gave_simps(1))
qed

lemma gave_lists: "cache_lists c (gave c x p s) L = cache_lists c s L"
proof -
  have "dll (slabs (gave c x p s)) 0 q xs = dll (slabs s) 0 q xs" for q xs
    by (rule dll_cong) (simp add: gave_simps)
  then show ?thesis by (simp add: cache_lists_def gave_simps(3))
qed

lemma gave_pre:
  assumes s: "cache_ok c z b s L F" and A: "slots_apart z b (all_slabs L)" and b: "b \<in> slab_sizes"
    and x: "x \<in> set (L l)" and p: "p \<in> slots z b x - set (F x)" "p \<noteq> 0"
  shows "cache_pre c z b (gave c x p s) L (F(x := p # F x)) x l"
    "live_slots z b L (F(x := p # F x)) = live_slots z b L F - {p}"
proof -
  have xA: "x \<in> all_slabs L" using x(1) by (auto simp: all_slabs_def)
  have ok: "slab_ok c z b s y (F y)" if "y \<in> all_slabs L" for y using s that unfolding cache_ok_def by blast
  note live = live_give [where F = F, OF A xA p(1)]
  show "live_slots z b L (F(x := p # F x)) = live_slots z b L F - {p}" by (rule live)
  have "slab_ok c z b (gave c x p s) y ((F(x := p # F x)) y)" if y: "y \<in> all_slabs L" for y
  proof (cases "y = x")
    case True
    then show ?thesis using gave_slab(1) [OF ok [OF xA] b p] by simp
  next
    case False
    then have "p \<notin> slots z b y" using A xA y p(1) unfolding slots_apart_def by blast
    then show ?thesis using gave_other [OF ok [OF y] False] False by simp
  qed
  moreover have "card (live_slots z b L F) = Suc (card (live_slots z b L (F(x := p # F x))))"
    unfolding live(1) using live(2) finite_live [of z b L F] by (metis card_Suc_Diff1)
  then have "num_allocated (caches s c) - 1 = of_nat (card (live_slots z b L (F(x := p # F x))))"
    using s by (simp add: cache_ok_def)
  ultimately show "cache_pre c z b (gave c x p s) L (F(x := p # F x)) x l"
    using s x(1) by (simp add: cache_pre_def cache_ok_def gave_lists gave_simps(3) valid_cache_def)
qed

section \<open>Layout\<close>

definition cell_bytes :: "addr \<Rightarrow> addr \<Rightarrow> addr set" where
  "cell_bytes z p = {a. unat (a - p) < unat z + 16}"

lemma cell_offset:
  assumes "b \<in> slab_sizes" and "size_ok z" and "i < slab_objs z b" and "a \<in> cell_bytes z (slot x z i)"
  shows "unat (a - x) = 48 + i * (unat z + 16) + unat (a - slot x z i)" "unat (a - x) < nat b * 4096"
proof -
  note o = slot_offset [OF assms(1-3)]
  have a: "unat (a - slot x z i) < unat z + 16" using assms(4) by (simp add: cell_bytes_def)
  have "nat b * 4096 \<le> 65536" using slab_sizes_order(2) [OF assms(1)] by simp
  moreover have le: "48 + i * (unat z + 16) + unat (a - slot x z i) < nat b * 4096" using o(2) a by linarith
  ultimately have "unat (slot x z i - x) + unat (a - slot x z i) < 2 ^ 64" using o(1) by simp
  moreover have "unat (u + v) = unat u + unat v" if "unat u + unat v < 2 ^ 64" for u v :: addr
    using that by (simp add: unat_plus_if')
  ultimately have "unat ((slot x z i - x) + (a - slot x z i)) = unat (slot x z i - x) + unat (a - slot x z i)"
    by blast
  then show eq: "unat (a - x) = 48 + i * (unat z + 16) + unat (a - slot x z i)" using o(1) by simp
  show "unat (a - x) < nat b * 4096" unfolding eq by (rule le)
qed

lemma cells_same_slab:
  assumes "b \<in> slab_sizes" and "size_ok z" and "i < slab_objs z b" and "j < slab_objs z b"
    and "a \<in> cell_bytes z (slot x z i)" and "a \<in> cell_bytes z (slot x z j)"
  shows "i = j"
proof -
  have "unat (a - slot x z i) < unat z + 16" "unat (a - slot x z j) < unat z + 16"
    using assms(5,6) by (simp_all add: cell_bytes_def)
  moreover have "i * (unat z + 16) + unat (a - slot x z i) = j * (unat z + 16) + unat (a - slot x z j)"
    using cell_offset(1) [OF assms(1-3,5)] cell_offset(1) [OF assms(1,2,4,6)] by linarith
  ultimately have "i = (j * (unat z + 16) + unat (a - slot x z j)) div (unat z + 16)"
    by (metis add.commute add_gr_0 div_less div_mult_self1 add.right_neutral less_nat_zero_code neq0_conv)
  then show ?thesis using \<open>unat (a - slot x z j) < unat z + 16\<close> by simp
qed

lemma run_bytes:
  assumes "b \<in> slab_sizes" and "unat (a - blk base i) < nat b * 4096"
  shows "a \<in> block_bytes base (cells (order_of b) i)"
proof -
  let ?u = "unat (a - blk base i)" and ?k = "unat (a - blk base i) div 4096"
  have nb: "nat b = 2 ^ order_of b" using slab_sizes_order(3) [OF assms(1)] by (metis nat_int)
  have "?k < nat b" using assms(2) by (simp add: less_mult_imp_div_less)
  then have "?k < 2 ^ order_of b" unfolding nb .
  then have j: "i + ?k \<in> cells (order_of b) i" by (simp add: cells_def)
  have "a - blk base (i + ?k) = (a - blk base i) - of_nat (?k * 4096)"
    by (simp add: blk_def algebra_simps)
  also have "\<dots> = of_nat ?u - of_nat (?k * 4096)" by simp
  also have "\<dots> = of_nat (?u - ?k * 4096)" by (rule of_nat_diff [symmetric]) simp
  also have "?u - ?k * 4096 = ?u mod 4096" by (simp add: minus_div_mult_eq_mod)
  finally have "a \<in> page_bytes (blk base (i + ?k))"
    by (simp add: page_bytes_def PGSIZE_def word_less_nat_alt unat_of_nat)
  then show ?thesis using j unfolding block_bytes_def by blast
qed

lemma buddy_state_same:
  assumes "buddy_state base K s M" and "max_order t = max_order s" "free_list t = free_list s"
    "memory_start t = memory_start s" "mem t = mem s" "total_blocks t = total_blocks s" "free_blocks t = free_blocks s"
    and "L_buddy \<notin> held t"
  shows "buddy_state base K t M"
  using assms buddy_ok_cong [of base K s M t] unfolding buddy_state_def by simp

lemma buddy_live_same:
  assumes s: "buddy_allocator.live_ok base K s live" and e: "max_order t = max_order s" "free_list t = free_list s"
    "memory_start t = memory_start s" "mem t = mem s" "total_blocks t = total_blocks s" "free_blocks t = free_blocks s"
    "L_buddy \<notin> held t"
  shows "buddy_allocator.live_ok base K t live"
proof -
  obtain M where M: "buddy_state base K s M" using s unfolding buddy_allocator.live_ok_def buddy_inv_def by blast
  have N: "buddy_state base K t M" by (rule buddy_state_same [OF M e])
  show ?thesis
    using s unfolding buddy_allocator.live_ok_def buddy_cells_eq [OF M] buddy_cells_eq [OF N]
    using buddy_state_inv [OF N] by blast
qed

lemma buddy_live_run:
  assumes s: "buddy_allocator.live_ok base K s live" and h: "(x, b) \<in> set live"
  obtains i where "x = blk base i" "chunk_ok K (order_of b) i" "run_cells base (x, b) = cells (order_of b) i" "x \<noteq> 0"
proof -
  obtain M where M: "buddy_state base K s M" using s unfolding buddy_allocator.live_ok_def buddy_inv_def by blast
  have "run_ok base K (x, b)" using s h unfolding buddy_allocator.live_ok_def by blast
  then obtain i where i: "x = blk base i" "chunk_ok K (order_of b) i" unfolding run_ok_def by auto
  have "region base K" using M by (simp add: buddy_state_def buddy_ok_def)
  then have "x \<noteq> 0" unfolding i(1) using chunk_less [OF i(2)] by (rule blk_ok(1))
  then show thesis using that i run_cells_blk [OF M i(2)] by simp
qed

lemma apart_neq:
  assumes "apart ext live" and "g \<in> set live" and "h \<in> set live" and "g \<noteq> h"
  shows "ext g \<inter> ext h = {}"
proof -
  obtain i j where ij: "i < length live" "j < length live" "live ! i = g" "live ! j = h" "i \<noteq> j"
    using assms(2-4) by (metis in_set_conv_nth)
  then consider "i < j" | "j < i" by linarith
  then show ?thesis
    using assms(1) ij unfolding apart_def sorted_wrt_iff_nth_less by cases blast+
qed

lemma runs_bytes_apart:
  assumes s: "buddy_allocator.live_ok base K s live" and "(x, b) \<in> set live" "(y, b') \<in> set live" "(x, b) \<noteq> (y, b')"
  shows "block_bytes base (run_cells base (x, b)) \<inter> block_bytes base (run_cells base (y, b')) = {}"
proof -
  obtain M where M: "buddy_state base K s M" using s unfolding buddy_allocator.live_ok_def buddy_inv_def by blast
  then have R: "region base K" by (simp add: buddy_state_def buddy_ok_def)
  obtain i where i: "chunk_ok K (order_of b) i" "run_cells base (x, b) = cells (order_of b) i"
    by (rule buddy_live_run [OF s assms(2)])
  obtain j where j: "chunk_ok K (order_of b') j" "run_cells base (y, b') = cells (order_of b') j"
    by (rule buddy_live_run [OF s assms(3)])
  have "run_cells base (x, b) \<inter> run_cells base (y, b') = {}"
    using s unfolding buddy_allocator.live_ok_def by (intro apart_neq [OF _ assms(2-4)]) blast
  moreover have "run_cells base (x, b) \<subseteq> {..< 2 ^ K}" "run_cells base (y, b') \<subseteq> {..< 2 ^ K}"
    using i j by (auto simp: cells_def chunk_ok_def)
  ultimately show ?thesis using block_bytes_disjoint [OF R] by blast
qed

section \<open>The invariant of a cache\<close>

definition held_runs :: "addr \<Rightarrow> int \<Rightarrow> addr list \<Rightarrow> (addr \<times> int) list" where
  "held_runs c b xs = map (\<lambda>x. (x, b)) xs @ [(c, 1)]"

text \<open>
  The cache \<open>c\<close> of objects of \<open>z\<close> bytes in slabs of \<open>b\<close> blocks: the slabs \<open>xs\<close> and the block of the cache itself
  are runs the cache holds from the buddy allocator.
\<close>

definition slab_inv ::
  "addr \<Rightarrow> nat \<Rightarrow> addr \<Rightarrow> addr \<Rightarrow> int \<Rightarrow> 'z slab_st_scheme \<Rightarrow> slists \<Rightarrow> (addr \<Rightarrow> addr list) \<Rightarrow> addr list \<Rightarrow> bool"
where
  "slab_inv base K c z b s L F xs \<longleftrightarrow>
     b \<in> slab_sizes \<and> size_ok z \<and> 0 < slab_objs z b \<and> cache_ok c z b s L F \<and> set xs = all_slabs L \<and>
     buddy_allocator.live_ok base K s (held_runs c b xs)"

lemma slab_invD:
  assumes "slab_inv base K c z b s L F xs"
  shows "b \<in> slab_sizes" "size_ok z" "0 < slab_objs z b" "cache_ok c z b s L F" "set xs = all_slabs L"
    "buddy_allocator.live_ok base K s (held_runs c b xs)" "cache_lists c s L" "valid_cache c s"
    "x \<in> all_slabs L \<Longrightarrow> slab_ok c z b s x (F x)"
    "x \<in> set (L l) \<Longrightarrow> l = place (slab_objs z b) (length (F x))"
  using assms unfolding slab_inv_def cache_ok_def by blast+

lemma run_slot_bytes:
  assumes s: "buddy_allocator.live_ok base K s live" and x: "(x, b) \<in> set live" and z: "b \<in> slab_sizes" "size_ok z"
    and p: "p \<in> slots z b x" and a: "a \<in> cell_bytes z p"
  shows "a \<in> block_bytes base (run_cells base (x, b))"
proof -
  obtain i where i: "x = blk base i" "run_cells base (x, b) = cells (order_of b) i"
    using buddy_live_run [OF s x] by metis
  obtain j where j: "p = slot x z j" "j < slab_objs z b" using p unfolding slots_def by blast
  have "unat (a - x) < nat b * 4096" using cell_offset(2) [OF z j(2)] a j(1) by blast
  then show ?thesis unfolding i(2) using run_bytes [OF z(1)] i(1) by blast
qed

lemma slab_inv_run:
  assumes "slab_inv base K c z b s L F xs" and "x \<in> all_slabs L"
  shows "(x, b) \<in> set (held_runs c b xs)"
  using assms slab_invD(5) [OF assms(1)] by (simp add: held_runs_def)

lemma slab_inv_bytes:
  assumes s: "slab_inv base K c z b s L F xs" and x: "x \<in> all_slabs L" and p: "p \<in> slots z b x" and a: "a \<in> cell_bytes z p"
  shows "a \<in> block_bytes base (run_cells base (x, b))"
  by (rule run_slot_bytes [OF slab_invD(6) [OF s] slab_inv_run [OF s x] slab_invD(1,2) [OF s] p a])

lemma slot_cell: "p \<in> cell_bytes z p"
  by (simp add: cell_bytes_def)

lemma slab_inv_cells:
  assumes s: "slab_inv base K c z b s L F xs" and x: "x \<in> all_slabs L" "p \<in> slots z b x"
    and y: "y \<in> all_slabs L" "q \<in> slots z b y" and pq: "p \<noteq> q"
  shows "cell_bytes z p \<inter> cell_bytes z q = {}"
proof (cases "x = y")
  case True
  note S = slab_invD [OF s]
  obtain i j where ij: "p = slot x z i" "i < slab_objs z b" "q = slot x z j" "j < slab_objs z b"
    using x(2) y(2) True unfolding slots_def by blast
  show ?thesis using cells_same_slab [OF S(1,2) ij(2,4)] ij(1,3) pq by blast
next
  case False
  note S = slab_invD [OF s]
  have "block_bytes base (run_cells base (x, b)) \<inter> block_bytes base (run_cells base (y, b)) = {}"
    by (rule runs_bytes_apart [OF S(6)]) (use x(1) y(1) S(5) False in \<open>simp_all add: held_runs_def\<close>)
  then show ?thesis using slab_inv_bytes [OF s x] slab_inv_bytes [OF s y] by blast
qed

lemma slab_inv_apart:
  assumes s: "slab_inv base K c z b s L F xs"
  shows "slots_apart z b (all_slabs L)"
  unfolding slots_apart_def
proof (intro ballI impI)
  fix x y assume xy: "x \<in> all_slabs L" "y \<in> all_slabs L" "x \<noteq> y"
  note S = slab_invD [OF s]
  have "block_bytes base (run_cells base (x, b)) \<inter> block_bytes base (run_cells base (y, b)) = {}"
    by (rule runs_bytes_apart [OF S(6)]) (use xy S(5) in \<open>simp_all add: held_runs_def\<close>)
  then show "slots z b x \<inter> slots z b y = {}"
    using slab_inv_bytes [OF s xy(1) _ slot_cell] slab_inv_bytes [OF s xy(2) _ slot_cell] by blast
qed

lemma slab_inv_same:
  assumes s: "slab_inv base K c z b s L F xs" and c: "cache_ok c z b t M G" "all_slabs M = all_slabs L"
    and e: "max_order t = max_order s" "free_list t = free_list s"
    "memory_start t = memory_start s" "mem t = mem s" "total_blocks t = total_blocks s" "free_blocks t = free_blocks s"
    "L_buddy \<notin> held t"
  shows "slab_inv base K c z b t M G xs"
  using s c buddy_live_same [OF slab_invD(6) [OF s] e] unfolding slab_inv_def by blast

lemma cache_ok_held: "cache_ok c z b (s\<lparr>held := H\<rparr>) L F = cache_ok c z b s L F"
  by (simp add: cache_ok_def slab_ok_def cache_lists_def valid_cache_def)

lemma slab_inv_held:
  assumes "slab_inv base K c z b s L F xs" and "L_buddy \<notin> H"
  shows "slab_inv base K c z b (s\<lparr>held := H\<rparr>) L F xs"
  by (rule slab_inv_same [OF assms(1)]) (use slab_invD(4) [OF assms(1)] assms(2) in \<open>simp_all add: cache_ok_held\<close>)

lemma slab_inv_buddy: "slab_inv base K c z b s L F xs \<Longrightarrow> L_buddy \<notin> held s"
  unfolding slab_inv_def buddy_allocator.live_ok_def buddy_inv_def buddy_state_def by blast

section \<open>Allocation from a slab\<close>

definition alloc_relink :: "addr \<Rightarrow> addr \<Rightarrow> 'z slab_st_scheme \<Rightarrow> 'z slab_st_scheme" where
  "alloc_relink c x s =
     (let s = relink SLAB_EMPTY SLAB_PARTIAL (num_free (slabs s x) = num_objects_max (slabs s x) - 1) c x s
      in relink SLAB_PARTIAL SLAB_FULL (num_free (slabs s x) = 0) c x s)"

definition free_relink :: "addr \<Rightarrow> addr \<Rightarrow> 'z slab_st_scheme \<Rightarrow> 'z slab_st_scheme" where
  "free_relink c x s =
     (let s = relink SLAB_FULL SLAB_PARTIAL (num_free (slabs s x) = 1) c x s
      in relink SLAB_PARTIAL SLAB_EMPTY (num_free (slabs s x) = num_objects_max (slabs s x)) c x s)"

lemma kmem_cache_alloc_eq:
  "kmem_cache_alloc c s =
     (if \<not> valid_cache c s then Inr (0, s)
      else
        bindR (acquire (L_cache c) s) (\<lambda>s.
        bindR (pick_slab c s) (\<lambda>(pick, s).
        case pick of
          None \<Rightarrow> bindR (release (L_cache c) s) (\<lambda>s. Inr (0, s))
        | Some x \<Rightarrow>
            if x = 0 \<or> sl_free_list (slabs s x) = 0
            then bindR (release (L_cache c) (upd_cache c (error_state_update (\<lambda>_. 1)) s)) (\<lambda>s. Inr (0, s))
            else bindR (release (L_cache c) (alloc_relink c x (took c x (sl_free_list (slabs s x)) s)))
              (\<lambda>t. Inr (sl_free_list (slabs s x) + sizeof_kmem_object, t)))))"
  unfolding kmem_cache_alloc_def alloc_relink_def relink_def took_def Let_def ..

lemma kmem_cache_free_eq:
  "kmem_cache_free c objp s =
     (if objp = 0 \<or> \<not> valid_cache c s then Inr s
      else
        bindR (acquire (L_cache c) s) (\<lambda>s.
        let p = objp - sizeof_kmem_object; x = ob_slab (objs s p) in
        if x = 0 then release (L_cache c) (upd_cache c (error_state_update (\<lambda>_. 1)) s)
        else release (L_cache c) (free_relink c x (gave c x p s))))"
  unfolding kmem_cache_free_def free_relink_def relink_def gave_def Let_def ..

lemma relinked_rest:
  assumes "relinked c s t"
  shows "max_order t = max_order s" "free_list t = free_list s" "memory_start t = memory_start s" "mem t = mem s"
    "total_blocks t = total_blocks s" "free_blocks t = free_blocks s" "held t = held s"
  using assms unfolding relinked_def by auto

lemma took_rest [simp]:
  "max_order (took c x p s) = max_order s" "free_list (took c x p s) = free_list s"
  "memory_start (took c x p s) = memory_start s" "mem (took c x p s) = mem s"
  "total_blocks (took c x p s) = total_blocks s" "free_blocks (took c x p s) = free_blocks s" "held (took c x p s) = held s"
  by (simp_all add: took_def upd_cache_def upd_slab_def upd_obj_def)

lemma gave_rest [simp]:
  "max_order (gave c x p s) = max_order s" "free_list (gave c x p s) = free_list s"
  "memory_start (gave c x p s) = memory_start s" "mem (gave c x p s) = mem s"
  "total_blocks (gave c x p s) = total_blocks s" "free_blocks (gave c x p s) = free_blocks s" "held (gave c x p s) = held s"
  by (simp_all add: gave_def upd_cache_def upd_slab_def upd_obj_def)

lemma relink_fields:
  assumes "cache_lists c s L" and "x \<in> set (L k)" and "m \<Longrightarrow> k = l" and "l' \<noteq> l"
  shows "num_free (slabs (relink l l' m c x s) x) = num_free (slabs s x)"
    "num_objects_max (slabs (relink l l' m c x s) x) = num_objects_max (slabs s x)"
proof -
  have "relinked c s (relink l l' m c x s)" using relink_goes [OF assms] by blast
  from slab_core_fields [OF relinkedD(2) [OF this]]
  show "num_free (slabs (relink l l' m c x s) x) = num_free (slabs s x)"
    "num_objects_max (slabs (relink l l' m c x s) x) = num_objects_max (slabs s x)" by blast+
qed

lemma counts:
  assumes "slab_ok c z b s x fr" and "0 < slab_objs z b" and "b \<in> slab_sizes"
  shows "num_free (slabs s x) = num_objects_max (slabs s x) - 1 \<longleftrightarrow> Suc (length fr) = slab_objs z b"
    "num_free (slabs s x) = 0 \<longleftrightarrow> fr = []" "num_free (slabs s x) = 1 \<longleftrightarrow> length fr = 1"
    "num_free (slabs s x) = num_objects_max (slabs s x) \<longleftrightarrow> length fr = slab_objs z b"
proof -
  let ?f = "num_free (slabs s x)" and ?m = "num_objects_max (slabs s x)"
  have u: "unat ?f = length fr" "unat ?m = slab_objs z b" using assms(1) by (simp_all add: slab_ok_def)
  have "?m \<noteq> 0" using u(2) assms(2) by (metis neq0_conv unat_0)
  then have "unat (?m - 1) = slab_objs z b - 1" using unat_minus_one [of ?m] u(2) by simp
  then show "?f = ?m - 1 \<longleftrightarrow> Suc (length fr) = slab_objs z b"
    unfolding word_unat_eq_iff using u(1) assms(2) by auto
  show "?f = 0 \<longleftrightarrow> fr = []" "?f = 1 \<longleftrightarrow> length fr = 1" "?f = ?m \<longleftrightarrow> length fr = slab_objs z b"
    unfolding word_unat_eq_iff by (simp_all add: u)
qed

lemma alloc_from:
  assumes s: "slab_inv base K c z b s L F xs" and x: "x \<in> set (L l)" "F x = p # fr"
  defines "t \<equiv> alloc_relink c x (took c x p s)"
  shows "\<exists>M. slab_inv base K c z b t M (F(x := fr)) xs \<and> all_slabs M = all_slabs L \<and> held t = held s \<and>
    live_slots z b M (F(x := fr)) = insert p (live_slots z b L F) \<and> p \<notin> live_slots z b L F"
proof -
  note S = slab_invD [OF s]
  let ?u = "took c x p s" and ?n = "slab_objs z b" and ?G = "F(x := fr)"
  note P = took_pre [OF S(4) slab_inv_apart [OF s] x]
  have xA: "x \<in> all_slabs L" using x(1) by (auto simp: all_slabs_def)
  have u: "cache_lists c ?u L" "slab_ok c z b ?u x fr"
    using P(1) xA unfolding cache_pre_def by auto
  define m where "m \<longleftrightarrow> num_free (slabs ?u x) = num_objects_max (slabs ?u x) - 1"
  define m' where "m' \<longleftrightarrow> num_free (slabs ?u x) = 0"
  have m: "m \<longleftrightarrow> Suc (length fr) = ?n" "m' \<longleftrightarrow> fr = []"
    unfolding m_def m'_def using counts [OF u(2) S(3,1)] by blast+
  have "slab_ok c z b s x (p # fr)" using S(9) [OF xA] x(2) by simp
  then have le: "Suc (length fr) \<le> ?n" using chain_slots(2) by fastforce
  have l: "l = (if m then SLAB_EMPTY else SLAB_PARTIAL)" using S(10) [OF x(1)] x(2) m(1) by (simp add: place_def)
  have "num_free (slabs (relink SLAB_EMPTY SLAB_PARTIAL m c x ?u) x) = num_free (slabs ?u x)"
    by (rule relink_fields(1) [OF u(1) x(1)]) (simp_all add: l)
  then have t: "t = relink SLAB_PARTIAL SLAB_FULL m' c x (relink SLAB_EMPTY SLAB_PARTIAL m c x ?u)"
    unfolding t_def alloc_relink_def Let_def m_def m'_def by simp
  have "\<exists>M. relinked c ?u t \<and> cache_ok c z b t M ?G \<and> all_slabs M = all_slabs L"
    unfolding t by (rule cache_pre_relink [OF P(1)]) (use l m le in \<open>auto simp: place_def\<close>)
  then obtain M where M: "relinked c ?u t" "cache_ok c z b t M ?G" "all_slabs M = all_slabs L" by blast
  note R = relinked_rest [OF M(1), unfolded took_rest]
  have "slab_inv base K c z b t M ?G xs"
    by (rule slab_inv_same [OF s M(2,3) R(1-6)]) (use slab_inv_buddy [OF s] R(7) in simp)
  moreover have "live_slots z b M ?G = live_slots z b L ?G" by (simp add: live_slots_def M(3))
  ultimately show ?thesis using M(3) R(7) P(2,3) by metis
qed

lemma free_to:
  assumes s: "slab_inv base K c z b s L F xs" and x: "x \<in> set (L l)" and p: "p \<in> slots z b x - set (F x)" "p \<noteq> 0"
  defines "t \<equiv> free_relink c x (gave c x p s)"
  shows "\<exists>M. slab_inv base K c z b t M (F(x := p # F x)) xs \<and> all_slabs M = all_slabs L \<and> held t = held s \<and>
    live_slots z b M (F(x := p # F x)) = live_slots z b L F - {p}"
proof -
  note S = slab_invD [OF s]
  let ?u = "gave c x p s" and ?n = "slab_objs z b" and ?G = "F(x := p # F x)"
  note P = gave_pre [OF S(4) slab_inv_apart [OF s] S(1) x p]
  have xA: "x \<in> all_slabs L" using x by (auto simp: all_slabs_def)
  have u: "cache_lists c ?u L" "slab_ok c z b ?u x (p # F x)"
    using P(1) xA unfolding cache_pre_def by auto
  define m where "m \<longleftrightarrow> num_free (slabs ?u x) = 1"
  define m' where "m' \<longleftrightarrow> num_free (slabs ?u x) = num_objects_max (slabs ?u x)"
  have m: "m \<longleftrightarrow> F x = []" "m' \<longleftrightarrow> Suc (length (F x)) = ?n"
    unfolding m_def m'_def using counts [OF u(2) S(3,1)] by simp_all
  have le: "length (F x) < ?n" by (rule gave_slab(2) [OF S(9) [OF xA] S(1) p])
  have l: "l = (if m then SLAB_FULL else SLAB_PARTIAL)" using S(10) [OF x] m(1) le by (simp add: place_def)
  have "num_free (slabs (relink SLAB_FULL SLAB_PARTIAL m c x ?u) x) = num_free (slabs ?u x)"
    "num_objects_max (slabs (relink SLAB_FULL SLAB_PARTIAL m c x ?u) x) = num_objects_max (slabs ?u x)"
    by (rule relink_fields [OF u(1) x]; simp add: l)+
  then have t: "t = relink SLAB_PARTIAL SLAB_EMPTY m' c x (relink SLAB_FULL SLAB_PARTIAL m c x ?u)"
    unfolding t_def free_relink_def Let_def m_def m'_def by simp
  have "\<exists>M. relinked c ?u t \<and> cache_ok c z b t M ?G \<and> all_slabs M = all_slabs L"
    unfolding t by (rule cache_pre_relink [OF P(1)]) (use l m le in \<open>auto simp: place_def\<close>)
  then obtain M where M: "relinked c ?u t" "cache_ok c z b t M ?G" "all_slabs M = all_slabs L" by blast
  note R = relinked_rest [OF M(1), unfolded gave_rest]
  have "slab_inv base K c z b t M ?G xs"
    by (rule slab_inv_same [OF s M(2,3) R(1-6)]) (use slab_inv_buddy [OF s] R(7) in simp)
  moreover have "live_slots z b M ?G = live_slots z b L ?G" by (simp add: live_slots_def M(3))
  ultimately show ?thesis using M(3) R(7) P(2) by metis
qed

section \<open>Growing a cache\<close>

lemma buddy_alloc_live:
  assumes s: "buddy_allocator.live_ok base K s live" and n: "1 \<le> n" "n \<le> 2 ^ 30"
  obtains "buddy_alloc n s = Inr (0, s)"
  | x t where "buddy_alloc n s = Inr (x, t)" "x \<noteq> 0" "buddy_allocator.live_ok base K t ((x, n) # live)"
      "held t = held s" "buddy_st.more t = buddy_st.more s"
proof -
  obtain M where M: "buddy_state base K s M" using s unfolding buddy_allocator.live_ok_def buddy_inv_def by blast
  show thesis
  proof (cases "\<exists>l \<ge> order_of n. M l \<noteq> []")
    case True
    then obtain l where l: "order_of n \<le> l" "M l \<noteq> []" by blast
    obtain i t where t: "buddy_alloc n s = Inr (blk base i, t)" "chunk_ok K (order_of n) i"
        "bframe base (free_cells (fsets M)) s t"
      using buddy_alloc_some [OF M n l] by blast
    have "region base K" using M by (simp add: buddy_state_def buddy_ok_def)
    then have nz: "blk base i \<noteq> 0" using chunk_less [OF t(2)] by (rule blk_ok(1))
    then have "buddy_alloc_opt n s = Inr (Some (blk base i, n), t)" using t(1) by (simp add: buddy_alloc_opt_def)
    from buddy_allocator.alloc_step [OF s n(2) this]
    have "buddy_allocator.live_ok base K t ((blk base i, n) # live)" by simp
    then show thesis using that(2) [OF t(1) nz] t(3) unfolding bframe_def by blast
  next
    case False
    then have "buddy_alloc n s = Inr (0, s)" using buddy_alloc_none [OF M n] by blast
    then show thesis by (rule that(1))
  qed
qed

lemma slab_more:
  assumes "buddy_st.more t = buddy_st.more s"
  shows "caches t = caches s" "slabs t = slabs s" "objs t = objs s" "cache_list t = cache_list s"
    "allocator_initialized t = allocator_initialized s" "buffer_caches t = buffer_caches s"
  using assms by (cases s; cases t; simp)+

lemma sint_of_small: "m < 2 ^ 31 \<Longrightarrow> sint (of_nat m :: uint32) = int m"
  using int_word_sint [of "int m", where 'a = 32] by (simp add: mod_pos_pos_trivial)

lemma carve_ok:
  assumes "aligned_size (caches s c) = z + 16" and "k \<le> slab_objs z b" and z: "b \<in> slab_sizes" "size_ok z"
    and "chain (\<lambda>p. ob_next (objs s p)) (sl_free_list (slabs s x)) fr"
    and "set fr \<inter> slot x z ` {..< k} = {}" and "0 \<notin> slot x z ` {..< k}"
  shows "\<exists>B h. carve k (x + 48) c x s = s\<lparr>objs := B, slabs := (slabs s)(x := (slabs s x)\<lparr>sl_free_list := h\<rparr>)\<rparr> \<and>
    chain (\<lambda>p. ob_next (B p)) h (map (slot x z) [0 ..< k] @ fr) \<and>
    (\<forall>p. p \<notin> slot x z ` {..< k} \<longrightarrow> B p = objs s p)"
  using assms(1,2,5-7)
proof (induction k arbitrary: s fr)
  case 0
  then show ?case by (intro exI [of _ "objs s"] exI [of _ "sl_free_list (slabs s x)"]) simp
next
  case (Suc k)
  let ?p = "slot x z k"
  let ?B = "(objs s)(?p := (objs s ?p)\<lparr>ob_next := sl_free_list (slabs s x)\<rparr>)"
  let ?s = "s\<lparr>objs := ?B, slabs := (slabs s)(x := (slabs s x)\<lparr>sl_free_list := ?p\<rparr>)\<rparr>"
  have p: "?p \<notin> set fr" "?p \<noteq> 0" using Suc.prems(4,5) by auto
  have "?p \<noteq> slot x z j" if "j < k" for j using slot_inj [OF z, of k j x] Suc.prems(2) that by simp
  then have fresh: "?p \<notin> slot x z ` {..< k}" by auto
  have "chain (\<lambda>q. ob_next (?B q)) (sl_free_list (slabs s x)) fr = chain (\<lambda>q. ob_next (objs s q)) (sl_free_list (slabs s x)) fr"
    using p(1) by (intro chain_cong) auto
  then have ch: "chain (\<lambda>q. ob_next (objs ?s q)) (sl_free_list (slabs ?s x)) (?p # fr)" using Suc.prems(3) p(2) by simp
  have d: "set (?p # fr) \<inter> slot x z ` {..< k} = {}" "0 \<notin> slot x z ` {..< k}"
    using Suc.prems(4,5) fresh by auto
  have a: "aligned_size (caches ?s c) = z + 16" "k \<le> slab_objs z b" using Suc.prems(1,2) by simp_all
  obtain B h where B: "carve k (x + 48) c x ?s = ?s\<lparr>objs := B, slabs := (slabs ?s)(x := (slabs ?s x)\<lparr>sl_free_list := h\<rparr>)\<rparr>"
      "chain (\<lambda>p. ob_next (B p)) h (map (slot x z) [0 ..< k] @ ?p # fr)" "\<forall>p. p \<notin> slot x z ` {..< k} \<longrightarrow> B p = objs ?s p"
    using Suc.IH [OF a ch d] by blast
  have step: "carve (Suc k) (x + 48) c x s = carve k (x + 48) c x ?s"
    using Suc.prems(1) by (simp add: Let_def upd_obj_def upd_slab_def slot_def)
  show ?case unfolding step
  proof (intro exI conjI)
    show "carve k (x + 48) c x ?s = s\<lparr>objs := B, slabs := (slabs s)(x := (slabs s x)\<lparr>sl_free_list := h\<rparr>)\<rparr>"
      using B(1) by simp
    show "chain (\<lambda>p. ob_next (B p)) h (map (slot x z) [0 ..< Suc k] @ fr)" using B(2) by simp
    show "\<forall>p. p \<notin> slot x z ` {..< Suc k} \<longrightarrow> B p = objs s p" using B(3) fresh by (auto simp: lessThan_Suc)
  qed
qed

lemma zero_not_block:
  assumes "region base K" and "C \<subseteq> {..< 2 ^ K}"
  shows "0 \<notin> block_bytes base C"
proof
  assume "0 \<in> block_bytes base C"
  then obtain i where i: "i \<in> C" "0 \<in> page_bytes (blk base i)" unfolding block_bytes_def by blast
  then have lt: "i < 2 ^ K" using assms(2) by blast
  note b = blk_ok [OF assms(1) lt]
  obtain a where a: "unat (blk base i) = 4096 * a" using b(2) by (rule alignedE)
  have "a = 0" using i(2) a unfolding page_bytes_iff [OF b(2)] by simp
  then show False using a b(1) by (simp add: unat_eq_0)
qed

text \<open>The slab \<^verbatim>\<open>kmem_slab_create\<close> makes of a run at \<open>x\<close>.\<close>

lemma kmem_slab_create_ok:
  assumes c: "aligned_size (caches s c) = z + sizeof_kmem_object" "object_size (caches s c) = z" "slab_size (caches s c) = b"
    and z: "b \<in> slab_sizes" "size_ok z" "0 < slab_objs z b"
    and a: "buddy_alloc b s = Inr (x, u)" "x \<noteq> 0" "buddy_st.more u = buddy_st.more s"
    and nz: "0 \<notin> slots z b x"
  shows "\<exists>B k. kmem_slab_create c s = Inr (x, u\<lparr>objs := B, slabs := (slabs u)(x := k)\<rparr>) \<and>
    slab_ok c z b (u\<lparr>objs := B, slabs := (slabs u)(x := k)\<rparr>) x (map (slot x z) [0 ..< slab_objs z b]) \<and>
    (\<forall>p. p \<notin> slots z b x \<longrightarrow> B p = objs s p)"
proof -
  let ?n = "slab_objs z b"
  define N :: uint32 where "N = ucast (OBJECTS_PER_SLAB z (word_of_int (b * 4096)))"
  have N: "unat N = ?n" unfolding N_def by (rule OBJECTS_PER_SLAB_eq(2) [OF z(1,2)])
  have N': "ucast (OBJECTS_PER_SLAB z (word_of_int b * 4096)) = N" by (simp add: N_def)
  have "N \<noteq> 0" using N z(3) by (metis neq0_conv unat_0)
  then have "unat (N - 1) = ?n - 1" using unat_minus_one [of N] N by simp
  moreover have "?n - 1 < 2 ^ 31" using slab_objs_le [OF z(1), of z] by simp
  ultimately have "sint (N - 1) = int (?n - 1)"
    using sint_of_small [of "?n - 1"] by (metis of_nat_unat ucast_id)
  then have cnt: "nat (sint (N - 1) + 1) = ?n" using z(3) by simp
  define k where "k = (slabs u x)\<lparr>sl_next := 0, sl_prev := 0, sl_mem := x, num_objects_max := N, num_free := N, sl_cache := c, sl_free_list := 0\<rparr>"
  let ?v = "u\<lparr>slabs := (slabs u)(x := k)\<rparr>"
  have C: "caches u = caches s" "objs u = objs s" using slab_more [OF a(3)] by blast+
  have "\<exists>B h. carve ?n (x + 48) c x ?v = ?v\<lparr>objs := B, slabs := (slabs ?v)(x := (slabs ?v x)\<lparr>sl_free_list := h\<rparr>)\<rparr> \<and>
      chain (\<lambda>p. ob_next (B p)) h (map (slot x z) [0 ..< ?n] @ []) \<and>
      (\<forall>p. p \<notin> slot x z ` {..< ?n} \<longrightarrow> B p = objs ?v p)"
    by (rule carve_ok) (use c C z nz in \<open>simp_all add: sizeof_kmem_object_def slots_def k_def\<close>)
  then obtain B h where B: "carve ?n (x + 48) c x ?v = ?v\<lparr>objs := B, slabs := (slabs ?v)(x := (slabs ?v x)\<lparr>sl_free_list := h\<rparr>)\<rparr>"
      "chain (\<lambda>p. ob_next (B p)) h (map (slot x z) [0 ..< ?n])" "\<forall>p. p \<notin> slots z b x \<longrightarrow> B p = objs s p"
    unfolding slots_def using C(2) by auto
  let ?k = "k\<lparr>sl_free_list := h\<rparr>" and ?t = "u\<lparr>objs := B, slabs := (slabs u)(x := k\<lparr>sl_free_list := h\<rparr>)\<rparr>"
  have "kmem_slab_create c s = Inr (x, ?t)"
    using a(1,2) c C B(1) cnt
    by (simp add: kmem_slab_create_def Let_def upd_slab_def sizeof_kmem_slab_def N' k_def)
  moreover have "slab_ok c z b ?t x (map (slot x z) [0 ..< ?n])"
    using B(2) N by (simp add: slab_ok_def k_def slots_def atLeast0LessThan)
  ultimately show ?thesis using B(3) by blast
qed

lemma slab_ok_cong:
  assumes "slabs t y = slabs s y" and "\<And>p. p \<in> slots z b y \<Longrightarrow> objs t p = objs s p"
  shows "slab_ok c z b t y fr = slab_ok c z b s y fr"
proof -
  have "chain (\<lambda>p. ob_next (objs t p)) q fr = chain (\<lambda>p. ob_next (objs s p)) q fr" if "set fr \<subseteq> slots z b y" for q
    by (rule chain_cong) (use that assms(2) in auto)
  then show ?thesis unfolding slab_ok_def assms(1) using assms(2) by auto
qed

lemma fresh_run:
  assumes s: "buddy_allocator.live_ok base K s ((x, b) # live)" and z: "b \<in> slab_sizes" "size_ok z"
  shows "(x, b) \<notin> set live" "0 \<notin> slots z b x" "(y, b) \<in> set live \<Longrightarrow> slots z b x \<inter> slots z b y = {}"
proof -
  obtain M where M: "buddy_state base K s M" using s unfolding buddy_allocator.live_ok_def buddy_inv_def by blast
  then have R: "region base K" by (simp add: buddy_state_def buddy_ok_def)
  obtain i where i: "chunk_ok K (order_of b) i" "run_cells base (x, b) = cells (order_of b) i"
    using buddy_live_run [OF s, of x b] by auto
  have "apart (run_cells base) ((x, b) # live)" using s unfolding buddy_allocator.live_ok_def by blast
  then show n: "(x, b) \<notin> set live" using i(2) unfolding apart_Cons by (auto simp: cells_def)
  have "run_cells base (x, b) \<subseteq> {..< 2 ^ K}" using i by (auto simp: cells_def chunk_ok_def)
  from zero_not_block [OF R this] show "0 \<notin> slots z b x"
    using run_slot_bytes [OF s _ z _ slot_cell, of x 0] by auto
  show "slots z b x \<inter> slots z b y = {}" if y: "(y, b) \<in> set live"
  proof -
    have "(x, b) \<noteq> (y, b)" using n y by blast
    then have "block_bytes base (run_cells base (x, b)) \<inter> block_bytes base (run_cells base (y, b)) = {}"
      by (intro runs_bytes_apart [OF s]) (use y in auto)
    then show ?thesis
      using run_slot_bytes [OF s _ z _ slot_cell, of x] run_slot_bytes [OF s _ z _ slot_cell, of y] y by auto
  qed
qed

lemma head_of_counts [simp]: "head_of l (k\<lparr>num_slabs := n\<rparr>) = head_of l k" "head_of l (k\<lparr>num_grown := n\<rparr>) = head_of l k"
  "head_of l (k\<lparr>error_state := e\<rparr>) = head_of l k"
  by (cases l; simp)+

lemma slab_inv_error:
  assumes "slab_inv base K c z b s L F xs"
  shows "slab_inv base K c z b (upd_cache c (error_state_update (\<lambda>_. 1)) s) L F xs"
proof (rule slab_inv_same [OF assms])
  show "cache_ok c z b (upd_cache c (error_state_update (\<lambda>_. 1)) s) L F"
    using slab_invD(4) [OF assms] by (simp add: cache_ok_def cache_lists_def slab_ok_def valid_cache_def upd_cache_def)
qed (use slab_inv_buddy [OF assms] in \<open>simp_all add: upd_cache_def\<close>)

text \<open>The new slab of \<^verbatim>\<open>kmem_cache_grow\<close>, linked and counted.\<close>

lemma grow_cache_ok:
  assumes s: "cache_ok c z b s L F" and n: "0 < slab_objs z b" and x: "x \<noteq> 0" "x \<notin> all_slabs L"
    and v: "caches v = caches s" "\<And>y. y \<noteq> x \<Longrightarrow> slabs v y = slabs s y"
    and B: "\<And>y p. y \<in> all_slabs L \<Longrightarrow> p \<in> slots z b y \<Longrightarrow> objs v p = objs s p"
    and k: "slab_ok c z b v x (map (slot x z) [0 ..< slab_objs z b])"
  defines "t \<equiv> upd_cache c (num_grown_update (\<lambda>n. n + 1)) (upd_cache c (num_slabs_update (\<lambda>n. n + 1)) (add_slab_to_list SLAB_EMPTY c x v))"
    and "M \<equiv> L(SLAB_EMPTY := x # L SLAB_EMPTY)" and "G \<equiv> F(x := map (slot x z) [0 ..< slab_objs z b])"
  shows "cache_ok c z b t M G" "all_slabs M = insert x (all_slabs L)" "live_slots z b M G = live_slots z b L F"
proof -
  have CL: "cache_lists c s L" using s unfolding cache_ok_def by blast
  have xl: "x \<notin> set (L l)" for l using x(2) by (auto simp: all_slabs_def)
  have dv: "dll (slabs v) 0 (head_of l (caches v c)) (L l)" for l
  proof -
    have "dll (slabs v) 0 (head_of l (caches s c)) (L l) = dll (slabs s) 0 (head_of l (caches s c)) (L l)"
      by (rule dll_cong) (use v(2) xl in metis)
    then show ?thesis using cache_listsD(1) [OF CL] v(1) by simp
  qed
  obtain S C where S: "add_slab_to_list SLAB_EMPTY c x v = v\<lparr>slabs := S, caches := (caches v)(c := C)\<rparr>"
      "\<forall>y. y \<notin> set (x # L SLAB_EMPTY) \<longrightarrow> S y = slabs v y" "\<forall>y. slab_core (S y) = slab_core (slabs v y)"
      "cache_core C = cache_core (caches v c)" "dll S 0 (head_of SLAB_EMPTY C) (x # L SLAB_EMPTY)"
      "\<forall>l'. l' \<noteq> SLAB_EMPTY \<longrightarrow> head_of l' C = head_of l' (caches v c)"
    using add_slab_ok [OF dv x(1) xl] by blast
  define D where "D = num_grown_update (\<lambda>n. n + 1) (num_slabs_update (\<lambda>n. n + 1) C)"
  have t: "t = v\<lparr>slabs := S, caches := (caches v)(c := D)\<rparr>" unfolding t_def S(1) D_def by (simp add: upd_cache_def)
  have hD: "head_of l D = head_of l C" for l unfolding D_def by (cases l) (cases C; simp)+
  show A: "all_slabs M = insert x (all_slabs L)" unfolding all_slabs_eq M_def by auto
  show live: "live_slots z b M G = live_slots z b L F"
    unfolding live_slots_def A G_def using x(2) by (auto simp: slots_def atLeast0LessThan split: if_splits)
  have "cache_lists c t M" unfolding cache_lists_def
  proof (intro conjI allI impI)
    fix l
    show "dll (slabs t) 0 (head_of l (caches t c)) (M l)"
    proof (cases "l = SLAB_EMPTY")
      case True
      then show ?thesis using S(5) by (simp add: t hD M_def)
    next
      case False
      have "y \<notin> set (x # L SLAB_EMPTY)" if "y \<in> set (L l)" for y
        using cache_listsD(4) [OF CL that, of SLAB_EMPTY] xl [of l] that False by auto
      then have "dll S 0 (head_of l (caches v c)) (L l) = dll (slabs v) 0 (head_of l (caches v c)) (L l)"
        by (intro dll_cong) (use S(2) in simp)
      then show ?thesis using dv [of l] S(6) False by (simp add: t hD M_def)
    qed
  next
    fix l l' :: slab_list
    assume "l \<noteq> l'"
    then show "set (M l) \<inter> set (M l') = {}"
      using cache_listsD(4) [OF CL] xl unfolding M_def by (auto split: if_splits)
  qed
  moreover have "slab_ok c z b t y (G y)" if y: "y \<in> all_slabs M" for y
  proof -
    have "slab_ok c z b t y (G y) = slab_ok c z b v y (G y)"
      using slab_core_fields [OF S(3) [rule_format, of y]] by (simp add: slab_ok_def t)
    moreover have "slab_ok c z b v y (G y)"
    proof (cases "y = x")
      case True
      then show ?thesis using k by (simp add: G_def)
    next
      case False
      then have "y \<in> all_slabs L" using y A by blast
      then have "slab_ok c z b s y (F y)" "slab_ok c z b v y (F y) = slab_ok c z b s y (F y)"
        using s v(2) [OF False] B slab_ok_cong [of v y s z b c "F y"] unfolding cache_ok_def by blast+
      then show ?thesis using False by (simp add: G_def)
    qed
    ultimately show ?thesis by blast
  qed
  moreover have "l = place (slab_objs z b) (length (G y))" if y: "y \<in> set (M l)" for l y
  proof (cases "y = x")
    case True
    then have "l = SLAB_EMPTY" using y xl [of l] unfolding M_def by (auto split: if_splits)
    then show ?thesis using True n by (simp add: G_def place_def)
  next
    case False
    then have "y \<in> set (L l)" using y unfolding M_def by (auto split: if_splits)
    then show ?thesis using s False unfolding cache_ok_def by (simp add: G_def)
  qed
  moreover have "object_size D = object_size (caches s c)" "aligned_size D = aligned_size (caches s c)"
    "slab_size D = slab_size (caches s c)" "error_detection D = error_detection (caches s c)"
    "num_allocated D = num_allocated (caches s c)"
    using cache_core_fields [OF S(4)] v(1) unfolding D_def by simp_all
  ultimately show "cache_ok c z b t M G"
    using s live unfolding cache_ok_def by (simp add: t valid_cache_def)
qed

lemma kmem_cache_grow_ok:
  assumes s: "slab_inv base K c z b s L F xs"
  obtains "kmem_cache_grow c s = Inr (-1, upd_cache c (error_state_update (\<lambda>_. 1)) s)"
  | x t M G where "kmem_cache_grow c s = Inr (0, t)" "slab_inv base K c z b t M G (x # xs)"
      "M SLAB_EMPTY = x # L SLAB_EMPTY" "all_slabs M = insert x (all_slabs L)"
      "live_slots z b M G = live_slots z b L F" "held t = held s"
proof -
  note S = slab_invD [OF s]
  have C: "aligned_size (caches s c) = z + sizeof_kmem_object" "object_size (caches s c) = z" "slab_size (caches s c) = b"
    using S(4) unfolding cache_ok_def by blast+
  have b: "1 \<le> b" "b \<le> 2 ^ 30" using slab_sizes_order(1,2) [OF S(1)] by simp_all
  from S(6) b show thesis
  proof (cases rule: buddy_alloc_live)
    case 1
    then have "kmem_slab_create c s = Inr (0, s)" using C(3) by (simp add: kmem_slab_create_def)
    then show thesis by (intro that(1)) (simp add: kmem_cache_grow_def)
  next
    case (2 x u)
    note f = fresh_run [OF 2(3) S(1,2)]
    obtain B k where v: "kmem_slab_create c s = Inr (x, u\<lparr>objs := B, slabs := (slabs u)(x := k)\<rparr>)"
        "slab_ok c z b (u\<lparr>objs := B, slabs := (slabs u)(x := k)\<rparr>) x (map (slot x z) [0 ..< slab_objs z b])"
        "\<forall>p. p \<notin> slots z b x \<longrightarrow> B p = objs s p"
      using kmem_slab_create_ok [OF C S(1-3) 2(1,2,5) f(2)] by blast
    let ?v = "u\<lparr>objs := B, slabs := (slabs u)(x := k)\<rparr>"
    let ?t = "upd_cache c (num_grown_update (\<lambda>n. n + 1)) (upd_cache c (num_slabs_update (\<lambda>n. n + 1)) (add_slab_to_list SLAB_EMPTY c x ?v))"
    have x: "x \<notin> all_slabs L" using f(1) slab_inv_run [OF s] by blast
    have vs: "caches ?v = caches s" "\<And>y. y \<noteq> x \<Longrightarrow> slabs ?v y = slabs s y"
      using slab_more [OF 2(5)] by simp_all
    have B: "objs ?v p = objs s p" if "y \<in> all_slabs L" "p \<in> slots z b y" for y p
      using v(3) f(3) [OF slab_inv_run [OF s that(1)]] that(2) by auto
    note G = grow_cache_ok [OF S(4,3) 2(2) x vs B v(2)]
    have grow: "kmem_cache_grow c s = Inr (0, ?t)"
      using v(1) 2(2) by (simp add: kmem_cache_grow_def Let_def)
    have rest: "max_order ?t = max_order u" "free_list ?t = free_list u" "memory_start ?t = memory_start u" "mem ?t = mem u"
      "total_blocks ?t = total_blocks u" "free_blocks ?t = free_blocks u" "held ?t = held u"
      by (simp_all add: upd_cache_def add_slab_to_list_def upd_slab_def Let_def set_head_eq)
    have "L_buddy \<notin> held ?t" unfolding rest(7) 2(4) by (rule slab_inv_buddy [OF s])
    then have "buddy_allocator.live_ok base K ?t ((x, b) # held_runs c b xs)" by (rule buddy_live_same [OF 2(3) rest(1-6)])
    then have "slab_inv base K c z b ?t (L(SLAB_EMPTY := x # L SLAB_EMPTY)) (F(x := map (slot x z) [0 ..< slab_objs z b])) (x # xs)"
      unfolding slab_inv_def using S(1-3,5) G(1,2) by (simp add: held_runs_def)
    from that(2) [OF grow this _ G(2,3)] show thesis using rest(7) 2(4) by simp
  qed
qed

lemma alloc_with:
  assumes s: "slab_inv base K c z b s L F xs" and h: "L_cache c \<in> held s" and x: "x \<in> set (L l)" "F x \<noteq> []"
  shows "\<exists>t p M G. sl_free_list (slabs s x) = p \<and> p \<noteq> 0 \<and> x \<noteq> 0 \<and>
    release (L_cache c) (alloc_relink c x (took c x p s)) = Inr t \<and> slab_inv base K c z b t M G xs \<and>
    held t = held s - {L_cache c} \<and> all_slabs M = all_slabs L \<and>
    live_slots z b M G = insert p (live_slots z b L F) \<and> p \<notin> live_slots z b L F"
proof -
  note S = slab_invD [OF s]
  obtain p fr where p: "F x = p # fr" using x(2) by (cases "F x") auto
  have xA: "x \<in> all_slabs L" using x(1) by (auto simp: all_slabs_def)
  note ch = chain_slots [OF S(9) [OF xA]]
  have hd: "sl_free_list (slabs s x) = p" "p \<noteq> 0" using ch(3,4) p by auto
  let ?t = "alloc_relink c x (took c x p s)"
  obtain M where M: "slab_inv base K c z b ?t M (F(x := fr)) xs" "all_slabs M = all_slabs L" "held ?t = held s"
      "live_slots z b M (F(x := fr)) = insert p (live_slots z b L F)" "p \<notin> live_slots z b L F"
    using alloc_from [OF s x(1) p] by blast
  have r: "release (L_cache c) ?t = Inr (?t\<lparr>held := held s - {L_cache c}\<rparr>)" using M(3) h by simp
  have "L_buddy \<notin> held s - {L_cache c}" using slab_inv_buddy [OF s] by blast
  from slab_inv_held [OF M(1) this] show ?thesis
    using hd r M(2,4,5) cache_listsD(3) [OF S(7) x(1)] by (intro exI conjI) auto
qed

section \<open>Allocation and release\<close>

lemma slab_inv_some_free:
  assumes "slab_inv base K c z b s L F xs" and "x \<in> set (L l)" and "l \<noteq> SLAB_FULL"
  shows "F x \<noteq> []"
  using slab_invD(10) [OF assms(1,2)] assms(3) by (auto simp: place_def)

lemma kmem_cache_alloc_pick:
  assumes "valid_cache c s" and "L_cache c \<notin> held s"
    and "pick_slab c (s\<lparr>held := insert (L_cache c) (held s)\<rparr>) = Inr (Some x, u)"
    and "sl_free_list (slabs u x) = p" "p \<noteq> 0" "x \<noteq> 0"
    and "release (L_cache c) (alloc_relink c x (took c x p u)) = Inr t"
  shows "kmem_cache_alloc c s = Inr (p + 16, t)"
  using assms by (simp add: kmem_cache_alloc_eq sizeof_kmem_object_def)

lemma kmem_cache_alloc_ok:
  assumes s: "slab_inv base K c z b s L F xs" and h: "L_cache c \<notin> held s"
  obtains (full) t where "kmem_cache_alloc c s = Inr (0, t)" "slab_inv base K c z b t L F xs" "held t = held s"
      "L SLAB_PARTIAL = []" "L SLAB_EMPTY = []"
  | (object) t p M G ys where "kmem_cache_alloc c s = Inr (p + 16, t)" "slab_inv base K c z b t M G ys" "held t = held s"
      "all_slabs L \<subseteq> all_slabs M" "live_slots z b M G = insert p (live_slots z b L F)" "p \<notin> live_slots z b L F"
proof -
  let ?s = "s\<lparr>held := insert (L_cache c) (held s)\<rparr>"
  have "L_buddy \<notin> insert (L_cache c) (held s)" using slab_inv_buddy [OF s] by simp
  note i = slab_inv_held [OF s this]
  note S = slab_invD [OF s]
  have hd: "slabs_partial (caches ?s c) = (case L SLAB_PARTIAL of [] \<Rightarrow> 0 | x # _ \<Rightarrow> x)"
    "slabs_empty (caches ?s c) = (case L SLAB_EMPTY of [] \<Rightarrow> 0 | x # _ \<Rightarrow> x)"
    using cache_listsD(5) [OF S(7), of SLAB_PARTIAL] cache_listsD(5) [OF S(7), of SLAB_EMPTY] by simp_all
  have found: thesis if pick: "pick_slab c ?s = Inr (Some x, u)" and u: "slab_inv base K c z b u M G ys" "held u = held ?s"
      and x: "x \<in> set (M l)" "l \<noteq> SLAB_FULL" and A: "all_slabs L \<subseteq> all_slabs M" "live_slots z b M G = live_slots z b L F"
    for x u M G ys l
  proof -
    have "L_cache c \<in> held u" using u(2) by simp
    from alloc_with [OF u(1) this x(1) slab_inv_some_free [OF u(1) x]]
    obtain t p N E where t: "sl_free_list (slabs u x) = p" "p \<noteq> 0" "x \<noteq> 0"
        "release (L_cache c) (alloc_relink c x (took c x p u)) = Inr t" "slab_inv base K c z b t N E ys"
        "held t = held u - {L_cache c}" "all_slabs N = all_slabs M"
        "live_slots z b N E = insert p (live_slots z b M G)" "p \<notin> live_slots z b M G" by blast
    have "held t = held s" using t(6) u(2) h by auto
    then show thesis
      using object [OF kmem_cache_alloc_pick [OF S(8) h pick t(1-4)] t(5)] t(7-9) A by blast
  qed
  show thesis
  proof (cases "L SLAB_PARTIAL")
    case (Cons x r)
    then have "x \<noteq> 0" using cache_listsD(3) [OF S(7), of x SLAB_PARTIAL] by simp
    then have "pick_slab c ?s = Inr (Some x, ?s)" using hd Cons by (simp add: pick_slab_def)
    from found [OF this i refl, of SLAB_PARTIAL] Cons show thesis by simp
  next
    case P: Nil
    show thesis
    proof (cases "L SLAB_EMPTY")
      case (Cons x r)
      then have "x \<noteq> 0" using cache_listsD(3) [OF S(7), of x SLAB_EMPTY] by simp
      then have "pick_slab c ?s = Inr (Some x, ?s)" using hd Cons P by (simp add: pick_slab_def)
      from found [OF this i refl, of SLAB_EMPTY] Cons show thesis by simp
    next
      case E: Nil
      from i show thesis
      proof (cases rule: kmem_cache_grow_ok)
        case 1
        let ?e = "upd_cache c (error_state_update (\<lambda>_. 1)) ?s"
        have "pick_slab c ?s = Inr (None, ?e)" using hd E P 1 by (simp add: pick_slab_def)
        moreover have "release (L_cache c) ?e = Inr (?e\<lparr>held := held s\<rparr>)" using h by (simp add: upd_cache_def)
        ultimately have a: "kmem_cache_alloc c s = Inr (0, ?e\<lparr>held := held s\<rparr>)"
          using S(8) h by (simp add: kmem_cache_alloc_eq)
        have "held (?e\<lparr>held := held s\<rparr>) = held s" by simp
        from full [OF a slab_inv_held [OF slab_inv_error [OF i] slab_inv_buddy [OF s]] this P E] show thesis .
      next
        case (2 x t M G)
        have x: "x \<in> set (M SLAB_EMPTY)" using 2(3) by simp
        have "slabs_empty (caches t c) = x"
          using cache_listsD(5) [OF slab_invD(7) [OF 2(2)], of SLAB_EMPTY] 2(3) by simp
        then have "pick_slab c ?s = Inr (Some x, t)" using hd E P 2(1) by (simp add: pick_slab_def)
        from found [OF this 2(2,6) x] 2(4,5) show thesis by blast
      qed
    qed
  qed
qed

lemma slab_inv_cell_nz:
  assumes s: "slab_inv base K c z b s L F xs" and x: "x \<in> all_slabs L" "p \<in> slots z b x" "a \<in> cell_bytes z p"
  shows "a \<noteq> 0"
proof -
  note S = slab_invD [OF s]
  obtain M where "buddy_state base K s M" using S(6) unfolding buddy_allocator.live_ok_def buddy_inv_def by blast
  then have R: "region base K" by (simp add: buddy_state_def buddy_ok_def)
  obtain i where i: "chunk_ok K (order_of b) i" "run_cells base (x, b) = cells (order_of b) i"
    by (rule buddy_live_run [OF S(6) slab_inv_run [OF s x(1)]])
  then have "run_cells base (x, b) \<subseteq> {..< 2 ^ K}" by (auto simp: cells_def chunk_ok_def)
  then show ?thesis using zero_not_block [OF R] slab_inv_bytes [OF s x] by blast
qed

lemma payload_cell:
  assumes "size_ok z" and "unat (a - (p + 16)) < unat z"
  shows "a \<in> cell_bytes z p"
proof -
  have "unat (a - (p + 16)) + 16 < 2 ^ 64" using assms size_ok_unat [OF assms(1)] by simp
  moreover have "unat (u + 16) = unat u + 16" if "unat u + 16 < 2 ^ 64" for u :: addr
    using that by (simp add: unat_plus_if')
  ultimately have "unat ((a - (p + 16)) + 16) = unat (a - (p + 16)) + 16" by blast
  moreover have "(a - (p + 16)) + 16 = a - p" by simp
  ultimately show ?thesis using assms(2) by (simp add: cell_bytes_def)
qed

lemma kmem_cache_free_ok:
  assumes s: "slab_inv base K c z b s L F xs" and h: "L_cache c \<notin> held s" and p: "p \<in> live_slots z b L F"
  shows "\<exists>t M G. kmem_cache_free c (p + 16) s = Inr t \<and> slab_inv base K c z b t M G xs \<and> held t = held s \<and>
    all_slabs M = all_slabs L \<and> live_slots z b M G = live_slots z b L F - {p}"
proof -
  note S = slab_invD [OF s]
  obtain x where x: "x \<in> all_slabs L" "p \<in> slots z b x - set (F x)" using p unfolding live_slots_def by blast
  obtain l where l: "x \<in> set (L l)" using x(1) unfolding all_slabs_def by blast
  have nz: "p \<noteq> 0" "p + 16 \<noteq> 0" "x \<noteq> 0"
    using slab_inv_cell_nz [OF s x(1), of p] x(2) slot_cell payload_cell [OF S(2), of "p + 16" p] size_ok_unat [OF S(2)]
      cache_listsD(3) [OF S(7) l] by auto
  let ?s = "s\<lparr>held := insert (L_cache c) (held s)\<rparr>"
  have "L_buddy \<notin> insert (L_cache c) (held s)" using slab_inv_buddy [OF s] by simp
  note i = slab_inv_held [OF s this]
  let ?t = "free_relink c x (gave c x p ?s)"
  obtain M where M: "slab_inv base K c z b ?t M (F(x := p # F x)) xs" "all_slabs M = all_slabs L" "held ?t = held ?s"
      "live_slots z b M (F(x := p # F x)) = live_slots z b L F - {p}"
    using free_to [OF i l x(2) nz(1)] by blast
  have "ob_slab (objs s p) = x" using S(9) [OF x(1)] x(2) unfolding slab_ok_def by blast
  then have "kmem_cache_free c (p + 16) s = release (L_cache c) ?t"
    using S(8) h nz by (simp add: kmem_cache_free_eq Let_def sizeof_kmem_object_def)
  also have "\<dots> = Inr (?t\<lparr>held := held s\<rparr>)" using M(3) h by simp
  finally have f: "kmem_cache_free c (p + 16) s = Inr (?t\<lparr>held := held s\<rparr>)" .
  have "held (?t\<lparr>held := held s\<rparr>) = held s" by simp
  with f slab_inv_held [OF M(1) slab_inv_buddy [OF s]] M(2,4) show ?thesis by blast
qed

section \<open>A cache is an allocator\<close>

lemma dll_unique: "dll S pv p xs \<Longrightarrow> dll S pv p ys \<Longrightarrow> xs = ys"
  using dll_chain chain_unique by blast

lemma slab_inv_unique:
  assumes s: "slab_inv base K c z b s L F xs" and t: "slab_inv base K c z b s M G ys"
  shows "all_slabs L = all_slabs M" "live_slots z b L F = live_slots z b M G"
proof -
  note S = slab_invD [OF s] and T = slab_invD [OF t]
  have LM: "L l = M l" for l using dll_unique [OF cache_listsD(1) [OF S(7)] cache_listsD(1) [OF T(7)]] by blast
  then show A: "all_slabs L = all_slabs M" by (simp add: all_slabs_def)
  have "F x = G x" if "x \<in> all_slabs L" for x
  proof -
    have "slab_ok c z b s x (F x)" "slab_ok c z b s x (G x)" using S(9) T(9) that A by blast+
    then show ?thesis unfolding slab_ok_def using chain_unique by blast
  qed
  then show "live_slots z b L F = live_slots z b M G" unfolding live_slots_def A [symmetric] by simp
qed

definition obj_bytes :: "addr \<Rightarrow> addr \<Rightarrow> addr set" where
  "obj_bytes z h = {a. unat (a - h) < unat z}"

definition cache_inv :: "addr \<Rightarrow> nat \<Rightarrow> addr \<Rightarrow> addr \<Rightarrow> int \<Rightarrow> 'z slab_st_scheme \<Rightarrow> bool" where
  "cache_inv base K c z b s \<longleftrightarrow> L_cache c \<notin> held s \<and> (\<exists>L F xs. slab_inv base K c z b s L F xs)"

definition live_objs :: "addr \<Rightarrow> nat \<Rightarrow> addr \<Rightarrow> addr \<Rightarrow> int \<Rightarrow> 'z slab_st_scheme \<Rightarrow> addr set" where
  "live_objs base K c z b s = {p + 16 | p. \<exists>L F xs. slab_inv base K c z b s L F xs \<and> p \<in> live_slots z b L F}"

definition unused :: "addr \<Rightarrow> nat \<Rightarrow> addr \<Rightarrow> addr \<Rightarrow> int \<Rightarrow> 'z slab_st_scheme \<Rightarrow> addr set" where
  "unused base K c z b s = - \<Union> (obj_bytes z ` live_objs base K c z b s)"

definition obj_of :: "addr \<Rightarrow> nat \<Rightarrow> addr \<Rightarrow> addr \<Rightarrow> int \<Rightarrow> 'z slab_st_scheme \<Rightarrow> addr \<Rightarrow> bool" where
  "obj_of base K c z b s h \<longleftrightarrow>
     (\<exists>L F xs x p. slab_inv base K c z b s L F xs \<and> x \<in> all_slabs L \<and> p \<in> slots z b x \<and> h = p + 16)"

definition kmem_cache_alloc_opt :: "addr \<Rightarrow> unit \<Rightarrow> 'z slab_st_scheme \<Rightarrow> (addr option \<times> 'z slab_st_scheme) res" where
  "kmem_cache_alloc_opt c k s = bindR (kmem_cache_alloc c s) (\<lambda>(p, s). Inr (if p = 0 then None else Some p, s))"

definition obj_write :: "addr \<Rightarrow> addr \<Rightarrow> memory \<Rightarrow> 'z slab_st_scheme \<Rightarrow> 'z slab_st_scheme" where
  "obj_write z h w s = s\<lparr>mem := scribble (obj_bytes z h) w (mem s)\<rparr>"

lemma live_objs_eq:
  assumes "slab_inv base K c z b s L F xs"
  shows "live_objs base K c z b s = (\<lambda>p. p + 16) ` live_slots z b L F"
  unfolding live_objs_def using slab_inv_unique(2) [OF assms] assms by blast

lemma obj_of_eq:
  assumes "slab_inv base K c z b s L F xs"
  shows "obj_of base K c z b s h \<longleftrightarrow> (\<exists>x p. x \<in> all_slabs L \<and> p \<in> slots z b x \<and> h = p + 16)"
  unfolding obj_of_def using slab_inv_unique(1) [OF assms] assms by blast

lemma obj_bytes_self: "size_ok z \<Longrightarrow> h \<in> obj_bytes z h"
  using size_ok_unat [of z] by (simp add: obj_bytes_def)

lemma obj_bytes_cell: "size_ok z \<Longrightarrow> obj_bytes z (p + 16) \<subseteq> cell_bytes z p"
  using payload_cell unfolding obj_bytes_def by blast

lemma live_slot_slab: "p \<in> live_slots z b L F \<Longrightarrow> \<exists>x \<in> all_slabs L. p \<in> slots z b x"
  unfolding live_slots_def by blast

lemma objs_disjoint:
  assumes s: "slab_inv base K c z b s L F xs" and "x \<in> all_slabs L" "p \<in> slots z b x" "y \<in> all_slabs L" "q \<in> slots z b y" "p \<noteq> q"
  shows "obj_bytes z (p + 16) \<inter> obj_bytes z (q + 16) = {}"
  using slab_inv_cells [OF assms] obj_bytes_cell [OF slab_invD(2) [OF s]] by blast

text \<open>An object of the cache is in use or unused as a whole.\<close>

lemma obj_used:
  assumes s: "slab_inv base K c z b s L F xs" and x: "x \<in> all_slabs L" "p \<in> slots z b x"
    and d: "obj_bytes z (p + 16) \<inter> unused base K c z b s = {}"
  shows "p \<in> live_slots z b L F"
proof -
  have "p + 16 \<in> obj_bytes z (p + 16)" by (rule obj_bytes_self [OF slab_invD(2) [OF s]])
  then obtain q where q: "q \<in> live_slots z b L F" "p + 16 \<in> obj_bytes z (q + 16)"
    using d unfolding unused_def live_objs_eq [OF s] by blast
  obtain y where "y \<in> all_slabs L" "q \<in> slots z b y" using live_slot_slab [OF q(1)] by blast
  then have "p = q" using objs_disjoint [OF s x, of y q] q(2) obj_bytes_self [OF slab_invD(2) [OF s], of "p + 16"] by blast
  then show ?thesis using q(1) by simp
qed

lemma alloc_contract:
  assumes "cache_inv base K c z b s"
  obtains t where "kmem_cache_alloc_opt c k s = Inr (None, t)" "cache_inv base K c z b t"
      "unused base K c z b t = unused base K c z b s" "\<And>g. obj_of base K c z b s g \<Longrightarrow> obj_of base K c z b t g"
  | t h where "kmem_cache_alloc_opt c k s = Inr (Some h, t)" "cache_inv base K c z b t" "obj_of base K c z b t h"
      "obj_bytes z h \<subseteq> unused base K c z b s" "unused base K c z b t = unused base K c z b s - obj_bytes z h"
      "\<And>g. obj_of base K c z b s g \<Longrightarrow> obj_of base K c z b t g"
proof -
  obtain L F xs where s: "slab_inv base K c z b s L F xs" and h: "L_cache c \<notin> held s"
    using assms unfolding cache_inv_def by blast
  from s h show thesis
  proof (cases rule: kmem_cache_alloc_ok)
    case (full t)
    have "kmem_cache_alloc_opt c k s = Inr (None, t)" using full(1) by (simp add: kmem_cache_alloc_opt_def)
    moreover have "cache_inv base K c z b t" using full(2,3) h unfolding cache_inv_def by auto
    moreover have "unused base K c z b t = unused base K c z b s"
      unfolding unused_def live_objs_eq [OF full(2)] live_objs_eq [OF s] ..
    moreover have "obj_of base K c z b s g \<Longrightarrow> obj_of base K c z b t g" for g
      unfolding obj_of_eq [OF full(2)] obj_of_eq [OF s] .
    ultimately show thesis by (rule that(1))
  next
    case (object t p M G ys)
    note T = slab_invD [OF object(2)]
    have p: "p \<in> live_slots z b M G" using object(5) by blast
    then obtain x where x: "x \<in> all_slabs M" "p \<in> slots z b x" using live_slot_slab by blast
    have "p + 16 \<in> cell_bytes z p" using obj_bytes_cell [OF T(2)] obj_bytes_self [OF T(2)] by blast
    then have nz: "p + 16 \<noteq> 0" using slab_inv_cell_nz [OF object(2) x] by blast
    have dis: "obj_bytes z (p + 16) \<inter> obj_bytes z (q + 16) = {}" if q: "q \<in> live_slots z b L F" for q
    proof -
      have "q \<in> live_slots z b M G" "q \<noteq> p" using q object(5,6) by blast+
      then show ?thesis using live_slot_slab objs_disjoint [OF object(2) x] by blast
    qed
    have "kmem_cache_alloc_opt c k s = Inr (Some (p + 16), t)" using object(1) nz by (simp add: kmem_cache_alloc_opt_def)
    moreover have "cache_inv base K c z b t" using object(2,3) h unfolding cache_inv_def by auto
    moreover have "obj_of base K c z b t (p + 16)" unfolding obj_of_eq [OF object(2)] using x by blast
    moreover have "obj_bytes z (p + 16) \<subseteq> unused base K c z b s"
      unfolding unused_def live_objs_eq [OF s] using dis by blast
    moreover have "unused base K c z b t = unused base K c z b s - obj_bytes z (p + 16)"
      unfolding unused_def live_objs_eq [OF s] live_objs_eq [OF object(2)] object(5) by auto
    moreover have "obj_of base K c z b s g \<Longrightarrow> obj_of base K c z b t g" for g
      unfolding obj_of_eq [OF object(2)] obj_of_eq [OF s] using object(4) by blast
    ultimately show thesis by (rule that(2))
  qed
qed

lemma free_contract:
  assumes "cache_inv base K c z b s" and "obj_of base K c z b s h" and "obj_bytes z h \<inter> unused base K c z b s = {}"
  shows "\<exists>t. kmem_cache_free c h s = Inr t \<and> cache_inv base K c z b t \<and>
    unused base K c z b t = unused base K c z b s \<union> obj_bytes z h \<and> (\<forall>g. obj_of base K c z b s g \<longrightarrow> obj_of base K c z b t g)"
proof -
  obtain L F xs where s: "slab_inv base K c z b s L F xs" and l: "L_cache c \<notin> held s"
    using assms(1) unfolding cache_inv_def by blast
  obtain x p where x: "x \<in> all_slabs L" "p \<in> slots z b x" "h = p + 16" using assms(2) unfolding obj_of_eq [OF s] by blast
  have p: "p \<in> live_slots z b L F" using obj_used [OF s x(1,2)] assms(3) x(3) by blast
  obtain t M G where t: "kmem_cache_free c h s = Inr t" "slab_inv base K c z b t M G xs" "held t = held s"
      "all_slabs M = all_slabs L" "live_slots z b M G = live_slots z b L F - {p}"
    using kmem_cache_free_ok [OF s l p] x(3) by blast
  have dis: "obj_bytes z (p + 16) \<inter> obj_bytes z (q + 16) = {}" if "q \<in> live_slots z b L F - {p}" for q
    using that live_slot_slab objs_disjoint [OF s x(1,2)] by blast
  have "unused base K c z b t = unused base K c z b s \<union> obj_bytes z h"
    unfolding unused_def live_objs_eq [OF s] live_objs_eq [OF t(2)] t(5) x(3) using dis p by blast
  moreover have "cache_inv base K c z b t" using t(2,3) l unfolding cache_inv_def by auto
  moreover have "obj_of base K c z b s g \<longrightarrow> obj_of base K c z b t g" for g
    unfolding obj_of_eq [OF t(2)] obj_of_eq [OF s] t(4) by blast
  ultimately show ?thesis using t(1) by blast
qed

lemma obj_outside:
  assumes s: "slab_inv base K c z b s L F xs" and x: "x \<in> all_slabs L" "p \<in> slots z b x"
  shows "obj_bytes z (p + 16) \<inter> block_bytes base (buddy_cells base K s) = {}"
proof -
  note S = slab_invD [OF s]
  obtain M where M: "buddy_state base K s M" using S(6) unfolding buddy_allocator.live_ok_def buddy_inv_def by blast
  then have R: "region base K" "chunks_ok K (fsets M)" by (simp_all add: buddy_state_def buddy_ok_def)
  obtain i where i: "chunk_ok K (order_of b) i" "run_cells base (x, b) = cells (order_of b) i"
    by (rule buddy_live_run [OF S(6) slab_inv_run [OF s x(1)]])
  have "run_cells base (x, b) \<inter> buddy_cells base K s = {}"
    using S(6) slab_inv_run [OF s x(1)] unfolding buddy_allocator.live_ok_def by blast
  moreover have "run_cells base (x, b) \<subseteq> {..< 2 ^ K}" using i by (auto simp: cells_def chunk_ok_def)
  moreover have "buddy_cells base K s \<subseteq> {..< 2 ^ K}" unfolding buddy_cells_eq [OF M] by (rule free_cells_bounded [OF R(2)])
  ultimately have "block_bytes base (run_cells base (x, b)) \<inter> block_bytes base (buddy_cells base K s) = {}"
    by (intro block_bytes_disjoint [OF R(1)])
  then show ?thesis using slab_inv_bytes [OF s x] obj_bytes_cell [OF S(2)] by blast
qed

lemma slab_inv_write:
  assumes s: "slab_inv base K c z b s L F xs" and x: "x \<in> all_slabs L" "p \<in> slots z b x"
  shows "slab_inv base K c z b (obj_write z (p + 16) w s) L F xs"
proof -
  note S = slab_invD [OF s]
  let ?t = "obj_write z (p + 16) w s"
  obtain M where M: "buddy_state base K s M" using S(6) unfolding buddy_allocator.live_ok_def buddy_inv_def by blast
  have N: "buddy_state base K ?t M"
    unfolding obj_write_def
    by (rule buddy_state_mem [OF M]) (use obj_outside [OF s x] in \<open>auto simp: buddy_cells_eq [OF M] scribble_def\<close>)
  have "buddy_allocator.live_ok base K ?t (held_runs c b xs)"
    using S(6) unfolding buddy_allocator.live_ok_def buddy_cells_eq [OF M] buddy_cells_eq [OF N]
    using buddy_state_inv [OF N] by blast
  moreover have "cache_ok c z b ?t L F"
    using S(4) by (simp add: obj_write_def cache_ok_def slab_ok_def cache_lists_def valid_cache_def)
  ultimately show ?thesis using s unfolding slab_inv_def by blast
qed

lemma write_contract:
  assumes "cache_inv base K c z b s" and "obj_of base K c z b s h"
  shows "cache_inv base K c z b (obj_write z h w s) \<and> unused base K c z b (obj_write z h w s) = unused base K c z b s \<and>
    (\<forall>g. obj_of base K c z b s g \<longrightarrow> obj_of base K c z b (obj_write z h w s) g)"
proof -
  obtain L F xs where s: "slab_inv base K c z b s L F xs" and l: "L_cache c \<notin> held s"
    using assms(1) unfolding cache_inv_def by blast
  obtain x p where x: "x \<in> all_slabs L" "p \<in> slots z b x" "h = p + 16" using assms(2) unfolding obj_of_eq [OF s] by blast
  have t: "slab_inv base K c z b (obj_write z h w s) L F xs" unfolding x(3) by (rule slab_inv_write [OF s x(1,2)])
  have "held (obj_write z h w s) = held s" by (simp add: obj_write_def)
  then have "cache_inv base K c z b (obj_write z h w s)" using t l unfolding cache_inv_def by auto
  moreover have "unused base K c z b (obj_write z h w s) = unused base K c z b s"
    unfolding unused_def live_objs_eq [OF s] live_objs_eq [OF t] ..
  moreover have "\<forall>g. obj_of base K c z b s g \<longrightarrow> obj_of base K c z b (obj_write z h w s) g"
    unfolding obj_of_eq [OF s] obj_of_eq [OF t] by blast
  ultimately show ?thesis by blast
qed

interpretation slab_cache: allocator "\<lambda>_. True" "cache_inv base K c z b" "unused base K c z b" "obj_of base K c z b"
  "obj_bytes z" "kmem_cache_alloc_opt c" "kmem_cache_free c" "obj_write z"
  for base :: addr and K :: nat and c z :: addr and b :: int
proof (unfold_locales, goal_cases)
  case (1 s k)
  from 1(1) show ?case by (cases rule: alloc_contract [where k = k]) blast+
next
  case (2 s k h t)
  from 2(1) show ?case
  proof (cases rule: alloc_contract [where k = k])
    case (2 u g)
    then show ?thesis using \<open>kmem_cache_alloc_opt c k s = Inr (Some h, t)\<close> by auto
  qed (use 2(3) in auto)
next
  case (3 s k t)
  from 3(1) show ?case
  proof (cases rule: alloc_contract [where k = k])
    case (1 u)
    then show ?thesis using \<open>kmem_cache_alloc_opt c k s = Inr (None, t)\<close> by auto
  qed (use 3(3) in auto)
next
  case (4 s h)
  then show ?case using free_contract [OF 4] by blast
next
  case (5 s h w)
  then show ?case using write_contract [OF 5(1,2)] by blast
qed

section \<open>Creation\<close>

lemma live_ok_single: "buddy_allocator.live_ok base K s (h # live) \<Longrightarrow> buddy_allocator.live_ok base K s [h]"
  unfolding buddy_allocator.live_ok_def by (simp add: apart_def)

definition new_cache :: "byte list \<Rightarrow> addr \<Rightarrow> int \<Rightarrow> addr \<Rightarrow> addr \<Rightarrow> addr \<Rightarrow> kmem_cache" where
  "new_cache nm z b ct dt nx = zero_cache\<lparr>ca_name := set_name nm (ca_name zero_cache), object_size := z,
     aligned_size := z + sizeof_kmem_object, slab_size := b, error_detection := SLAB_ERR_DETECT, ctor := ct, dtor := dt,
     ca_next := nx\<rparr>"

lemma new_cache_inv:
  assumes "buddy_allocator.live_ok base K u ((c, 1) # live)" and "c \<noteq> 0" and z: "size_ok z" "b \<in> slab_sizes" "0 < slab_objs z b"
    and "caches v c = new_cache nm z b ct dt nx"
    and e: "max_order v = max_order u" "free_list v = free_list u" "memory_start v = memory_start u" "mem v = mem u"
      "total_blocks v = total_blocks u" "free_blocks v = free_blocks u" "L_buddy \<notin> held v"
  shows "slab_inv base K c z b v (\<lambda>_. []) (\<lambda>_. []) []"
proof -
  have "cache_ok c z b v (\<lambda>_. []) (\<lambda>_. [])"
    unfolding cache_ok_def
  proof (intro conjI allI ballI)
    have "head_of l (caches v c) = 0" for l by (cases l) (simp_all add: assms(6) new_cache_def zero_cache_def)
    then show "cache_lists c v (\<lambda>_. [])" by (simp add: cache_lists_def)
  qed (use assms(2,6) in \<open>auto simp: new_cache_def zero_cache_def valid_cache_def all_slabs_def live_slots_def\<close>)
  moreover have "buddy_allocator.live_ok base K v (held_runs c b [])"
    unfolding held_runs_def using buddy_live_same [OF live_ok_single [OF assms(1)] e] by simp
  ultimately show ?thesis using z unfolding slab_inv_def by (simp add: all_slabs_def)
qed

lemma kmem_cache_create_eq:
  assumes "allocator_initialized s" and "size_ok z" and "buddy_alloc 1 s = Inr (c, u)" and "c \<noteq> 0"
    and "calculate_slab_size z = Inr b" and "L_cache_list \<notin> held u"
  shows "kmem_cache_create nm z ct dt s =
    bindR (kmem_cache_grow c (u\<lparr>caches := (caches u)(c := new_cache nm z b ct dt (cache_list u)), cache_list := c,
        held := insert (L_cache c) (held u)\<rparr>)) (\<lambda>(_, s).
    bindR (release (L_cache c) s) (\<lambda>s. Inr (c, s)))"
proof -
  have z: "z \<noteq> 0" "\<not> MAX_BUFFER_SIZE < z" using assms(2) by (auto simp: size_ok_def)
  have C: "(ca_next_update (\<lambda>_. nx) (last_shrink_state_update (\<lambda>_. 0) (error_state_update (\<lambda>_. 0) (dtor_update (\<lambda>_. dt)
      (ctor_update (\<lambda>_. ct) (error_detection_update (\<lambda>_. SLAB_ERR_DETECT) (slab_size_update (\<lambda>_. b)
      (aligned_size_update (\<lambda>_. z + sizeof_kmem_object) (object_size_update (\<lambda>_. z)
      (ca_name_update (set_name nm) zero_cache)))))))))) = new_cache nm z b ct dt nx" for nx
    by (simp add: new_cache_def zero_cache_def)
  have H: "insert L_cache_list (held u - {L_cache c}) - {L_cache_list} = held u - {L_cache c}"
    using assms(6) by auto
  show ?thesis
    using assms z by (simp add: kmem_cache_create_def Let_def upd_cache_def init_lock_def C H)
qed

lemma kmem_cache_create_ok:
  assumes s: "buddy_allocator.live_ok base K s live" and i: "allocator_initialized s" "L_cache_list \<notin> held s"
    and z: "size_ok z" "calculate_slab_size z = Inr b" "b \<in> slab_sizes" "0 < slab_objs z b"
    and f: "buddy_cells base K s \<noteq> {}"
  shows "\<exists>c t. kmem_cache_create nm z ct dt s = Inr (c, t) \<and> c \<noteq> 0 \<and> cache_inv base K c z b t \<and>
    live_objs base K c z b t = {}"
proof -
  obtain M where M: "buddy_state base K s M" using s unfolding buddy_allocator.live_ok_def buddy_inv_def by blast
  have o: "order_of 1 = 0" using order_of_pow2 [of 0] by simp
  obtain l i where "i \<in> set (M l)" using f unfolding buddy_cells_eq [OF M] by (auto simp: free_cells_iff fsets_def)
  then have "M l \<noteq> []" by auto
  then have "\<not> (buddy_alloc 1 s = Inr (0, s))"
    using buddy_alloc_some [OF M _ _ _, of 1 l] o M blk_ok(1) chunk_less
    by (auto simp: buddy_state_def buddy_ok_def)
  then obtain c u where u: "buddy_alloc 1 s = Inr (c, u)" "c \<noteq> 0" "buddy_allocator.live_ok base K u ((c, 1) # live)"
      "held u = held s" "buddy_st.more u = buddy_st.more s"
    using buddy_alloc_live [OF s, of 1] by auto
  let ?v = "u\<lparr>caches := (caches u)(c := new_cache nm z b ct dt (cache_list u)), cache_list := c, held := insert (L_cache c) (held u)\<rparr>"
  have lb: "L_buddy \<notin> held u" using M u(4) by (simp add: buddy_state_def)
  have v: "slab_inv base K c z b ?v (\<lambda>_. []) (\<lambda>_. []) []"
    by (rule new_cache_inv [OF u(3,2) z(1,3,4)]) (use lb in simp_all)
  have "L_cache_list \<notin> held u" using i(2) u(4) by simp
  note eq = kmem_cache_create_eq [OF i(1) z(1) u(1,2) z(2) this, of nm ct dt]
  have fin: ?thesis if g: "kmem_cache_grow c ?v = Inr (r, t)" "slab_inv base K c z b t L F xs" "live_slots z b L F = {}" "held t = held ?v"
    for r t L F xs
  proof -
    let ?t = "t\<lparr>held := held t - {L_cache c}\<rparr>"
    have "kmem_cache_create nm z ct dt s = Inr (c, ?t)" unfolding eq g(1) using g(4) by simp
    moreover have w: "slab_inv base K c z b ?t L F xs"
      by (rule slab_inv_held [OF g(2)]) (use slab_inv_buddy [OF g(2)] in simp)
    moreover have "cache_inv base K c z b ?t" using w unfolding cache_inv_def by auto
    moreover have "live_objs base K c z b ?t = {}" unfolding live_objs_eq [OF w] g(3) by simp
    ultimately show ?thesis using u(2) by blast
  qed
  from v show ?thesis
  proof (cases rule: kmem_cache_grow_ok)
    case 1
    show ?thesis by (rule fin [OF 1 slab_inv_error [OF v]]) (simp_all add: live_slots_def all_slabs_def upd_cache_def)
  next
    case (2 x t N G)
    have "live_slots z b N G = {}" unfolding 2(5) by (simp add: live_slots_def all_slabs_def)
    then show ?thesis by (rule fin [OF 2(1,2) _ 2(6)])
  qed
qed

section \<open>Slab sizes\<close>

lemma slab_size_step:
  assumes "b \<in> {1, 2, 4, 8}" and "size_ok z"
  shows "slab_size_loop z b (word_of_int (b * 4096)) =
    (if 8 \<le> slab_objs z b then Some b else slab_size_loop z (2 * b) (word_of_int (2 * b * 4096)))"
proof -
  have "b \<in> slab_sizes" "b < 16" using assms(1) by (auto simp: slab_sizes_def)
  then have "8 \<le> OBJECTS_PER_SLAB z (word_of_int (b * 4096)) \<longleftrightarrow> 8 \<le> slab_objs z b"
    using OBJECTS_PER_SLAB_eq(1) [OF _ assms(2)] by (simp add: word_le_nat_alt)
  then show ?thesis using \<open>b < 16\<close> by (subst slab_size_loop.simps) (simp add: Let_def mult.commute)
qed

lemma calculate_slab_size_min:
  assumes z: "size_ok z"
  shows "\<exists>b \<in> slab_sizes. calculate_slab_size z = Inr b \<and> (8 \<le> slab_objs z b \<or> b = 16) \<and>
    (\<forall>d \<in> slab_sizes. d < b \<longrightarrow> slab_objs z d < 8)"
proof -
  note st = slab_size_step [OF _ z]
  have c: "calculate_slab_size z = of_loop (slab_size_loop z 1 (word_of_int (1 * 4096)))" by (simp add: calculate_slab_size_def)
  have e: "slab_size_loop z 16 w = Some 16" for w by (rule slab_size_loop_steps(1))
  have "slab_size_loop z 1 (word_of_int (1 * 4096)) =
    Some (if 8 \<le> slab_objs z 1 then 1 else if 8 \<le> slab_objs z 2 then 2 else if 8 \<le> slab_objs z 4 then 4
      else if 8 \<le> slab_objs z 8 then 8 else 16)"
    using st [of 1] st [of 2] st [of 4] st [of 8] e by simp
  then show ?thesis unfolding c by (auto simp: slab_sizes_def not_le)
qed

lemma slab_objs_pos: "unat z \<le> 65472 \<Longrightarrow> 8 \<le> slab_objs z b \<or> b = 16 \<Longrightarrow> 0 < slab_objs z b"
  by (elim disjE) (simp, simp add: slab_objs_def div_greater_zero_iff)

section \<open>Properties\<close>

lemma apart_distinct: "apart ext live \<Longrightarrow> (\<And>h. ext h \<noteq> {}) \<Longrightarrow> distinct live"
  by (induction live) (auto simp: apart_Cons)

lemma slab_cache_live:
  assumes s: "slab_cache.live_ok base K c z b t live" and sp: "slab_cache.space base K c z b t live = UNIV"
  shows "set live = live_objs base K c z b t" "num_allocated (caches t c) = of_nat (length live)"
    "\<forall>h \<in> set live. obj_bytes z h \<inter> block_bytes base (buddy_cells base K t) = {}"
proof -
  obtain L F xs where i: "slab_inv base K c z b t L F xs"
    using s unfolding slab_cache.live_ok_def cache_inv_def by blast
  note S = slab_invD [OF i]
  have wf: "\<exists>x p. x \<in> all_slabs L \<and> p \<in> slots z b x \<and> h = p + 16 \<and> p \<in> live_slots z b L F" if h: "h \<in> set live" for h
  proof -
    have o: "obj_of base K c z b t h" "obj_bytes z h \<inter> unused base K c z b t = {}"
      using s h unfolding slab_cache.live_ok_def by blast+
    obtain x p where x: "x \<in> all_slabs L" "p \<in> slots z b x" "h = p + 16" using o(1) unfolding obj_of_eq [OF i] by blast
    have "p \<in> live_slots z b L F" by (rule obj_used [OF i x(1,2)]) (use o(2) x(3) in simp)
    then show ?thesis using x by blast
  qed
  show eq: "set live = live_objs base K c z b t"
  proof (intro equalityI subsetI)
    fix h assume "h \<in> set live"
    then show "h \<in> live_objs base K c z b t" unfolding live_objs_eq [OF i] using wf by blast
  next
    fix h assume "h \<in> live_objs base K c z b t"
    then obtain p where p: "p \<in> live_slots z b L F" "h = p + 16" unfolding live_objs_eq [OF i] by blast
    then obtain x where x: "x \<in> all_slabs L" "p \<in> slots z b x" using live_slot_slab by blast
    have h: "h \<in> obj_bytes z h" by (rule obj_bytes_self [OF S(2)])
    then have "h \<notin> unused base K c z b t" using p unfolding unused_def live_objs_eq [OF i] by blast
    then obtain g where g: "g \<in> set live" "h \<in> obj_bytes z g" using sp unfolding slab_cache.space_def by blast
    obtain y q where q: "y \<in> all_slabs L" "q \<in> slots z b y" "g = q + 16" using wf [OF g(1)] by blast
    have "p = q" using objs_disjoint [OF i x q(1,2)] h g(2) p(2) q(3) by blast
    then show "h \<in> set live" using g(1) p(2) q(3) by simp
  qed
  have "distinct live"
  proof (rule apart_distinct)
    show "apart (obj_bytes z) live" using s unfolding slab_cache.live_ok_def by blast
    show "obj_bytes z h \<noteq> {}" for h using obj_bytes_self [OF S(2), of h] by blast
  qed
  then have "length live = card (set live)" by (simp add: distinct_card)
  also have "\<dots> = card (live_slots z b L F)" unfolding eq live_objs_eq [OF i] by (rule card_image) (simp add: inj_on_def)
  finally show "num_allocated (caches t c) = of_nat (length live)" using S(4) unfolding cache_ok_def by simp
  show "\<forall>h \<in> set live. obj_bytes z h \<inter> block_bytes base (buddy_cells base K t) = {}"
    using wf obj_outside [OF i] by blast
qed

lemma slab_offset_bound:
  "size_ok z \<Longrightarrow> b \<in> slab_sizes \<Longrightarrow> \<forall>i < slab_objs z b. 48 + i * (unat z + 16) + 16 + unat z \<le> nat b * 4096"
  using slot_offset(2) by blast

lemma kmem_boot:
  assumes "region base K" and "length (free_list s) = MAX_ORDER" and "free_list s ! Suc K = 0" and "L_cache_list \<notin> held s"
  obtains t where "kmem_init base (2 ^ K) s = Inr t" "buddy_allocator.live_ok base K t []" "buddy_cells base K t \<noteq> {}"
    "allocator_initialized t" "L_cache_list \<notin> held t"
proof -
  obtain u where u: "buddy_init base (2 ^ K) s = Inr u" "buddy_state base K u (whole K)"
    using buddy_init_ok [OF assms(1-3)] by blast
  let ?t = "u\<lparr>held := held u - {L_cache_list} - {L_buffer_cache}, buffer_caches := replicate NUM_BUFFER_CACHES 0,
    allocator_initialized := True\<rparr>"
  have t: "kmem_init base (2 ^ K) s = Inr ?t" using u(1) by (simp add: kmem_init_def Let_def init_lock_def)
  have "L_buddy \<notin> held u" using u(2) by (simp add: buddy_state_def)
  then have b: "buddy_state base K ?t (whole K)" by (intro buddy_state_same [OF u(2)]) simp_all
  have "buddy_allocator.live_ok base K ?t []"
    by (simp add: buddy_allocator.live_ok_def apart_def buddy_state_inv [OF b])
  moreover have "buddy_cells base K ?t \<noteq> {}" unfolding buddy_cells_eq [OF b] whole_free by simp
  ultimately show thesis by (intro that [OF t]) simp_all
qed





end
