(* ===== verification/Grep.thy ===== *)
theory Grep
  imports Cstring
begin

text \<open>
  \<^verbatim>\<open>user/grep.c\<close>: the pattern matcher and the loop that reads a file in pieces and prints the lines that match.
  Pattern and text are the bytes before the terminating NUL, so that reading past the last byte gives NUL. The
  matcher is shown equal to membership in the language of the pattern, and the loop to print the matching lines of the
  input however the \<^verbatim>\<open>read\<close> calls cut it.
\<close>

section \<open>The matcher\<close>

function matchhere :: "byte list \<Rightarrow> byte list \<Rightarrow> bool" and matchstar :: "byte \<Rightarrow> byte list \<Rightarrow> byte list \<Rightarrow> bool" where
  "matchhere re text =
     (if re = [] then True
      else if chr re 1 = 42 then matchstar (chr re 0) (drop 2 re) text
      else if chr re 0 = 36 \<and> chr re 1 = 0 then chr text 0 = 0
      else if chr text 0 \<noteq> 0 \<and> (chr re 0 = 46 \<or> chr re 0 = chr text 0) then matchhere (drop 1 re) (drop 1 text)
      else False)"
| "matchstar c re text =
     (if matchhere re text then True
      else if chr text 0 \<noteq> 0 \<and> (chr text 0 = c \<or> c = 46) then matchstar c re (drop 1 text)
      else False)"
  by pat_completeness auto
termination
  by (relation "measures [\<lambda>x. case x of Inl (re, _) \<Rightarrow> length re | Inr (_, re, _) \<Rightarrow> length re,
      \<lambda>x. case x of Inl (_, text) \<Rightarrow> length text | Inr (_, _, text) \<Rightarrow> length text,
      \<lambda>x. case x of Inl _ \<Rightarrow> 0 | Inr _ \<Rightarrow> 1]")
    (auto simp: chr_def neq_Nil_conv split: if_splits)

declare matchhere.simps [simp del] matchstar.simps [simp del]

fun match_loop :: "byte list \<Rightarrow> byte list \<Rightarrow> bool" where
  "match_loop re [] = matchhere re []"
| "match_loop re (a # text) = (matchhere re (a # text) \<or> match_loop re text)"

definition match :: "byte list \<Rightarrow> byte list \<Rightarrow> bool" where
  "match re text = (if chr re 0 = 94 then matchhere (drop 1 re) text else match_loop re text)"

section \<open>The loop over a file\<close>

text \<open>
  The lines of the buffer from \<open>p\<close> on: \<^verbatim>\<open>strchr\<close> finds a newline before the first NUL, or nothing. The result is
  what is written and what is left at \<open>p\<close> at the end.
\<close>

definition find_newline :: "byte list \<Rightarrow> nat option" where
  "find_newline b =
     (let k = length (takeWhile (\<lambda>c. c \<noteq> 10 \<and> c \<noteq> 0) b)
      in if k < length b \<and> b ! k = 10 then Some k else None)"

function grep_lines :: "byte list \<Rightarrow> byte list \<Rightarrow> byte list \<Rightarrow> byte list \<times> byte list" where
  "grep_lines pattern b out =
     (case find_newline b of
        None \<Rightarrow> (out, b)
      | Some q \<Rightarrow>
          grep_lines pattern (drop (q + 1) b)
            (if match pattern (take q b) then out @ take (q + 1) b else out))"
  by pat_completeness auto
termination
  by (relation "measure (\<lambda>(_, b, _). length b)") (auto simp: find_newline_def Let_def split: if_splits)

declare grep_lines.simps [simp del]

definition BUFSZ :: nat where "BUFSZ = 1024"

text \<open>
  \<^verbatim>\<open>read\<close> is the argument \<open>rd\<close>: asked for at most \<open>k\<close> bytes it returns some and the new state of the file; no bytes
  stand for a result of 0 or less.
\<close>

partial_function (option) grep_loop ::
  "(nat \<Rightarrow> 's \<Rightarrow> byte list \<times> 's) \<Rightarrow> byte list \<Rightarrow> byte list \<Rightarrow> byte list \<Rightarrow> 's \<Rightarrow> byte list option"
where
  "grep_loop rd pattern b out s =
     (let (c, s) = rd (BUFSZ - length b - 1) s
      in if c = [] then Some out
         else (let (out, b) = grep_lines pattern (b @ c) out in grep_loop rd pattern b out s))"

definition grep :: "(nat \<Rightarrow> 's \<Rightarrow> byte list \<times> 's) \<Rightarrow> byte list \<Rightarrow> 's \<Rightarrow> byte list option" where
  "grep rd pattern s = grep_loop rd pattern [] [] s"

section \<open>The language of a pattern\<close>

datatype atom = Chr byte | Any

datatype piece = One atom | Many atom

fun sat :: "atom \<Rightarrow> byte \<Rightarrow> bool" where
  "sat (Chr c) a = (a = c)"
| "sat Any a = True"

fun lang :: "piece list \<Rightarrow> byte list set" where
  "lang [] = {[]}"
| "lang (One t # ps) = {a # w | a w. sat t a \<and> w \<in> lang ps}"
| "lang (Many t # ps) = {u @ w | u w. (\<forall>a \<in> set u. sat t a) \<and> w \<in> lang ps}"

definition atom_of :: "byte \<Rightarrow> atom" where
  "atom_of c = (if c = 46 then Any else Chr c)"

text \<open>The pieces of a pattern after a leading \<open>^\<close>, and whether it ends in \<open>$\<close>.\<close>

fun pieces :: "byte list \<Rightarrow> piece list \<times> bool" where
  "pieces [] = ([], False)"
| "pieces [c] = (if c = 36 then ([], True) else ([One (atom_of c)], False))"
| "pieces (c # d # re) =
     (if d = 42 then (let (ps, e) = pieces re in (Many (atom_of c) # ps, e))
      else (let (ps, e) = pieces (d # re) in (One (atom_of c) # ps, e)))"

definition matches_at :: "byte list \<Rightarrow> byte list \<Rightarrow> bool" where
  "matches_at re text \<longleftrightarrow>
     (\<exists>w v. text = w @ v \<and> w \<in> lang (fst (pieces re)) \<and> (snd (pieces re) \<longrightarrow> v = []))"

lemma sat_atom_of: "sat (atom_of c) a \<longleftrightarrow> c = 46 \<or> a = c"
  by (simp add: atom_of_def)

lemma matches_at_Nil [simp]: "matches_at [] text"
  by (simp add: matches_at_def)

lemma matches_at_end: "matches_at [36] text \<longleftrightarrow> text = []"
  by (simp add: matches_at_def)

lemma pieces_one: "chr re 1 \<noteq> 42 \<Longrightarrow> re \<noteq> [] \<Longrightarrow> \<not> (chr re 0 = 36 \<and> tl re = []) \<Longrightarrow>
  pieces re = (One (atom_of (hd re)) # fst (pieces (tl re)), snd (pieces (tl re)))"
  by (cases re rule: pieces.cases) (auto simp: chr_def split: prod.splits)

lemma pieces_many: "chr re 1 = 42 \<Longrightarrow> pieces re = (Many (atom_of (hd re)) # fst (pieces (drop 2 re)), snd (pieces (drop 2 re)))"
  by (cases re rule: pieces.cases) (auto simp: chr_def split: prod.splits)

lemma matches_at_one:
  assumes "pieces re = (One t # fst (pieces re'), snd (pieces re'))"
  shows "matches_at re text \<longleftrightarrow> text \<noteq> [] \<and> sat t (hd text) \<and> matches_at re' (tl text)"
proof
  assume "matches_at re text"
  then obtain a w v where "text = (a # w) @ v" "sat t a" "w \<in> lang (fst (pieces re'))" "snd (pieces re') \<longrightarrow> v = []"
    unfolding matches_at_def assms fst_conv snd_conv lang.simps by blast
  moreover from this have "matches_at re' (w @ v)" unfolding matches_at_def by blast
  ultimately show "text \<noteq> [] \<and> sat t (hd text) \<and> matches_at re' (tl text)" by simp
next
  assume a: "text \<noteq> [] \<and> sat t (hd text) \<and> matches_at re' (tl text)"
  then obtain w v where w: "tl text = w @ v" "w \<in> lang (fst (pieces re'))" "snd (pieces re') \<longrightarrow> v = []"
    unfolding matches_at_def by blast
  have "text = (hd text # w) @ v" using a w(1) by (cases "text") auto
  then show "matches_at re text"
    unfolding matches_at_def assms fst_conv snd_conv lang.simps using a w(2,3) by blast
qed

lemma chr_0: "0 \<notin> set s \<Longrightarrow> chr s 0 = 0 \<longleftrightarrow> s = []" "s \<noteq> [] \<Longrightarrow> chr s 0 = hd s"
  by (cases s; auto simp: chr_def)+

lemma chr_1: "0 \<notin> set s \<Longrightarrow> s \<noteq> [] \<Longrightarrow> chr s 1 = 0 \<longleftrightarrow> tl s = []"
  by (cases s; cases "tl s") (auto simp: chr_def)

lemma zero_drop: "0 \<notin> set s \<Longrightarrow> 0 \<notin> set (drop k s)"
  using in_set_dropD by fastforce

text \<open>\<^verbatim>\<open>matchhere\<close> and \<^verbatim>\<open>matchstar\<close> decide the language.\<close>

definition star_at :: "byte \<Rightarrow> byte list \<Rightarrow> byte list \<Rightarrow> bool" where
  "star_at c re text \<longleftrightarrow> (\<exists>u w. text = u @ w \<and> (\<forall>a \<in> set u. sat (atom_of c) a) \<and> matches_at re w)"

lemma star_at_step:
  "star_at c re text \<longleftrightarrow> matches_at re text \<or> text \<noteq> [] \<and> sat (atom_of c) (hd text) \<and> star_at c re (tl text)"
proof
  assume "star_at c re text"
  then obtain u w where u: "text = u @ w" "\<forall>a \<in> set u. sat (atom_of c) a" "matches_at re w"
    unfolding star_at_def by blast
  show "matches_at re text \<or> text \<noteq> [] \<and> sat (atom_of c) (hd text) \<and> star_at c re (tl text)"
  proof (cases u)
    case (Cons a u')
    then have "star_at c re (tl text)" unfolding star_at_def using u by (intro exI [of _ u'] exI [of _ w]) simp
    then show ?thesis using u Cons by simp
  qed (use u in simp)
next
  assume "matches_at re text \<or> text \<noteq> [] \<and> sat (atom_of c) (hd text) \<and> star_at c re (tl text)"
  then show "star_at c re text"
  proof
    assume "matches_at re text"
    then show ?thesis unfolding star_at_def by (intro exI [of _ "[]"] exI [of _ "text"]) simp
  next
    assume a: "text \<noteq> [] \<and> sat (atom_of c) (hd text) \<and> star_at c re (tl text)"
    then obtain u w where u: "tl text = u @ w" "\<forall>a \<in> set u. sat (atom_of c) a" "matches_at re w"
      unfolding star_at_def by blast
    have "text = (hd text # u) @ w" using a u(1) by (cases "text") auto
    moreover have "\<forall>x \<in> set (hd text # u). sat (atom_of c) x" using a u(2) by simp
    ultimately show ?thesis unfolding star_at_def using u(3) by blast
  qed
qed

lemma matches_at_star:
  assumes "chr re 1 = 42"
  shows "matches_at re text \<longleftrightarrow> star_at (hd re) (drop 2 re) text"
proof
  assume "matches_at re text"
  then obtain u w v where "text = (u @ w) @ v" "\<forall>a \<in> set u. sat (atom_of (hd re)) a"
      "w \<in> lang (fst (pieces (drop 2 re)))" "snd (pieces (drop 2 re)) \<longrightarrow> v = []"
    unfolding matches_at_def pieces_many [OF assms] fst_conv snd_conv lang.simps by blast
  then show "star_at (hd re) (drop 2 re) text"
    unfolding star_at_def matches_at_def by (intro exI [of _ u] exI [of _ "w @ v"]) auto
next
  assume "star_at (hd re) (drop 2 re) text"
  then obtain u w v where u: "text = u @ w @ v" "\<forall>a \<in> set u. sat (atom_of (hd re)) a"
      "w \<in> lang (fst (pieces (drop 2 re)))" "snd (pieces (drop 2 re)) \<longrightarrow> v = []"
    unfolding star_at_def matches_at_def by blast
  have "u @ w \<in> lang (Many (atom_of (hd re)) # fst (pieces (drop 2 re)))" using u(2,3) by auto
  then show "matches_at re text"
    unfolding matches_at_def pieces_many [OF assms] using u(1,4)
    by (intro exI [of _ "u @ w"] exI [of _ v]) simp
qed

lemma matcher_lang:
  "0 \<notin> set re \<Longrightarrow> 0 \<notin> set text \<Longrightarrow> matchhere re text = matches_at re text"
  "0 \<notin> set re \<Longrightarrow> 0 \<notin> set text \<Longrightarrow> matchstar c re text = star_at c re text"
proof (induction re "text" and c re "text" rule: matchhere_matchstar.induct)
  case (1 re tx)
  note z = zero_drop [OF 1(3)] zero_drop [OF 1(4)]
  show ?case
  proof (cases "re = []")
    case re: False
    show ?thesis
    proof (cases "chr re 1 = 42")
      case True
      have "matchhere re tx = matchstar (chr re 0) (drop 2 re) tx" using re True by (subst matchhere.simps) simp
      then show ?thesis using 1(1) [OF re True z(1) 1(4)] chr_0(2) [OF re] matches_at_star [OF True] by simp
    next
      case star: False
      show ?thesis
      proof (cases "chr re 0 = 36 \<and> chr re 1 = 0")
        case True
        then have "re = [36]" using re chr_1 [OF 1(3) re] chr_0(2) [OF re] by (cases re) auto
        then show ?thesis using chr_0(1) [OF 1(4)] by (subst matchhere.simps) (simp add: chr_def matches_at_end)
      next
        case False
        then have n: "\<not> (chr re 0 = 36 \<and> tl re = [])" using chr_1 [OF 1(3) re] by blast
        note p = matches_at_one [OF pieces_one [OF star re n], of "tx"]
        have g: "chr tx 0 \<noteq> 0 \<and> (chr re 0 = 46 \<or> chr re 0 = chr tx 0) \<longleftrightarrow> tx \<noteq> [] \<and> sat (atom_of (hd re)) (hd tx)"
          using chr_0(1) [OF 1(4)] chr_0(2) [OF re] chr_0(2) [of "tx"] by (auto simp: sat_atom_of)
        show ?thesis
          using 1(2) [OF re star False _ z] re star False g p by (subst matchhere.simps) (auto simp: drop_Suc)
      qed
    qed
  qed (simp add: matchhere.simps)
next
  case (2 c re tx)
  have m: "matchhere re tx = matches_at re tx" by (rule 2(1) [OF 2(3,4)])
  have g: "chr tx 0 \<noteq> 0 \<and> (chr tx 0 = c \<or> c = 46) \<longleftrightarrow> tx \<noteq> [] \<and> sat (atom_of c) (hd tx)"
    using chr_0(1) [OF 2(4)] chr_0(2) [of "tx"] by (auto simp: sat_atom_of)
  show ?case
    using 2(2) [OF _ _ 2(3) zero_drop [OF 2(4)]] m g star_at_step [of c re "tx"]
    by (subst matchstar.simps) (auto simp: drop_Suc)
qed

lemma match_loop_iff: "match_loop re text \<longleftrightarrow> (\<exists>u v. text = u @ v \<and> matchhere re v)"
proof (induction "text")
  case (Cons a tx)
  show ?case
  proof
    assume "match_loop re (a # tx)"
    then consider "matchhere re (a # tx)" | u v where "tx = u @ v" "matchhere re v" using Cons by auto
    then show "\<exists>u v. a # tx = u @ v \<and> matchhere re v"
      by cases (metis append_Nil, metis append_Cons)
  next
    assume "\<exists>u v. a # tx = u @ v \<and> matchhere re v"
    then obtain u v where "a # tx = u @ v" "matchhere re v" by blast
    then show "match_loop re (a # tx)" using Cons by (cases u) auto
  qed
qed simp

text \<open>
  C36: The matcher of \<^verbatim>\<open>grep\<close> decides the language of its pattern: \<^verbatim>\<open>match(re, text)\<close> holds exactly when some part
  of the text, starting at its beginning when the pattern starts with \<open>^\<close> and reaching its end when the pattern ends
  with \<open>$\<close>, is in the language of the pattern, in which \<open>.\<close> stands for any byte and \<open>c*\<close> for any number of them.
\<close>

theorem grep_match_language:
  assumes "0 \<notin> set re" and "0 \<notin> set text"
  shows "match re text \<longleftrightarrow>
    (\<exists>u v. text = u @ v \<and> (chr re 0 = 94 \<longrightarrow> u = []) \<and> matches_at (if chr re 0 = 94 then drop 1 re else re) v)"
proof (cases "chr re 0 = 94")
  case True
  then show ?thesis using matcher_lang(1) [OF zero_drop [OF assms(1)] assms(2)] by (simp add: match_def)
next
  case False
  have "matchhere re v = matches_at re v" if "text = u @ v" for u v
    using matcher_lang(1) [OF assms(1), of v] assms(2) that by simp
  then show ?thesis using False match_loop_iff [of re "text"] by (auto simp: match_def)
qed

theorem grep_match_language_witness:
  "match [97, 42, 36] [98, 97, 97] = (\<exists>u v. [98, 97, 97] = u @ v \<and> matches_at [97, 42, 36] v)"
  using grep_match_language [of "[97, 42, 36]" "[98, 97, 97]"] by (simp add: chr_def)

section \<open>The lines printed\<close>

text \<open>A file from which \<^verbatim>\<open>read\<close> delivers the given bytes, in pieces of any size up to the one asked for.\<close>

inductive delivers :: "(nat \<Rightarrow> 's \<Rightarrow> byte list \<times> 's) \<Rightarrow> 's \<Rightarrow> byte list \<Rightarrow> bool" for rd where
  delivers_end: "(\<forall>k. fst (rd k s) = []) \<Longrightarrow> delivers rd s []"
| delivers_more: "(\<forall>k > 0. \<exists>c u r. rd k s = (c, u) \<and> c \<noteq> [] \<and> length c \<le> k \<and> inp = c @ r \<and> delivers rd u r) \<Longrightarrow>
    delivers rd s inp"

abbreviation nl :: "byte list \<Rightarrow> byte list" where "nl l \<equiv> l @ [10]"

definition plain :: "byte list \<Rightarrow> bool" where
  "plain l \<longleftrightarrow> 10 \<notin> set l \<and> 0 \<notin> set l \<and> length l < 1023"

lemma find_newline_nl:
  assumes "10 \<notin> set l" and "0 \<notin> set l"
  shows "find_newline (l @ 10 # x) = Some (length l)"
proof -
  have "takeWhile (\<lambda>c. c \<noteq> 10 \<and> c \<noteq> 0) l = l" using assms by (auto simp: takeWhile_eq_all_conv)
  then show ?thesis by (simp add: find_newline_def Let_def takeWhile_tail)
qed

lemma find_newline_none:
  assumes "10 \<notin> set l"
  shows "find_newline l = None"
proof -
  have "l ! k \<noteq> 10" if "k < length l" for k using assms that by (metis nth_mem)
  then show ?thesis by (simp add: find_newline_def Let_def)
qed

lemma grep_lines_eq:
  "\<forall>l \<in> set ls. plain l \<Longrightarrow> 10 \<notin> set r \<Longrightarrow>
   grep_lines pattern (concat (map nl ls) @ r) out = (out @ concat (map nl (filter (match pattern) ls)), r)"
proof (induction ls arbitrary: out)
  case Nil
  then show ?case by (subst grep_lines.simps) (simp add: find_newline_none)
next
  case (Cons l ls)
  have "find_newline (concat (map nl (l # ls)) @ r) = Some (length l)"
    using find_newline_nl [of l "concat (map nl ls) @ r"] Cons.prems by (simp add: plain_def)
  then show ?case using Cons by (subst grep_lines.simps) simp
qed

lemma split_lines:
  "x @ y = concat (map nl ls) @ e \<Longrightarrow> \<forall>l \<in> set (e # ls). plain l \<Longrightarrow>
   \<exists>us vs r. x = concat (map nl us) @ r \<and> ls = us @ vs \<and> r @ y = concat (map nl vs) @ e \<and> plain r"
proof (induction ls arbitrary: x)
  case Nil
  then have "plain x" by (auto simp: plain_def)
  with Nil show ?case by (intro exI [of _ "[]"] exI [of _ "[]"] exI [of _ x]) simp
next
  case (Cons l ls)
  have eq: "x @ y = l @ 10 # concat (map nl ls) @ e" using Cons.prems(1) by simp
  show ?case
  proof (cases "length x \<le> length l")
    case True
    then have "x = take (length x) l" using arg_cong [OF eq, of "take (length x)"] by simp
    then have "set x \<subseteq> set l" "length x \<le> length l" using set_take_subset [of "length x" l] True by auto
    then have "plain x" using Cons.prems(2) by (auto simp: plain_def)
    with Cons.prems(1) show ?thesis by (intro exI [of _ "[]"] exI [of _ "l # ls"] exI [of _ x]) simp
  next
    case False
    then obtain z where "x = l @ z" using eq by (auto simp: append_eq_append_conv2)
    then obtain x' where x': "x = l @ 10 # x'" "x' @ y = concat (map nl ls) @ e" using eq False by (cases z) auto
    obtain us vs r where "x' = concat (map nl us) @ r" "ls = us @ vs" "r @ y = concat (map nl vs) @ e" "plain r"
      using Cons.IH [OF x'(2)] Cons.prems(2) by auto
    then show ?thesis using x'(1) by (intro exI [of _ "l # us"] exI [of _ vs] exI [of _ r]) simp
  qed
qed

lemma grep_loop_eq:
  assumes "delivers rd s inp"
  shows "plain b \<Longrightarrow> b @ inp = concat (map nl ls) @ e \<Longrightarrow> \<forall>l \<in> set (e # ls). plain l \<Longrightarrow>
    grep_loop rd pattern b out s = Some (out @ concat (map nl (filter (match pattern) ls)))"
  using assms
proof (induction arbitrary: b ls out)
  case (delivers_end s)
  have "ls = []" using delivers_end.prems(1,2) by (cases ls) (auto simp: plain_def)
  moreover obtain u where "rd (BUFSZ - length b - 1) s = ([], u)" using delivers_end.hyps by (metis prod.collapse)
  ultimately show ?case by (subst grep_loop.simps) (simp add: Let_def)
next
  case (delivers_more s inp)
  have k: "0 < BUFSZ - length b - 1" using delivers_more.prems(1) by (simp add: plain_def BUFSZ_def)
  from delivers_more.IH [rule_format, OF k] obtain c u r where c: "rd (BUFSZ - length b - 1) s = (c, u)" "c \<noteq> []" "inp = c @ r"
    and IH: "\<And>b ls out. plain b \<Longrightarrow> b @ r = concat (map nl ls) @ e \<Longrightarrow> \<forall>l \<in> set (e # ls). plain l \<Longrightarrow>
      grep_loop rd pattern b out u = Some (out @ concat (map nl (filter (match pattern) ls)))" by blast
  have "(b @ c) @ r = concat (map nl ls) @ e" using delivers_more.prems(2) c(3) by simp
  from split_lines [OF this delivers_more.prems(3)]
  obtain us vs q where q: "b @ c = concat (map nl us) @ q" "ls = us @ vs" "q @ r = concat (map nl vs) @ e" "plain q" by blast
  have g: "grep_lines pattern (b @ c) out = (out @ concat (map nl (filter (match pattern) us)), q)"
    unfolding q(1) by (rule grep_lines_eq) (use delivers_more.prems(3) q(2,4) in \<open>auto simp: plain_def\<close>)
  have "\<forall>l \<in> set (e # vs). plain l" using delivers_more.prems(3) q(2) by simp
  from IH [OF q(4,3) this] show ?case using c(1,2) g q(2) by (subst grep_loop.simps) (simp add: Let_def)
qed

text \<open>
  C37: \<^verbatim>\<open>grep\<close> terminates and prints exactly the lines of its input that match, in order and each with its newline,
  however the calls of \<^verbatim>\<open>read\<close> cut the input, provided that no line has more than 1022 bytes or contains a NUL. A last
  line without a newline is not printed.
\<close>

theorem grep_prints_matching_lines:
  assumes "delivers rd s (concat (map nl ls) @ e)" and "\<forall>l \<in> set (e # ls). plain l"
  shows "grep rd pattern s = Some (concat (map nl (filter (match pattern) ls)))"
  unfolding grep_def using grep_loop_eq [OF assms(1), of "[]" ls e pattern "[]"] assms(2) by (simp add: plain_def)

definition one_byte :: "nat \<Rightarrow> byte list \<Rightarrow> byte list \<times> byte list" where
  "one_byte k f = (if k = 0 then ([], f) else (take 1 f, drop 1 f))"

lemma one_byte_delivers: "delivers one_byte f f"
proof (induction f)
  case Nil
  show ?case by (rule delivers_end) (simp add: one_byte_def)
next
  case (Cons a f)
  show ?case by (rule delivers_more) (use Cons in \<open>auto simp: one_byte_def\<close>)
qed

theorem grep_prints_matching_lines_witness:
  "grep one_byte [97] [98, 97, 10, 99, 10, 97, 10] = Some [98, 97, 10, 97, 10]"
proof -
  have "plain [98, 97]" "plain [99]" "plain [97]" "plain []" by (simp_all add: plain_def)
  moreover have "match [97] [98, 97]" "\<not> match [97] [99]" "match [97] [97]"
    by (simp_all add: match_def matchhere.simps chr_def)
  ultimately show ?thesis
    using grep_prints_matching_lines [of one_byte "[98, 97, 10, 99, 10, 97, 10]" "[[98, 97], [99], [97]]" "[]" "[97]"]
      one_byte_delivers [of "[98, 97, 10, 99, 10, 97, 10]"] by simp
qed

end
