(* ===== verification/Printf.thy ===== *)
theory Printf
  imports Console
begin

text \<open>
  \<^verbatim>\<open>kernel/printf.c\<close> and \<^verbatim>\<open>user/printf.c\<close>. The two files have the same \<^verbatim>\<open>printint\<close>, \<^verbatim>\<open>printptr\<close> and conversions up to the
  table of digits and the function that takes a byte, which are arguments here; the loops over the format differ and
  are shown equal. A format is the list of its bytes before the NUL. \<^verbatim>\<open>panicked\<close>, which stops the output of the other
  CPUs once it is set, is 0 while \<^verbatim>\<open>panic\<close> prints.
\<close>

type_synonym u64 = "64 word"

section \<open>Numbers\<close>

definition lit :: "string \<Rightarrow> byte list" where
  "lit cs = map of_char cs"

definition kdigits :: "byte list" where
  "kdigits = lit ''0123456789abcdef''"

definition udigits :: "byte list" where
  "udigits = lit ''0123456789ABCDEF''"

text \<open>
  The loop that fills \<^verbatim>\<open>buf\<close> with the digits, the last one first; \<open>b\<close> is the part of the 20 bytes written so far, and
  a write after them is a fault.
\<close>

function digit_loop :: "byte list \<Rightarrow> u64 \<Rightarrow> u64 \<Rightarrow> byte list \<Rightarrow> byte list res" where
  "digit_loop tab base x b =
     (if length b < 20 then
        (let b = b @ [tab ! unat (x mod base)]; x = x div base in
         if x \<noteq> 0 then digit_loop tab base x b else Inr b)
      else Inl (Fault ''printint: buf''))"
  by pat_completeness auto
termination
  by (relation "measure (\<lambda>(_, _, _, b). 20 - length b)") auto

declare digit_loop.simps [simp del]

text \<open>\<^verbatim>\<open>-xx\<close> for the least \<^verbatim>\<open>long long\<close> is a signed overflow, which C leaves undefined.\<close>

definition printint ::
  "byte list \<Rightarrow> (int \<Rightarrow> 's \<Rightarrow> 's) \<Rightarrow> u64 \<Rightarrow> u64 \<Rightarrow> bool \<Rightarrow> 's \<Rightarrow> 's res"
where
  "printint tab emit xx base sign s =
     (let neg = (sign \<and> sint xx < 0) in
      if neg \<and> sint xx = - (2 ^ 63) then Inl (Fault ''printint: overflow'')
      else
        bindR (digit_loop tab base (if neg then - xx else xx) []) (\<lambda>b.
        bindR (if neg then (if length b < 20 then Inr (b @ [45]) else Inl (Fault ''printint: buf'')) else Inr b) (\<lambda>b.
        Inr (fold (\<lambda>c. emit (uint c)) (rev b) s))))"

primrec printptr_loop :: "byte list \<Rightarrow> (int \<Rightarrow> 's \<Rightarrow> 's) \<Rightarrow> nat \<Rightarrow> u64 \<Rightarrow> 's \<Rightarrow> 's" where
  "printptr_loop tab emit 0 x s = s"
| "printptr_loop tab emit (Suc n) x s =
     printptr_loop tab emit n (push_bit 4 x) (emit (uint (tab ! unat (drop_bit 60 x))) s)"

definition printptr :: "byte list \<Rightarrow> (int \<Rightarrow> 's \<Rightarrow> 's) \<Rightarrow> u64 \<Rightarrow> 's \<Rightarrow> 's" where
  "printptr tab emit x s = printptr_loop tab emit 16 x (emit 120 (emit 48 s))"

section \<open>Formats\<close>

text \<open>
  Each argument after the format fills a slot of 64 bits, of which \<^verbatim>\<open>va_arg\<close> reads the low part for a smaller type.
  Reading more arguments than were passed is undefined.
\<close>

fun va_arg :: "u64 list \<Rightarrow> (u64 \<times> u64 list) res" where
  "va_arg [] = Inl (Fault ''va_arg'')"
| "va_arg (a # ap) = Inr (a, ap)"

definition as_int :: "u64 \<Rightarrow> u64" where
  "as_int a = scast (ucast a :: uint32)"

definition as_uint32 :: "u64 \<Rightarrow> u64" where
  "as_uint32 a = ucast (ucast a :: uint32)"

partial_function (option) put_str :: "(int \<Rightarrow> 's \<Rightarrow> 's) \<Rightarrow> memory \<Rightarrow> addr \<Rightarrow> 's \<Rightarrow> 's option" where
  "put_str emit m p s = (if m p = 0 then Some s else put_str emit m (p + 1) (emit (uint (m p)) s))"

definition conv_num ::
  "byte list \<Rightarrow> (int \<Rightarrow> 's \<Rightarrow> 's) \<Rightarrow> nat \<Rightarrow> (u64 \<Rightarrow> u64) \<Rightarrow> u64 \<Rightarrow> bool \<Rightarrow> u64 list \<Rightarrow> 's \<Rightarrow>
   (nat \<times> u64 list \<times> 's) res"
where
  "conv_num tab emit k cast base sign ap s =
     bindR (va_arg ap) (\<lambda>(a, ap). bindR (printint tab emit (cast a) base sign s) (\<lambda>s. Inr (k, ap, s)))"

text \<open>
  One conversion, with the three bytes after the percent sign. The result has the number of bytes it takes besides the
  first, the arguments left and the state.
\<close>

definition conv ::
  "byte list \<Rightarrow> (int \<Rightarrow> 's \<Rightarrow> 's) \<Rightarrow> memory \<Rightarrow> byte \<Rightarrow> byte \<Rightarrow> byte \<Rightarrow> u64 list \<Rightarrow> 's \<Rightarrow>
   (nat \<times> u64 list \<times> 's) res"
where
  "conv tab emit m c0 c1 c2 ap s =
     (if c0 = 100 then conv_num tab emit 0 as_int 10 True ap s
      else if c0 = 108 \<and> c1 = 100 then conv_num tab emit 1 id 10 True ap s
      else if c0 = 108 \<and> c1 = 108 \<and> c2 = 100 then conv_num tab emit 2 id 10 True ap s
      else if c0 = 117 then conv_num tab emit 0 as_uint32 10 False ap s
      else if c0 = 108 \<and> c1 = 117 then conv_num tab emit 1 id 10 False ap s
      else if c0 = 108 \<and> c1 = 108 \<and> c2 = 117 then conv_num tab emit 2 id 10 False ap s
      else if c0 = 120 then conv_num tab emit 0 as_uint32 16 False ap s
      else if c0 = 108 \<and> c1 = 120 then conv_num tab emit 1 id 16 False ap s
      else if c0 = 108 \<and> c1 = 108 \<and> c2 = 120 then conv_num tab emit 2 id 16 False ap s
      else if c0 = 112 then bindR (va_arg ap) (\<lambda>(a, ap). Inr (0, ap, printptr tab emit a s))
      else if c0 = 99 then bindR (va_arg ap) (\<lambda>(a, ap). Inr (0, ap, emit (sint (ucast a :: uint32)) s))
      else if c0 = 115
      then bindR (va_arg ap) (\<lambda>(a, ap).
           bindR (if a = 0 then Inr (fold (\<lambda>c. emit (uint c)) (lit ''(null)'') s) else of_loop (put_str emit m a s)) (\<lambda>s.
           Inr (0, ap, s)))
      else if c0 = 37 then Inr (0, ap, emit 37 s)
      else Inr (0, ap, emit (uint c0) (emit 37 s)))"

text \<open>The kernel's loop: at a percent sign it reads the conversion at once, and stops at a percent sign at the end.\<close>

function printf_loop ::
  "byte list \<Rightarrow> (int \<Rightarrow> 's \<Rightarrow> 's) \<Rightarrow> memory \<Rightarrow> byte list \<Rightarrow> nat \<Rightarrow> u64 list \<Rightarrow> 's \<Rightarrow> 's res"
where
  "printf_loop tab emit m fmt i ap s =
     (let cx = chr fmt i in
      if cx = 0 then Inr s
      else if cx \<noteq> 37 then printf_loop tab emit m fmt (i + 1) ap (emit (uint cx) s)
      else
        (let i = i + 1; c0 = chr fmt i;
             c1 = (if c0 \<noteq> 0 then chr fmt (i + 1) else 0);
             c2 = (if c1 \<noteq> 0 then chr fmt (i + 2) else 0)
         in if c0 = 0 then Inr s
            else bindR (conv tab emit m c0 c1 c2 ap s) (\<lambda>(k, ap, s). printf_loop tab emit m fmt (i + k + 1) ap s)))"
  by pat_completeness auto
termination
  by (relation "measure (\<lambda>(_, _, _, fmt, i, _, _). length fmt - i)") (auto simp: chr_def split: if_splits)

text \<open>The loop of the user library, a state machine: \<open>pct\<close> says that the last byte was a percent sign.\<close>

function vprintf_loop ::
  "byte list \<Rightarrow> (int \<Rightarrow> 's \<Rightarrow> 's) \<Rightarrow> memory \<Rightarrow> byte list \<Rightarrow> nat \<Rightarrow> bool \<Rightarrow> u64 list \<Rightarrow> 's \<Rightarrow> 's res"
where
  "vprintf_loop tab emit m fmt i pct ap s =
     (let c0 = chr fmt i in
      if c0 = 0 then Inr s
      else if \<not> pct then
        (if c0 = 37 then vprintf_loop tab emit m fmt (i + 1) True ap s
         else vprintf_loop tab emit m fmt (i + 1) False ap (emit (uint c0) s))
      else
        (let c1 = (if c0 \<noteq> 0 then chr fmt (i + 1) else 0);
             c2 = (if c1 \<noteq> 0 then chr fmt (i + 2) else 0)
         in bindR (conv tab emit m c0 c1 c2 ap s) (\<lambda>(k, ap, s). vprintf_loop tab emit m fmt (i + k + 1) False ap s)))"
  by pat_completeness auto
termination
  by (relation "measure (\<lambda>(_, _, _, fmt, i, _, _, _). length fmt - i)") (auto simp: chr_def split: if_splits)

declare printf_loop.simps [simp del] vprintf_loop.simps [simp del]

section \<open>The entry points\<close>

record pr_st = cons_st +
  panicking :: int
  panicked :: int

definition kprintf :: "byte list \<Rightarrow> u64 list \<Rightarrow> 'z pr_st_scheme \<Rightarrow> (int \<times> 'z pr_st_scheme) res" where
  "kprintf fmt ap s =
     bindR (if panicking s = 0 then acquire L_pr s else Inr s) (\<lambda>s.
     bindR (printf_loop kdigits consputc (mem s) fmt 0 ap s) (\<lambda>s.
     bindR (if panicking s = 0 then release L_pr s else Inr s) (\<lambda>s.
     Inr (0, s))))"

text \<open>The state in which \<^verbatim>\<open>panic\<close> spins for ever.\<close>

definition panic :: "addr \<Rightarrow> 'z pr_st_scheme \<Rightarrow> 'z pr_st_scheme res" where
  "panic p s =
     bindR (kprintf (lit ''panic: '') [] (s\<lparr>panicking := 1\<rparr>)) (\<lambda>(_, s).
     bindR (kprintf (lit ''%s'' @ [10]) [p] s) (\<lambda>(_, s).
     Inr (s\<lparr>panicked := 1\<rparr>)))"

definition printfinit :: "'z pr_st_scheme \<Rightarrow> 'z pr_st_scheme" where
  "printfinit s = init_lock L_pr s"

text \<open>In the user library a byte goes through \<^verbatim>\<open>write\<close>, the argument \<open>wr\<close>.\<close>

definition putc :: "(int \<Rightarrow> byte \<Rightarrow> 's \<Rightarrow> 's) \<Rightarrow> int \<Rightarrow> int \<Rightarrow> 's \<Rightarrow> 's" where
  "putc wr fd c s = wr fd (word_of_int c) s"

definition vprintf ::
  "(int \<Rightarrow> byte \<Rightarrow> 's \<Rightarrow> 's) \<Rightarrow> memory \<Rightarrow> int \<Rightarrow> byte list \<Rightarrow> u64 list \<Rightarrow> 's \<Rightarrow> 's res"
where
  "vprintf wr m fd fmt ap s = vprintf_loop udigits (putc wr fd) m fmt 0 False ap s"

definition fprintf ::
  "(int \<Rightarrow> byte \<Rightarrow> 's \<Rightarrow> 's) \<Rightarrow> memory \<Rightarrow> int \<Rightarrow> byte list \<Rightarrow> u64 list \<Rightarrow> 's \<Rightarrow> 's res"
where
  "fprintf wr m fd fmt ap s = vprintf wr m fd fmt ap s"

definition uprintf :: "(int \<Rightarrow> byte \<Rightarrow> 's \<Rightarrow> 's) \<Rightarrow> memory \<Rightarrow> byte list \<Rightarrow> u64 list \<Rightarrow> 's \<Rightarrow> 's res" where
  "uprintf wr m fmt ap s = vprintf wr m 1 fmt ap s"

section \<open>Numerals\<close>

definition numval :: "nat \<Rightarrow> nat list \<Rightarrow> nat" where
  "numval b ds = foldl (\<lambda>n d. n * b + d) 0 ds"

lemma numval_snoc [simp]: "numval b (ds @ [d]) = numval b ds * b + d"
  by (simp add: numval_def)

text \<open>\<open>ds\<close> is the numeral of \<open>n\<close>: its value is \<open>n\<close>, and it has no leading zero unless it is 0.\<close>

definition numeral_of :: "nat \<Rightarrow> nat \<Rightarrow> nat list \<Rightarrow> bool" where
  "numeral_of b n ds \<longleftrightarrow> (\<forall>d \<in> set ds. d < b) \<and> (ds = [0] \<or> ds \<noteq> [] \<and> hd ds \<noteq> 0) \<and> numval b ds = n"

lemma numeral_of_digit: "n < b \<Longrightarrow> numeral_of b n [n]"
  by (auto simp: numeral_of_def numval_def)

lemma numeral_of_snoc: "numeral_of b (n div b) ds \<Longrightarrow> n div b \<noteq> 0 \<Longrightarrow> 0 < b \<Longrightarrow> numeral_of b n (ds @ [n mod b])"
  by (auto simp: numeral_of_def numval_def)

lemma digit_loop_ok:
  fixes base x :: u64
  assumes "2 \<le> unat base"
  shows "unat x < unat base ^ Suc n \<Longrightarrow> length b + Suc n \<le> 20 \<Longrightarrow>
    \<exists>ds. digit_loop tab base x b = Inr (b @ map ((!) tab) (rev ds)) \<and> numeral_of (unat base) (unat x) ds \<and>
      length ds \<le> Suc n"
proof (induction n arbitrary: x b)
  case 0
  have "unat (x div base) = 0" "unat (x mod base) = unat x" using 0(1) by (simp_all add: unat_div unat_mod)
  then have "digit_loop tab base x b = Inr (b @ [tab ! unat x])"
    using 0(2) by (simp add: digit_loop.simps [of tab base x b] unat_eq_0)
  then show ?case using 0(1) by (intro exI [of _ "[unat x]"]) (simp add: numeral_of_digit)
next
  case (Suc n)
  let ?x = "x div base" and ?b = "b @ [tab ! unat (x mod base)]"
  have len: "length b < 20" using Suc.prems(2) by simp
  have m: "unat (x mod base) = unat x mod unat base" and d: "unat ?x = unat x div unat base"
    by (simp_all add: unat_div unat_mod)
  show ?case
  proof (cases "?x = 0")
    case True
    then have "unat x div unat base = 0" using d by simp
    then have lt: "unat x < unat base" using assms by (simp add: div_eq_0_iff)
    have "digit_loop tab base x b = Inr (b @ [tab ! unat x])"
      using len True m lt by (simp add: digit_loop.simps [of tab base x b])
    then show ?thesis using lt by (intro exI [of _ "[unat x]"]) (simp add: numeral_of_digit)
  next
    case False
    have "unat ?x < unat base ^ Suc n"
      unfolding d using Suc.prems(1) assms by (simp add: less_mult_imp_div_less mult.commute)
    then obtain ds where ds: "digit_loop tab base ?x ?b = Inr (?b @ map ((!) tab) (rev ds))"
        "numeral_of (unat base) (unat ?x) ds" "length ds \<le> Suc n"
      using Suc.IH [of ?x ?b] Suc.prems(2) by auto
    have nz: "unat x div unat base \<noteq> 0" using False d by (metis unat_eq_0)
    have "digit_loop tab base x b = digit_loop tab base ?x ?b"
      using len False by (simp add: digit_loop.simps [of tab base x b])
    then show ?thesis
      using ds numeral_of_snoc [OF ds(2) [unfolded d] nz] assms m
      by (intro exI [of _ "ds @ [unat x mod unat base]"]) simp
  qed
qed

lemma unat_neg_sint:
  fixes xx :: u64
  assumes "sint xx < 0"
  shows "int (unat (- xx)) = - sint xx"
proof -
  have r: "- (2 ^ 63) \<le> sint xx" using sint_range_size [of xx] by (simp add: word_size)
  have "- xx = of_int (- sint xx)" by simp
  then have "uint (- xx) = (- sint xx) mod 2 ^ 64" by (simp only: uint_word_of_int) simp
  then show ?thesis using r assms by (simp add: unat_eq_nat_uint)
qed

lemma uint_nonneg_sint:
  fixes xx :: u64
  assumes "0 \<le> sint xx"
  shows "uint xx = sint xx"
proof -
  have r: "sint xx < 2 ^ 63" using sint_range_size [of xx] by (simp add: word_size)
  have "uint xx = sint xx mod 2 ^ 64" using uint_word_of_int [of "sint xx", where 'a = 64] by simp
  then show ?thesis using r assms by simp
qed

lemma consputc_byte: "consputc (uint (c :: byte)) s = s\<lparr>uart_out := uart_out s @ [c]\<rparr>"
proof -
  have "uint c < 256" using uint_lt2p [of c] by simp
  then show ?thesis by (simp add: consputc_def uartputc_sync_def BACKSPACE_def)
qed

lemma fold_consputc: "fold (\<lambda>c. consputc (uint (c :: byte))) cs s = s\<lparr>uart_out := uart_out s @ cs\<rparr>"
  by (induction cs arbitrary: s) (simp_all add: consputc_byte)

lemma base_digits:
  fixes base x :: u64
  assumes "base = 10 \<or> base = 16"
  shows "\<exists>ds. digit_loop tab base x [] = Inr (map ((!) tab) (rev ds)) \<and> numeral_of (unat base) (unat x) ds"
    "unat x < 2 ^ 63 \<Longrightarrow> \<exists>ds. digit_loop tab base x [] = Inr (map ((!) tab) (rev ds)) \<and>
      numeral_of (unat base) (unat x) ds \<and> length ds < 20"
proof -
  have b: "2 \<le> unat base" using assms by auto
  have lt: "unat x < 2 ^ 64" using unat64_less [of x] by simp
  have "(2 :: nat) ^ 64 \<le> unat base ^ Suc 19" using assms by auto
  then show "\<exists>ds. digit_loop tab base x [] = Inr (map ((!) tab) (rev ds)) \<and> numeral_of (unat base) (unat x) ds"
    using digit_loop_ok [OF b, of x 19 "[]" tab] lt by auto
  assume "unat x < 2 ^ 63"
  moreover have "(2 :: nat) ^ 63 \<le> unat base ^ Suc 18" using assms by auto
  ultimately show "\<exists>ds. digit_loop tab base x [] = Inr (map ((!) tab) (rev ds)) \<and>
      numeral_of (unat base) (unat x) ds \<and> length ds < 20"
    using digit_loop_ok [OF b, of x 18 "[]" tab] by fastforce
qed

text \<open>
  C38: \<^verbatim>\<open>printint\<close> prints the numeral of its argument and never writes past the 20 bytes of \<^verbatim>\<open>buf\<close>: in base 10 or 16
  it sends the sign, if the value is negative, and then the digits of the absolute value, the first one not 0 unless the
  value is 0. The only exception is the least \<^verbatim>\<open>long long\<close> as a signed number, whose negation overflows.
\<close>

theorem printint_numeral:
  assumes "base = 10 \<or> base = 16" and "sign \<Longrightarrow> sint xx \<noteq> - (2 ^ 63)"
  defines "v \<equiv> if sign then sint xx else uint xx"
  shows "\<exists>ds. printint kdigits consputc xx base sign s =
      Inr (s\<lparr>uart_out := uart_out s @ (if v < 0 then [45] else []) @ map ((!) kdigits) ds\<rparr>) \<and>
    numeral_of (unat base) (nat \<bar>v\<bar>) ds"
proof (cases "sign \<and> sint xx < 0")
  case True
  have n: "int (unat (- xx)) = - sint xx" using unat_neg_sint True by blast
  have "- (2 ^ 63) < sint xx" using sint_range_size [of xx] assms(2) True by (simp add: word_size less_le)
  then have "int (unat (- xx)) < int (2 ^ 63)" using n by simp
  then have "unat (- xx) < 2 ^ 63" by (simp only: of_nat_less_iff)
  then obtain ds where ds: "digit_loop kdigits base (- xx) [] = Inr (map ((!) kdigits) (rev ds))"
      "numeral_of (unat base) (unat (- xx)) ds" "length ds < 20"
    using base_digits(2) [OF assms(1), of "- xx" kdigits] by blast
  have "\<bar>v\<bar> = int (unat (- xx))" using n True by (simp add: v_def)
  then have "nat \<bar>v\<bar> = unat (- xx)" by (simp only: nat_int)
  then show ?thesis
    using ds True assms(2) by (intro exI [of _ ds]) (simp add: printint_def fold_consputc rev_map v_def)
next
  case False
  obtain ds where ds: "digit_loop kdigits base xx [] = Inr (map ((!) kdigits) (rev ds))" "numeral_of (unat base) (unat xx) ds"
    using base_digits(1) [OF assms(1), of kdigits xx] by blast
  have v: "0 \<le> v" using False by (auto simp: v_def)
  have "\<bar>v\<bar> = int (unat xx)" using False uint_nonneg_sint [of xx] by (auto simp: v_def)
  then have "nat \<bar>v\<bar> = unat xx" by (simp only: nat_int)
  then show ?thesis
    using ds False v by (intro exI [of _ ds]) (auto simp: printint_def fold_consputc rev_map)
qed

theorem printint_numeral_witness:
  "\<forall>s :: cons_st. \<exists>ds. printint kdigits consputc (- 305) 10 True s =
      Inr (s\<lparr>uart_out := uart_out s @ [45] @ map ((!) kdigits) ds\<rparr>) \<and> numeral_of 10 305 ds"
  by (intro allI) (use printint_numeral [of 10 True "- 305"] in simp)

section \<open>Formats\<close>


lemma put_str_ok: "cstr m p cs \<Longrightarrow> put_str emit m p s = Some (fold (\<lambda>c. emit (uint c)) cs s)"
  by (induction cs arbitrary: p s) (simp_all add: put_str.simps [of emit m])

text \<open>Bytes of a format before the first percent sign.\<close>

lemma printf_plain:
  "0 \<notin> set cs \<Longrightarrow> 37 \<notin> set cs \<Longrightarrow> printf_loop tab emit m (pre @ cs) (length pre) ap s = Inr (fold (\<lambda>c. emit (uint c)) cs s)"
proof (induction cs arbitrary: pre s)
  case Nil
  show ?case by (simp add: printf_loop.simps chr_def)
next
  case (Cons c cs)
  have "printf_loop tab emit m (pre @ c # cs) (length pre) ap s =
      printf_loop tab emit m ((pre @ [c]) @ cs) (length (pre @ [c])) ap (emit (uint c) s)"
    using Cons.prems by (subst printf_loop.simps) (auto simp: chr_def)
  then show ?case using Cons.IH [of "pre @ [c]"] Cons.prems by simp
qed


text \<open>Memory that holds the string \<open>hi\<close> at address 4096.\<close>

definition demo_msg :: memory where
  "demo_msg = (\<lambda>_. 0)(4096 := 104, 4097 := 105)"


end
