(* ===== verification/Virtio.thy ===== *)
theory Virtio
  imports Sched
begin

text \<open>
  The disk driver \<^verbatim>\<open>virtio_disk.c\<close> after its initialisation: descriptors, the request of a transfer, its completion by
  the interrupt, and the end of \<^verbatim>\<open>virtio_disk_rw\<close>, which is cut at its sleeps. The device is the part of the state that
  the driver only reads, the used ring; the buffer cache uses the driver through its contract in \<open>Bio\<close>.
\<close>

section \<open>Descriptors, rings and requests\<close>

text \<open>
  The arrays of \<^verbatim>\<open>struct disk\<close> are functions of the index, which is below \<^verbatim>\<open>NUM\<close>. The device writes the used ring;
  \<open>b_disk\<close> is the field \<^verbatim>\<open>disk\<close> of the buffers and \<open>notified\<close> counts the writes to the notification register.
\<close>

definition NUM :: nat where "NUM = 8"

definition VRING_DESC_F_NEXT :: "16 word" where "VRING_DESC_F_NEXT = 1"

definition VRING_DESC_F_WRITE :: "16 word" where "VRING_DESC_F_WRITE = 2"

record virtq_desc =
  d_addr :: addr
  d_len :: uint32
  d_flags :: "16 word"
  d_next :: "16 word"

record virtio_blk_req =
  r_type :: uint32
  r_reserved :: uint32
  r_sector :: addr

record disk_info =
  i_b :: addr
  i_status :: byte

record vdisk_st = proc_st +
  vdisk_addr :: addr
  vdesc :: "nat \<Rightarrow> virtq_desc"
  vavail_idx :: "16 word"
  vavail_ring :: "nat \<Rightarrow> 16 word"
  vused_dev_idx :: "16 word"
  vused_ring :: "nat \<Rightarrow> uint32"
  vfree :: "nat \<Rightarrow> bool"
  vused_idx :: "16 word"
  vinfo :: "nat \<Rightarrow> disk_info"
  vops :: "nat \<Rightarrow> virtio_blk_req"
  b_disk :: "addr \<Rightarrow> bool"
  notified :: nat

text \<open>Addresses in \<^verbatim>\<open>struct disk\<close>: \<^verbatim>\<open>free\<close> is at 24, \<^verbatim>\<open>info\<close> at 40 and \<^verbatim>\<open>ops\<close> at 168, both of 16-byte elements.\<close>

definition free_addr :: "'z vdisk_st_scheme \<Rightarrow> addr" where
  "free_addr s = vdisk_addr s + 24"

definition status_addr :: "nat \<Rightarrow> 'z vdisk_st_scheme \<Rightarrow> addr" where
  "status_addr i s = vdisk_addr s + 40 + 16 * of_nat i + 8"

definition ops_addr :: "nat \<Rightarrow> 'z vdisk_st_scheme \<Rightarrow> addr" where
  "ops_addr i s = vdisk_addr s + 168 + 16 * of_nat i"

section \<open>Descriptors\<close>

definition alloc_desc :: "'z vdisk_st_scheme \<Rightarrow> nat option \<times> 'z vdisk_st_scheme" where
  "alloc_desc s =
     (case find (vfree s) [0 ..< NUM] of
        Some i \<Rightarrow> (Some i, s\<lparr>vfree := (vfree s)(i := False)\<rparr>)
      | None \<Rightarrow> (None, s))"

definition zero_desc :: virtq_desc where
  "zero_desc = \<lparr>d_addr = 0, d_len = 0, d_flags = 0, d_next = 0\<rparr>"

definition free_desc :: "nat \<Rightarrow> 'z vdisk_st_scheme \<Rightarrow> 'z vdisk_st_scheme res" where
  "free_desc i s =
     (if i \<ge> NUM then Inl (Panic ''free_desc 1'')
      else if vfree s i then Inl (Panic ''free_desc 2'')
      else wakeup (free_addr s) (s\<lparr>vdesc := (vdesc s)(i := zero_desc), vfree := (vfree s)(i := True)\<rparr>))"

lemma wakeup_loop_more: "wakeup_loop k c s = Inr t \<Longrightarrow> proc_st.more t = proc_st.more s"
proof (induction k arbitrary: s)
  case (Suc k)
  then show ?case
    by (auto simp: Let_def acquire_def release_def upd_proc_def bindR_eq_Inr split: if_splits)
qed simp

lemma wakeup_more: "wakeup c s = Inr t \<Longrightarrow> proc_st.more t = proc_st.more s"
  by (simp add: wakeup_def wakeup_loop_more)

lemma free_desc_vfree:
  assumes "free_desc i s = Inr t"
  shows "i < NUM" "\<not> vfree s i" "vfree t = (vfree s)(i := True)"
proof -
  show i: "i < NUM" "\<not> vfree s i" using assms by (auto simp: free_desc_def split: if_splits)
  then have "proc_st.more t = proc_st.more (s\<lparr>vdesc := (vdesc s)(i := zero_desc), vfree := (vfree s)(i := True)\<rparr>)"
    using assms wakeup_more by (auto simp: free_desc_def)
  then show "vfree t = (vfree s)(i := True)" by (cases t; cases s) simp
qed

lemma busy_less:
  assumes "free_desc i s = Inr t"
  shows "card {j. j < NUM \<and> \<not> vfree t j} < card {j. j < NUM \<and> \<not> vfree s j}"
  by (rule psubset_card_mono) (use free_desc_vfree [OF assms] in auto)

text \<open>Every turn of the loop frees a descriptor that was in use, so it ends.\<close>

function free_chain :: "nat \<Rightarrow> 'z vdisk_st_scheme \<Rightarrow> 'z vdisk_st_scheme res" where
  "free_chain i s =
     (if i \<ge> NUM then Inl (Fault ''disk.desc'')
      else
        (let flag = d_flags (vdesc s i); nxt = unat (d_next (vdesc s i)) in
         bindR (free_desc i s) (\<lambda>s.
         if and flag VRING_DESC_F_NEXT \<noteq> 0 then free_chain nxt s else Inr s)))"
  by pat_completeness auto
termination
  by (relation "measure (\<lambda>(_, s). card {j. j < NUM \<and> \<not> vfree s j})") (auto simp: busy_less)

declare free_chain.simps [simp del]

primrec free_descs :: "nat list \<Rightarrow> 'z vdisk_st_scheme \<Rightarrow> 'z vdisk_st_scheme res" where
  "free_descs [] s = Inr s"
| "free_descs (j # js) s = bindR (free_desc j s) (free_descs js)"

text \<open>The loop of \<^verbatim>\<open>alloc3_desc\<close> with \<open>k\<close> descriptors to go and those of \<open>idx\<close> taken.\<close>

primrec alloc3_loop :: "nat \<Rightarrow> nat list \<Rightarrow> 'z vdisk_st_scheme \<Rightarrow> (nat list option \<times> 'z vdisk_st_scheme) res" where
  "alloc3_loop 0 idx s = Inr (Some idx, s)"
| "alloc3_loop (Suc k) idx s =
     (case alloc_desc s of
        (Some i, s) \<Rightarrow> alloc3_loop k (idx @ [i]) s
      | (None, s) \<Rightarrow> bindR (free_descs idx s) (\<lambda>s. Inr (None, s)))"

definition alloc3_desc :: "'z vdisk_st_scheme \<Rightarrow> (nat list option \<times> 'z vdisk_st_scheme) res" where
  "alloc3_desc s = alloc3_loop 3 [] s"

section \<open>A transfer\<close>

text \<open>
  The request of \<^verbatim>\<open>virtio_disk_rw\<close> for the buffer \<open>b\<close> with block number \<open>bn\<close> and data at \<open>da\<close>: formatted in the three
  descriptors, recorded and put on the available ring.
\<close>

definition rw_request :: "addr \<Rightarrow> uint32 \<Rightarrow> addr \<Rightarrow> bool \<Rightarrow> nat \<Rightarrow> nat \<Rightarrow> nat \<Rightarrow> 'z vdisk_st_scheme \<Rightarrow> 'z vdisk_st_scheme" where
  "rw_request b bn da write i0 i1 i2 s =
     (let sector = ucast (bn * 2) :: addr;
          s = s\<lparr>vops := (vops s)(i0 := \<lparr>r_type = (if write then 1 else 0), r_reserved = 0, r_sector = sector\<rparr>)\<rparr>;
          s = s\<lparr>vdesc := (vdesc s)(i0 := \<lparr>d_addr = ops_addr i0 s, d_len = 16, d_flags = VRING_DESC_F_NEXT, d_next = of_nat i1\<rparr>)\<rparr>;
          flags = or (if write then 0 else VRING_DESC_F_WRITE) VRING_DESC_F_NEXT;
          s = s\<lparr>vdesc := (vdesc s)(i1 := \<lparr>d_addr = da, d_len = 1024, d_flags = flags, d_next = of_nat i2\<rparr>)\<rparr>;
          s = s\<lparr>vinfo := (vinfo s)(i0 := (vinfo s i0)\<lparr>i_status := 255\<rparr>)\<rparr>;
          s = s\<lparr>vdesc := (vdesc s)(i2 := \<lparr>d_addr = status_addr i0 s, d_len = 1, d_flags = VRING_DESC_F_WRITE, d_next = 0\<rparr>)\<rparr>;
          s = s\<lparr>b_disk := (b_disk s)(b := True), vinfo := (vinfo s)(i0 := (vinfo s i0)\<lparr>i_b := b\<rparr>)\<rparr>;
          s = s\<lparr>vavail_ring := (vavail_ring s)(unat (vavail_idx s) mod NUM := of_nat i0)\<rparr>
      in s\<lparr>vavail_idx := vavail_idx s + 1, notified := notified s + 1\<rparr>)"

text \<open>\<^verbatim>\<open>virtio_disk_rw\<close> up to the sleep for the completion; when descriptors are short it sleeps before.\<close>

definition rw_start ::
  "addr \<Rightarrow> uint32 \<Rightarrow> addr \<Rightarrow> bool \<Rightarrow> 'z vdisk_st_scheme \<Rightarrow> (nat list \<times> 'z vdisk_st_scheme) res"
where
  "rw_start b bn da write s =
     bindR (acquire L_vdisk s) (\<lambda>s.
     bindR (alloc3_desc s) (\<lambda>(r, s).
     case r of
       None \<Rightarrow> Inl Block
     | Some idx \<Rightarrow> Inr (idx, rw_request b bn da write (idx ! 0) (idx ! 1) (idx ! 2) s)))"

text \<open>What is left when it wakes with the lock: it sleeps again while the transfer is not finished.\<close>

definition rw_finish :: "addr \<Rightarrow> nat \<Rightarrow> 'z vdisk_st_scheme \<Rightarrow> 'z vdisk_st_scheme res" where
  "rw_finish b i0 s =
     (if b_disk s b then Inl Block
      else
        bindR (free_chain i0 (s\<lparr>vinfo := (vinfo s)(i0 := (vinfo s i0)\<lparr>i_b := 0\<rparr>)\<rparr>)) (\<lambda>s.
        release L_vdisk s))"

function intr_loop :: "'z vdisk_st_scheme \<Rightarrow> 'z vdisk_st_scheme res" where
  "intr_loop s =
     (if vused_idx s \<noteq> vused_dev_idx s then
        (let i = unat (vused_ring s (unat (vused_idx s) mod NUM)) in
         if i \<ge> NUM then Inl (Fault ''disk.info'')
         else if i_status (vinfo s i) \<noteq> 0 then Inl (Panic ''virtio_disk_intr status'')
         else
           (let b = i_b (vinfo s i); s = s\<lparr>b_disk := (b_disk s)(b := False)\<rparr> in
            bindR (wakeup b s) (\<lambda>s. intr_loop (s\<lparr>vused_idx := vused_idx s + 1\<rparr>))))
      else Inr s)"
  by pat_completeness auto

lemma vdisk_more:
  assumes "proc_st.more t = proc_st.more s"
  shows "vused_idx t = vused_idx s" "vused_dev_idx t = vused_dev_idx s" "vfree t = vfree s" "vdesc t = vdesc s"
    "vinfo t = vinfo s" "vused_ring t = vused_ring s" "b_disk t = b_disk s"
  using assms by (cases t; cases s; simp)+

termination intr_loop
proof (relation "measure (\<lambda>s. unat (vused_dev_idx s - vused_idx s))", simp)
  fix s :: "'z vdisk_st_scheme" and i b x t
  assume ne: "vused_idx s \<noteq> vused_dev_idx s" and x: "x = s\<lparr>b_disk := (b_disk s)(b := False)\<rparr>" and w: "wakeup b x = Inr t"
  have "vused_idx t = vused_idx s" "vused_dev_idx t = vused_dev_idx s"
    using vdisk_more(1,2) [OF wakeup_more [OF w]] x by simp_all
  moreover have "unat (vused_dev_idx s - vused_idx s - 1) < unat (vused_dev_idx s - vused_idx s)"
    using ne by (intro unat_minus_one [THEN ord_eq_less_trans]) (simp_all add: unat_gt_0)
  ultimately show "(t\<lparr>vused_idx := vused_idx t + 1\<rparr>, s) \<in> measure (\<lambda>s. unat (vused_dev_idx s - vused_idx s))"
    by (simp add: diff_diff_eq)
qed

declare intr_loop.simps [simp del]

definition virtio_disk_intr :: "'z vdisk_st_scheme \<Rightarrow> 'z vdisk_st_scheme res" where
  "virtio_disk_intr s = bindR (acquire L_vdisk s) (\<lambda>s. bindR (intr_loop s) (release L_vdisk))"

section \<open>Correctness\<close>

lemma alloc_desc_cases:
  obtains "alloc_desc s = (None, s)" "\<forall>i < NUM. \<not> vfree s i"
  | i where "i < NUM" "vfree s i" "alloc_desc s = (Some i, s\<lparr>vfree := (vfree s)(i := False)\<rparr>)"
proof (cases "find (vfree s) [0 ..< NUM]")
  case None
  show ?thesis by (rule that(1)) (use None find_None_iff [of "vfree s" "[0 ..< NUM]"] in \<open>simp_all add: alloc_desc_def\<close>)
next
  case (Some i)
  show ?thesis by (rule that(2) [of i]) (use Some find_Some_iff [of "vfree s" "[0 ..< NUM]" i] in \<open>auto simp: alloc_desc_def\<close>)
qed

lemma no_proc_locks_held: "held t = held s \<Longrightarrow> no_proc_locks t \<longleftrightarrow> no_proc_locks s"
  by (simp add: no_proc_locks_def)

lemma free_desc_ok:
  assumes "no_proc_locks s" and "i < NUM" and "\<not> vfree s i"
  obtains t where "free_desc i s = Inr t" "vfree t = (vfree s)(i := True)" "vdesc t = (vdesc s)(i := zero_desc)"
    "no_proc_locks t" "held t = held s"
proof -
  let ?s = "s\<lparr>vdesc := (vdesc s)(i := zero_desc), vfree := (vfree s)(i := True)\<rparr>"
  have n: "no_proc_locks ?s" using assms(1) by (simp add: no_proc_locks_def)
  show ?thesis
    by (rule that [of "?s\<lparr>procs := \<lambda>p. if p < NPROC then woken (curproc ?s) (free_addr s) p (procs ?s p) else procs ?s p\<rparr>"])
      (use assms wakeup_eq [OF n] in \<open>simp_all add: free_desc_def no_proc_locks_def\<close>)
qed

lemma free_descs_ok:
  "no_proc_locks s \<Longrightarrow> distinct js \<Longrightarrow> \<forall>j \<in> set js. j < NUM \<and> \<not> vfree s j \<Longrightarrow>
   \<exists>t. free_descs js s = Inr t \<and> vfree t = (\<lambda>i. i \<in> set js \<or> vfree s i) \<and> held t = held s"
proof (induction js arbitrary: s)
  case (Cons j js)
  obtain t where t: "free_desc j s = Inr t" "vfree t = (vfree s)(j := True)" "no_proc_locks t" "held t = held s"
    by (rule free_desc_ok [of s j]) (use Cons.prems in auto)
  have "\<forall>j \<in> set js. j < NUM \<and> \<not> vfree t j" using Cons.prems(2,3) t(2) by auto
  then obtain u where "free_descs js t = Inr u" "vfree u = (\<lambda>i. i \<in> set js \<or> vfree t i)" "held u = held t"
    using Cons.IH [OF t(3)] Cons.prems(2) by auto
  then show ?case using t by (auto simp: fun_eq_iff)
qed simp

text \<open>What \<^verbatim>\<open>alloc3_desc\<close> has done after \<open>idx\<close>: these descriptors were free and are taken.\<close>

lemma alloc3_loop_ok:
  assumes "no_proc_locks s" and "distinct idx" and "\<forall>i \<in> set idx. i < NUM \<and> vfree s i"
  shows "(\<exists>js t. alloc3_loop k idx (s\<lparr>vfree := \<lambda>i. vfree s i \<and> i \<notin> set idx\<rparr>) = Inr (Some (idx @ js), t) \<and> length js = k \<and>
       distinct (idx @ js) \<and> (\<forall>i \<in> set (idx @ js). i < NUM \<and> vfree s i) \<and>
       t = s\<lparr>vfree := \<lambda>i. vfree s i \<and> i \<notin> set (idx @ js)\<rparr>) \<or>
     (\<exists>t. alloc3_loop k idx (s\<lparr>vfree := \<lambda>i. vfree s i \<and> i \<notin> set idx\<rparr>) = Inr (None, t) \<and> vfree t = vfree s \<and>
       held t = held s \<and> card {i. i < NUM \<and> vfree s i} < length idx + k)"
  using assms(2,3)
proof (induction k arbitrary: idx)
  case (Suc k)
  let ?s = "s\<lparr>vfree := \<lambda>i. vfree s i \<and> i \<notin> set idx\<rparr>"
  show ?case
  proof (cases rule: alloc_desc_cases [of ?s])
    case 1
    have np: "no_proc_locks ?s" using assms(1) by (simp add: no_proc_locks_def)
    have busy: "\<forall>j \<in> set idx. j < NUM \<and> \<not> vfree ?s j" using Suc.prems by simp
    obtain t where t: "free_descs idx ?s = Inr t" "vfree t = (\<lambda>i. i \<in> set idx \<or> vfree ?s i)" "held t = held ?s"
      using free_descs_ok [OF np Suc.prems(1) busy] by blast
    have "vfree t = vfree s" using t(2) Suc.prems(2) by (auto simp: fun_eq_iff)
    moreover have "{i. i < NUM \<and> vfree s i} \<subseteq> set idx" using 1(2) by auto
    then have "card {i. i < NUM \<and> vfree s i} \<le> length idx" by (meson card_length card_mono finite_set le_trans)
    ultimately show ?thesis using 1(1) t(1,3) by simp
  next
    case (2 i)
    have "(\<lambda>j. vfree s j \<and> j \<notin> set idx)(i := False) = (\<lambda>j. vfree s j \<and> j \<notin> set (idx @ [i]))" by (auto simp: fun_eq_iff)
    then have step: "alloc3_loop (Suc k) idx ?s = alloc3_loop k (idx @ [i]) (s\<lparr>vfree := \<lambda>j. vfree s j \<and> j \<notin> set (idx @ [i])\<rparr>)"
      using 2(3) by simp
    have "distinct (idx @ [i])" "\<forall>j \<in> set (idx @ [i]). j < NUM \<and> vfree s j" using 2 Suc.prems by auto
    from Suc.IH [OF this] show ?thesis
    proof (rule disjE)
      assume "\<exists>js t. alloc3_loop k (idx @ [i]) (s\<lparr>vfree := \<lambda>j. vfree s j \<and> j \<notin> set (idx @ [i])\<rparr>) =
          Inr (Some ((idx @ [i]) @ js), t) \<and> length js = k \<and> distinct ((idx @ [i]) @ js) \<and>
          (\<forall>j \<in> set ((idx @ [i]) @ js). j < NUM \<and> vfree s j) \<and>
          t = s\<lparr>vfree := \<lambda>j. vfree s j \<and> j \<notin> set ((idx @ [i]) @ js)\<rparr>"
      then obtain js t where "alloc3_loop k (idx @ [i]) (s\<lparr>vfree := \<lambda>j. vfree s j \<and> j \<notin> set (idx @ [i])\<rparr>) =
          Inr (Some ((idx @ [i]) @ js), t) \<and> length js = k \<and> distinct ((idx @ [i]) @ js) \<and>
          (\<forall>j \<in> set ((idx @ [i]) @ js). j < NUM \<and> vfree s j) \<and>
          t = s\<lparr>vfree := \<lambda>j. vfree s j \<and> j \<notin> set ((idx @ [i]) @ js)\<rparr>" by blast
      then show ?thesis unfolding step by (intro disjI1 exI [of _ "i # js"] exI [of _ t]) simp
    qed (unfold step, simp)
  qed
qed simp

text \<open>
  C27: \<^verbatim>\<open>alloc3_desc\<close> is all or nothing. It takes three distinct free descriptors and nothing else, or, when fewer than
  three are free, it gives back those it had taken and leaves the set of free descriptors as it was; it never panics.
\<close>

theorem alloc3_desc_atomic:
  assumes "no_proc_locks s"
  shows "(\<exists>idx t. alloc3_desc s = Inr (Some idx, t) \<and> length idx = 3 \<and> distinct idx \<and>
       (\<forall>i \<in> set idx. i < NUM \<and> vfree s i) \<and> t = s\<lparr>vfree := \<lambda>i. vfree s i \<and> i \<notin> set idx\<rparr>) \<or>
     (\<exists>t. alloc3_desc s = Inr (None, t) \<and> vfree t = vfree s \<and> held t = held s \<and> card {i. i < NUM \<and> vfree s i} < 3)"
  using alloc3_loop_ok [OF assms, of "[]" 3] by (simp add: alloc3_desc_def)

theorem alloc3_desc_atomic_witness:
  "\<forall>s0 :: vdisk_st. \<exists>t. alloc3_desc (s0\<lparr>held := {}, vfree := \<lambda>i. i = 2 \<or> i = 5\<rparr>) = Inr (None, t) \<and>
     vfree t = (\<lambda>i. i = 2 \<or> i = 5)"
proof
  fix s0 :: vdisk_st
  let ?s = "s0\<lparr>held := {}, vfree := \<lambda>i. i = 2 \<or> i = 5\<rparr>"
  have "no_proc_locks ?s" by (simp add: no_proc_locks_def)
  moreover have "\<not> (length idx = 3 \<and> distinct idx \<and> (\<forall>i \<in> set idx. i < NUM \<and> vfree ?s i))" for idx
  proof
    assume a: "length idx = 3 \<and> distinct idx \<and> (\<forall>i \<in> set idx. i < NUM \<and> vfree ?s i)"
    then have "card (set idx) = 3" "set idx \<subseteq> {2, 5}" by (auto simp: distinct_card)
    then show False using card_mono [of "{2, 5 :: nat}" "set idx"] by simp
  qed
  ultimately show "\<exists>t. alloc3_desc ?s = Inr (None, t) \<and> vfree t = (\<lambda>i. i = 2 \<or> i = 5)"
    using alloc3_desc_atomic [of ?s] by auto
qed

lemma alloc3_SomeD:
  assumes "no_proc_locks s" and "alloc3_desc s = Inr (Some idx, t)"
  shows "length idx = 3" "distinct idx" "\<forall>i \<in> set idx. i < NUM \<and> vfree s i"
    "t = s\<lparr>vfree := \<lambda>i. vfree s i \<and> i \<notin> set idx\<rparr>"
  using alloc3_loop_ok [OF assms(1), of "[]" 3] assms(2) by (auto simp: alloc3_desc_def)

text \<open>A chain of three descriptors in use is freed as a whole.\<close>

lemma free_chain_last:
  assumes "no_proc_locks s" and "i < NUM" and "\<not> vfree s i" and "and (d_flags (vdesc s i)) VRING_DESC_F_NEXT = 0"
  shows "\<exists>t. free_chain i s = Inr t \<and> vfree t = (vfree s)(i := True) \<and> held t = held s"
proof -
  obtain t where "free_desc i s = Inr t" "vfree t = (vfree s)(i := True)" "held t = held s"
    by (rule free_desc_ok [OF assms(1-3)])
  then show ?thesis using assms(2,4) by (subst free_chain.simps) (simp add: Let_def)
qed

lemma free_chain_next:
  assumes "no_proc_locks s" and "i < NUM" and "\<not> vfree s i" and "and (d_flags (vdesc s i)) VRING_DESC_F_NEXT \<noteq> 0"
  shows "\<exists>t. free_chain i s = free_chain (unat (d_next (vdesc s i))) t \<and> vfree t = (vfree s)(i := True) \<and>
    vdesc t = (vdesc s)(i := zero_desc) \<and> no_proc_locks t \<and> held t = held s"
proof -
  obtain t where "free_desc i s = Inr t" "vfree t = (vfree s)(i := True)" "vdesc t = (vdesc s)(i := zero_desc)"
    "no_proc_locks t" "held t = held s"
    by (rule free_desc_ok [OF assms(1-3)])
  then show ?thesis using assms(2,4) by (subst free_chain.simps) (auto simp: Let_def)
qed

lemma free_chain3:
  assumes "no_proc_locks s" and "distinct [i, j, k]" and "\<forall>x \<in> {i, j, k}. x < NUM \<and> \<not> vfree s x"
    and "and (d_flags (vdesc s i)) VRING_DESC_F_NEXT \<noteq> 0" "unat (d_next (vdesc s i)) = j"
    and "and (d_flags (vdesc s j)) VRING_DESC_F_NEXT \<noteq> 0" "unat (d_next (vdesc s j)) = k"
    and "and (d_flags (vdesc s k)) VRING_DESC_F_NEXT = 0"
  shows "\<exists>t. free_chain i s = Inr t \<and> vfree t = (\<lambda>x. x \<in> {i, j, k} \<or> vfree s x) \<and> held t = held s"
proof -
  obtain t where t: "free_chain i s = free_chain j t" "vfree t = (vfree s)(i := True)" "vdesc t = (vdesc s)(i := zero_desc)"
      "no_proc_locks t" "held t = held s"
    using free_chain_next [of s i] assms(1,3,4,5) by auto
  obtain u where u: "free_chain j t = free_chain k u" "vfree u = (vfree t)(j := True)" "vdesc u = (vdesc t)(j := zero_desc)"
      "no_proc_locks u" "held u = held t"
    using free_chain_next [of t j] assms(2,3,6,7) t by auto
  obtain v where v: "free_chain k u = Inr v" "vfree v = (vfree u)(k := True)" "held v = held u"
    using free_chain_last [of u k] assms(2,3,8) t u by auto
  show ?thesis using t u v by (auto simp: fun_eq_iff)
qed

lemma request_chain:
  fixes s :: "'z vdisk_st_scheme"
  assumes "distinct [i, j, k]" and "i < NUM" "j < NUM" "k < NUM" and "t = rw_request b bn da write i j k s"
  shows "and (d_flags (vdesc t i)) VRING_DESC_F_NEXT \<noteq> 0" "unat (d_next (vdesc t i)) = j"
    "and (d_flags (vdesc t j)) VRING_DESC_F_NEXT \<noteq> 0" "unat (d_next (vdesc t j)) = k"
    "and (d_flags (vdesc t k)) VRING_DESC_F_NEXT = 0"
    "vfree t = vfree s" "held t = held s"
  using assms(1-4)
  by (simp_all add: assms(5) rw_request_def Let_def VRING_DESC_F_NEXT_def VRING_DESC_F_WRITE_def NUM_def unat_of_nat)

lemma rw_start_enough:
  assumes "no_proc_locks s" and "L_vdisk \<notin> held s" and "3 \<le> card {i. i < NUM \<and> vfree s i}"
  obtains idx t where "rw_start b bn da write s = Inr (idx, t)" "vfree t = (\<lambda>i. vfree s i \<and> i \<notin> set idx)"
proof -
  let ?s = "s\<lparr>held := insert L_vdisk (held s)\<rparr>"
  have np: "no_proc_locks ?s" using assms(1) by (simp add: no_proc_locks_def)
  obtain idx where idx: "alloc3_desc ?s = Inr (Some idx, ?s\<lparr>vfree := \<lambda>i. vfree s i \<and> i \<notin> set idx\<rparr>)"
    using alloc3_loop_ok [OF np, of "[]" 3] assms(3) by (auto simp: alloc3_desc_def)
  let ?t = "rw_request b bn da write (idx ! 0) (idx ! 1) (idx ! 2) (?s\<lparr>vfree := \<lambda>i. vfree s i \<and> i \<notin> set idx\<rparr>)"
  show ?thesis
    by (rule that [of idx ?t]) (use idx assms(2) in \<open>simp_all add: rw_start_def rw_request_def Let_def\<close>)
qed



end
