(* ===== verification/Umalloc.thy ===== *)
theory Umalloc
  imports Allocator
begin

text \<open>
  The allocator of the user library, \<^verbatim>\<open>user/umalloc.c\<close>: a circular list of free blocks in address order, linked through
  headers of 16 bytes in byte memory, of which the static \<^verbatim>\<open>base\<close> is the first; its address is an argument, and the
  theorems take it to be a multiple of 16, as those of blocks are. It is proved that the list stays sorted, circular and free
  of overlaps under \<^verbatim>\<open>free\<close>, \<^verbatim>\<open>morecore\<close> and \<^verbatim>\<open>malloc\<close>, that their loops end, and that they meet the contract of an
  allocator.
\<close>

section \<open>Headers\<close>

definition load32 :: "memory \<Rightarrow> addr \<Rightarrow> uint32" where
  "load32 m a =
     ucast (m a) OR push_bit 8 (ucast (m (a + 1))) OR push_bit 16 (ucast (m (a + 2))) OR push_bit 24 (ucast (m (a + 3)))"

definition store32 :: "memory \<Rightarrow> addr \<Rightarrow> uint32 \<Rightarrow> memory" where
  "store32 m a v = (\<lambda>x. if x - a < 4 then ucast (drop_bit (8 * unat (x - a)) v) else m x)"

text \<open>\<^verbatim>\<open>union header\<close>: \<^verbatim>\<open>s.ptr\<close> at its start, \<^verbatim>\<open>s.size\<close> 8 bytes further. \<^verbatim>\<open>p + n\<close> counts headers.\<close>

definition ptr :: "memory \<Rightarrow> addr \<Rightarrow> addr" where
  "ptr m p = load64 m p"

definition set_ptr :: "addr \<Rightarrow> addr \<Rightarrow> memory \<Rightarrow> memory" where
  "set_ptr p v m = store64 m p v"

definition hsize :: "memory \<Rightarrow> addr \<Rightarrow> uint32" where
  "hsize m p = load32 m (p + 8)"

definition set_size :: "addr \<Rightarrow> uint32 \<Rightarrow> memory \<Rightarrow> memory" where
  "set_size p v m = store32 m (p + 8) v"

definition plus_hdr :: "addr \<Rightarrow> uint32 \<Rightarrow> addr" where
  "plus_hdr p n = p + 16 * ucast n"

record um_st =
  umem :: memory
  freep :: addr
  brk :: addr

section \<open>free\<close>

partial_function (option) free_find :: "memory \<Rightarrow> addr \<Rightarrow> addr \<Rightarrow> addr option" where
  "free_find m bp p =
     (if bp > p \<and> bp < ptr m p then Some p
      else if p \<ge> ptr m p \<and> (bp > p \<or> bp < ptr m p) then Some p
      else free_find m bp (ptr m p))"

definition free_link :: "addr \<Rightarrow> addr \<Rightarrow> memory \<Rightarrow> memory" where
  "free_link bp p m =
     (let m = (if plus_hdr bp (hsize m bp) = ptr m p
               then (let m = set_size bp (hsize m bp + hsize m (ptr m p)) m in set_ptr bp (ptr m (ptr m p)) m)
               else set_ptr bp (ptr m p) m)
      in if plus_hdr p (hsize m p) = bp
         then (let m = set_size p (hsize m p + hsize m bp) m in set_ptr p (ptr m bp) m)
         else set_ptr p bp m)"

definition ufree :: "addr \<Rightarrow> 'z um_st_scheme \<Rightarrow> 'z um_st_scheme res" where
  "ufree ap s =
     (let bp = ap - 16 in
      bindR (of_loop (free_find (umem s) bp (freep s))) (\<lambda>p.
      Inr (s\<lparr>umem := free_link bp p (umem s), freep := p\<rparr>)))"

section \<open>malloc\<close>

text \<open>
  What an eager \<^verbatim>\<open>sbrk\<close>, that is \<^verbatim>\<open>sys_sbrk\<close> and \<^verbatim>\<open>growproc\<close>, does to the break: \<open>grant\<close> says whether \<^verbatim>\<open>uvmalloc\<close> gets the
  pages, which are never more than the physical memory, 128 MB; \<^verbatim>\<open>uvmdealloc\<close> never fails, and ignores a new size that is not
  smaller. The result is the old break or \<^verbatim>\<open>SBRK_ERROR\<close>, all ones. The bytes of new pages are what \<open>umem\<close> has there.
\<close>

definition UMAX :: int where "UMAX = 0x8000000"

definition sbrk :: "(int \<Rightarrow> 'z um_st_scheme \<Rightarrow> bool) \<Rightarrow> int \<Rightarrow> 'z um_st_scheme \<Rightarrow> addr \<times> 'z um_st_scheme" where
  "sbrk grant n s =
     (let sz = brk s + word_of_int n in
      if 0 < n
      then (if grant n s \<and> uint (brk s) + n \<le> UMAX then (brk s, s\<lparr>brk := sz\<rparr>) else (- 1, s))
      else if n < 0 then (brk s, if sz \<ge> brk s then s else s\<lparr>brk := sz\<rparr>)
      else (brk s, s))"

text \<open>\<^verbatim>\<open>nu * sizeof(Header)\<close> has 64 bits and is passed as an \<^verbatim>\<open>int\<close>.\<close>

definition morecore ::
  "(int \<Rightarrow> 'z um_st_scheme \<Rightarrow> bool) \<Rightarrow> uint32 \<Rightarrow> 'z um_st_scheme \<Rightarrow> (addr \<times> 'z um_st_scheme) res"
where
  "morecore grant nu s =
     (let nu = (if nu < 4096 then 4096 else nu);
          (p, s) = sbrk grant (sint (ucast (ucast nu * 16 :: addr) :: uint32)) s
      in if p = - 1 then Inr (0, s)
         else
           (let s = s\<lparr>umem := set_size p nu (umem s)\<rparr> in
            bindR (ufree (p + 16) s) (\<lambda>s. Inr (freep s, s))))"

text \<open>What \<^verbatim>\<open>malloc\<close> does when the block at \<open>p\<close>, after \<open>prevp\<close> on the list, is big enough.\<close>

definition take_block :: "uint32 \<Rightarrow> addr \<Rightarrow> addr \<Rightarrow> 'z um_st_scheme \<Rightarrow> addr \<times> 'z um_st_scheme" where
  "take_block nunits prevp p s =
     (let m = umem s in
      if hsize m p = nunits then (p + 16, s\<lparr>umem := set_ptr prevp (ptr m p) m, freep := prevp\<rparr>)
      else
        (let m = set_size p (hsize m p - nunits) m; p = plus_hdr p (hsize m p); m = set_size p nunits m
         in (p + 16, s\<lparr>umem := m, freep := prevp\<rparr>)))"

partial_function (option) malloc_loop ::
  "(int \<Rightarrow> 'z um_st_scheme \<Rightarrow> bool) \<Rightarrow> uint32 \<Rightarrow> addr \<Rightarrow> addr \<Rightarrow> 'z um_st_scheme \<Rightarrow> (addr \<times> 'z um_st_scheme) res option"
where
  "malloc_loop grant nunits prevp p s =
     (if hsize (umem s) p \<ge> nunits then Some (Inr (take_block nunits prevp p s))
      else if p = freep s
      then
        (case morecore grant nunits s of
           Inl e \<Rightarrow> Some (Inl e)
         | Inr (p, s) \<Rightarrow> if p = 0 then Some (Inr (0, s)) else malloc_loop grant nunits p (ptr (umem s) p) s)
      else malloc_loop grant nunits p (ptr (umem s) p) s)"

definition nunits_of :: "uint32 \<Rightarrow> uint32" where
  "nunits_of nbytes = ucast ((ucast nbytes + 16 - 1 :: addr) div 16 + 1)"

definition malloc_init :: "addr \<Rightarrow> 'z um_st_scheme \<Rightarrow> 'z um_st_scheme" where
  "malloc_init base s =
     (if freep s = 0 then s\<lparr>umem := set_size base 0 (set_ptr base base (umem s)), freep := base\<rparr> else s)"

definition malloc ::
  "(int \<Rightarrow> 'z um_st_scheme \<Rightarrow> bool) \<Rightarrow> addr \<Rightarrow> uint32 \<Rightarrow> 'z um_st_scheme \<Rightarrow> (addr \<times> 'z um_st_scheme) res"
where
  "malloc grant base nbytes s =
     (let s = malloc_init base s; prevp = freep s in
      bindR (of_loop (malloc_loop grant (nunits_of nbytes) prevp (ptr (umem s) prevp) s)) (\<lambda>r. r))"

section \<open>Reading back headers\<close>

lemma load32_store32 [simp]: "load32 (store32 m a v) a = v"
proof -
  have s: "store32 m a v a = ucast v" "store32 m a v (a + 1) = ucast (drop_bit 8 v)"
    "store32 m a v (a + 2) = ucast (drop_bit 16 v)" "store32 m a v (a + 3) = ucast (drop_bit 24 v)"
    by (simp_all add: store32_def)
  show ?thesis
    unfolding load32_def s
  proof (rule bit_word_eqI, goal_cases)
    case (1 n)
    then have "n < 8 \<or> 8 \<le> n \<and> n < 16 \<or> 16 \<le> n \<and> n < 24 \<or> 24 \<le> n \<and> n < 32" by auto
    then show ?case by (elim disjE conjE) (simp_all add: bit_simps less_diff_conv2)
  qed
qed

text \<open>The address of the header with number \<open>u\<close>.\<close>

definition ad :: "nat \<Rightarrow> addr" where
  "ad u = of_nat (16 * u)"

definition TOP :: nat where "TOP = 2 ^ 23"

lemma ad_unat: "u \<le> TOP \<Longrightarrow> unat (ad u) = 16 * u"
  unfolding ad_def by (rule unat_of_nat_lt) (simp add: TOP_def)

lemma ad_less: "u \<le> TOP \<Longrightarrow> v \<le> TOP \<Longrightarrow> ad u < ad v \<longleftrightarrow> u < v"
  by (simp add: word_less_nat_alt ad_unat)

lemma ad_le: "u \<le> TOP \<Longrightarrow> v \<le> TOP \<Longrightarrow> ad u \<le> ad v \<longleftrightarrow> u \<le> v"
  by (simp add: word_le_nat_alt ad_unat)

lemma ad_eq: "u \<le> TOP \<Longrightarrow> v \<le> TOP \<Longrightarrow> ad u = ad v \<longleftrightarrow> u = v"
  by (auto dest: arg_cong [where f = unat] simp: ad_unat)

lemma ad_plus: "k \<le> TOP \<Longrightarrow> plus_hdr (ad u) (of_nat k) = ad (u + k)"
proof -
  assume "k \<le> TOP"
  then have "ucast (of_nat k :: uint32) = (of_nat k :: addr)"
    by (simp add: unsigned_of_nat TOP_def take_bit_nat_eq_self)
  then show ?thesis by (simp add: plus_hdr_def ad_def distrib_left)
qed

text \<open>The 16 bytes of a header lie outside every other header.\<close>

lemma ad_outside:
  assumes "u \<le> TOP" and "v \<le> TOP" and "u \<noteq> v" and "i < 16"
  shows "16 \<le> ad u + of_nat i - ad v"
proof (cases "v < u")
  case True
  then have e: "ad u + of_nat i - ad v = of_nat (16 * (u - v) + i)" by (simp add: ad_def of_nat_diff algebra_simps)
  have "unat (of_nat (16 * (u - v) + i) :: addr) = 16 * (u - v) + i"
    using assms(1,4) by (intro unat_of_nat_lt) (simp add: TOP_def)
  then show ?thesis unfolding e word_le_nat_alt using True by simp
next
  case False
  define d where "d = 16 * v - (16 * u + i)"
  have d: "0 < d" "d \<le> 16 * TOP" using False assms by (auto simp: d_def)
  have sum: "ad u + of_nat i - ad v + of_nat d = 0"
    using False assms(3,4) by (simp add: d_def ad_def of_nat_diff algebra_simps)
  show ?thesis
  proof (rule ccontr)
    let ?x = "ad u + of_nat i - ad v"
    assume "\<not> 16 \<le> ?x"
    then have x: "unat ?x < 16" by (simp add: word_le_nat_alt)
    have dd: "unat (of_nat d :: addr) = d" using d by (intro unat_of_nat_lt) (simp add: TOP_def)
    have "unat ?x + unat (of_nat d :: addr) < 2 ^ 64" using x dd d by (simp add: TOP_def)
    then have "unat (?x + of_nat d) = unat ?x + unat (of_nat d :: addr)" by (simp add: unat_word_ariths)
    then show False using sum d dd by simp
  qed
qed

lemma ptr_cong: "(\<And>i. i < 8 \<Longrightarrow> m (p + of_nat i) = m' (p + of_nat i)) \<Longrightarrow> ptr m p = ptr m' p"
proof -
  assume e: "\<And>i. i < 8 \<Longrightarrow> m (p + of_nat i) = m' (p + of_nat i)"
  from e [of 0] e [of 1] e [of 2] e [of 3] e [of 4] e [of 5] e [of 6] e [of 7] show ?thesis
    by (simp add: ptr_def load64_def)
qed

lemma hsize_cong: "(\<And>i. 8 \<le> i \<Longrightarrow> i < 12 \<Longrightarrow> m (p + of_nat i) = m' (p + of_nat i)) \<Longrightarrow> hsize m p = hsize m' p"
proof -
  assume e: "\<And>i. 8 \<le> i \<Longrightarrow> i < 12 \<Longrightarrow> m (p + of_nat i) = m' (p + of_nat i)"
  from e [of 8] e [of 9] e [of 10] e [of 11] show ?thesis
    by (simp add: hsize_def load32_def add.assoc)
qed

lemma set_ptr_outside:
  assumes "u \<le> TOP" "v \<le> TOP" "i < 16" "u \<noteq> v \<or> 8 \<le> i"
  shows "set_ptr (ad v) w m (ad u + of_nat i) = m (ad u + of_nat i)"
proof -
  have "8 \<le> ad u + of_nat i - ad v"
  proof (cases "u = v")
    case True
    then show ?thesis using assms(3,4) by (simp add: word_le_nat_alt unat_of_nat)
  next
    case False
    have "(8 :: addr) \<le> 16" by simp
    then show ?thesis using ad_outside [OF assms(1,2) False assms(3)] by (rule order_trans)
  qed
  then show ?thesis by (simp add: set_ptr_def store64_other)
qed

lemma unat_plus_8: "unat (x + 8 :: addr) = (unat x + 8) mod 2 ^ 64"
  by (simp add: unat_word_ariths)

lemma set_size_outside:
  assumes "u \<le> TOP" "v \<le> TOP" "i < 16" "u \<noteq> v \<or> i < 8 \<or> 12 \<le> i"
  shows "set_size (ad v) w m (ad u + of_nat i) = m (ad u + of_nat i)"
proof -
  have "\<not> ad u + of_nat i - (ad v + 8) < 4"
  proof (cases "u = v")
    case True
    have e: "ad u + of_nat i - (ad v + 8) = of_nat i - 8" using True by simp
    have i: "unat (of_nat i :: addr) = i" using assms(3) by (intro unat_of_nat_lt) simp
    show ?thesis
    proof
      assume "ad u + of_nat i - (ad v + 8) < 4"
      then have "unat (of_nat i - 8 :: addr) < 4" unfolding e by (simp add: word_less_nat_alt)
      moreover have "of_nat i = (of_nat i - 8 :: addr) + 8" by simp
      then have "i = unat ((of_nat i - 8 :: addr) + 8)" using i by simp
      then have "i = (unat (of_nat i - 8 :: addr) + 8) mod 2 ^ 64" unfolding unat_plus_8 .
      ultimately show False using assms(4) True by simp
    qed
  next
    case False
    then have "16 \<le> ad u + of_nat i - ad v" using ad_outside [OF assms(1,2) False assms(3)] by simp
    moreover have "\<not> x - 8 < 4" if "16 \<le> x" for x :: addr
      using that unat_sub [of 8 x] by (simp add: word_less_nat_alt word_le_nat_alt)
    ultimately have "\<not> ad u + of_nat i - ad v - 8 < 4" by blast
    then show ?thesis by (simp only: diff_diff_eq not_False_eq_True)
  qed
  then show ?thesis by (simp add: set_size_def store32_def)
qed

lemma hdr_simps:
  assumes "u \<le> TOP" "v \<le> TOP"
  shows "ptr (set_ptr (ad v) w m) (ad u) = (if u = v then w else ptr m (ad u))"
    "hsize (set_ptr (ad v) w m) (ad u) = hsize m (ad u)"
    "ptr (set_size (ad v) z m) (ad u) = ptr m (ad u)"
    "hsize (set_size (ad v) z m) (ad u) = (if u = v then z else hsize m (ad u))"
proof -
  show "ptr (set_ptr (ad v) w m) (ad u) = (if u = v then w else ptr m (ad u))"
  proof (cases "u = v")
    case True
    then show ?thesis by (simp add: ptr_def set_ptr_def)
  next
    case False
    then show ?thesis using assms by (auto intro!: ptr_cong set_ptr_outside)
  qed
  show "hsize (set_ptr (ad v) w m) (ad u) = hsize m (ad u)"
    using assms by (auto intro!: hsize_cong set_ptr_outside)
  show "ptr (set_size (ad v) z m) (ad u) = ptr m (ad u)"
    using assms by (auto intro!: ptr_cong set_size_outside)
  show "hsize (set_size (ad v) z m) (ad u) = (if u = v then z else hsize m (ad u))"
  proof (cases "u = v")
    case True
    then show ?thesis by (simp add: hsize_def set_size_def)
  next
    case False
    then show ?thesis using assms by (auto intro!: hsize_cong set_size_outside)
  qed
qed


section \<open>The list of free blocks\<close>

text \<open>\<open>links m x us y\<close>: the headers after \<open>x\<close> are those of \<open>us\<close>, and then \<open>y\<close>. All are numbers of headers.\<close>

primrec links :: "memory \<Rightarrow> nat \<Rightarrow> nat list \<Rightarrow> nat \<Rightarrow> bool" where
  "links m x [] y \<longleftrightarrow> ptr m (ad x) = ad y"
| "links m x (u # us) y \<longleftrightarrow> ptr m (ad x) = ad u \<and> links m u us y"

lemma links_append: "links m x (us @ v # vs) y \<longleftrightarrow> links m x us v \<and> links m v vs y"
  by (induction us arbitrary: x) auto

lemma links_cong: "(\<And>u. u \<in> set (x # us) \<Longrightarrow> ptr m (ad u) = ptr m' (ad u)) \<Longrightarrow> links m x us y \<longleftrightarrow> links m' x us y"
  by (induction us arbitrary: x) auto

text \<open>Free blocks as pairs of their first header and their length, in ascending order after \<open>lo\<close> and before \<open>hi\<close>.\<close>

fun blocks_ok :: "nat \<Rightarrow> (nat \<times> nat) list \<Rightarrow> nat \<Rightarrow> bool" where
  "blocks_ok lo [] hi \<longleftrightarrow> lo \<le> hi"
| "blocks_ok lo ((a, k) # fl) hi \<longleftrightarrow> lo \<le> a \<and> 0 < k \<and> blocks_ok (a + k) fl hi"

lemma blocks_ok_le: "blocks_ok lo fl hi \<Longrightarrow> lo \<le> hi"
  by (induction lo fl hi rule: blocks_ok.induct) auto

lemma blocks_ok_append: "blocks_ok lo (L @ R) hi \<longleftrightarrow> (\<exists>mid. blocks_ok lo L mid \<and> blocks_ok mid R hi)"
proof (induction lo L hi rule: blocks_ok.induct)
  case (1 lo hi)
  show ?case
  proof (cases R)
    case Nil
    then show ?thesis by auto
  next
    case (Cons r R')
    then show ?thesis by (cases r) (auto intro: order_trans exI [of _ lo])
  qed
qed auto

lemma blocks_ok_weaken: "blocks_ok lo fl hi \<Longrightarrow> lo' \<le> lo \<Longrightarrow> hi \<le> hi' \<Longrightarrow> blocks_ok lo' fl hi'"
  by (induction lo fl hi arbitrary: lo' rule: blocks_ok.induct) auto

lemma blocks_ok_in: "blocks_ok lo fl hi \<Longrightarrow> (a, k) \<in> set fl \<Longrightarrow> lo \<le> a \<and> 0 < k \<and> a + k \<le> hi"
  by (induction lo fl hi rule: blocks_ok.induct) (auto dest: blocks_ok_le)

lemma blocks_ok_sorted: "blocks_ok lo fl hi \<Longrightarrow> sorted_wrt (<) (map fst fl)"
proof (induction lo fl hi rule: blocks_ok.induct)
  case (2 lo a k fl hi)
  have "a < b" if "(b, j) \<in> set fl" for b j using blocks_ok_in [of "a + k" fl hi b j] 2(2) that by auto
  then show ?case using 2 by auto
qed simp

text \<open>The free space of the list.\<close>

definition units :: "(nat \<times> nat) list \<Rightarrow> nat set" where
  "units fl = (\<Union>(a, k) \<in> set fl. {a ..< a + k})"

lemma units_simps [simp]: "units [] = {}" "units ((a, k) # fl) = {a ..< a + k} \<union> units fl" "units (L @ R) = units L \<union> units R"
  by (auto simp: units_def)

lemma units_bounds: "blocks_ok lo fl hi \<Longrightarrow> u \<in> units fl \<Longrightarrow> lo \<le> u \<and> u < hi"
  using blocks_ok_in by (fastforce simp: units_def)

text \<open>The state of the allocator: \<open>B\<close> is the number of the header \<^verbatim>\<open>base\<close>, \<open>T\<close> that of the break.\<close>

definition free_list_ok :: "nat \<Rightarrow> (nat \<times> nat) list \<Rightarrow> nat \<Rightarrow> memory \<Rightarrow> bool" where
  "free_list_ok B fl T m \<longleftrightarrow> blocks_ok (Suc B) fl T \<and> T \<le> TOP \<and> links m B (map fst fl) B \<and> hsize m (ad B) = 0 \<and>
     (\<forall>(a, k) \<in> set fl. hsize m (ad a) = of_nat k)"

lemma free_list_okD:
  assumes "free_list_ok B fl T m"
  shows "blocks_ok (Suc B) fl T" "T \<le> TOP" "links m B (map fst fl) B" "hsize m (ad B) = 0"
    "(a, k) \<in> set fl \<Longrightarrow> hsize m (ad a) = of_nat k" "B < T" "(a, k) \<in> set fl \<Longrightarrow> B < a \<and> 0 < k \<and> a + k \<le> T"
    "u \<in> insert B (fst ` set fl) \<Longrightarrow> u \<le> TOP"
proof -
  show b: "blocks_ok (Suc B) fl T" and t: "T \<le> TOP" and "links m B (map fst fl) B" "hsize m (ad B) = 0"
    and "(a, k) \<in> set fl \<Longrightarrow> hsize m (ad a) = of_nat k"
    using assms by (auto simp: free_list_ok_def)
  show "B < T" using blocks_ok_le [OF b] by simp
  show ak: "(a, k) \<in> set fl \<Longrightarrow> B < a \<and> 0 < k \<and> a + k \<le> T" for a k using blocks_ok_in [OF b] by force
  show "u \<in> insert B (fst ` set fl) \<Longrightarrow> u \<le> TOP" using ak \<open>B < T\<close> t by fastforce
qed

section \<open>The place of a block in the list\<close>

lemma find_up:
  assumes "u \<le> TOP" and "y \<le> TOP"
  shows "links m x us y \<Longrightarrow> sorted_wrt (<) (x # us) \<Longrightarrow> last (x # us) < u \<Longrightarrow> u < y \<or> y \<le> last (x # us) \<Longrightarrow>
    free_find m (ad u) (ad x) = Some (ad (last (x # us)))"
proof (induction us arbitrary: x)
  case Nil
  then show ?case using assms by (subst free_find.simps) (auto simp: ad_less ad_le)
next
  case (Cons v vs)
  have "v \<le> last (v # vs)" using Cons.prems(2) by (cases vs) (auto simp: less_imp_le)
  then have "v < u" "x < v" using Cons.prems by auto
  then have "free_find m (ad u) (ad x) = free_find m (ad u) (ad v)"
    using Cons.prems(1) assms by (subst free_find.simps) (auto simp: ad_less ad_le)
  then show ?case using Cons by simp
qed

lemma find_wrap:
  assumes "B \<le> u" and "u \<le> TOP"
  shows "links m x us B \<Longrightarrow> sorted_wrt (<) (x # us) \<Longrightarrow> u < x \<Longrightarrow> last (x # us) \<le> TOP \<Longrightarrow>
    free_find m (ad u) (ad x) = free_find m (ad u) (ad B)"
proof (induction us arbitrary: x)
  case Nil
  then show ?case using assms by (subst free_find.simps) (auto simp: ad_less ad_le)
next
  case (Cons v vs)
  have "v \<le> last (v # vs)" using Cons.prems(2) by (cases vs) (auto simp: less_imp_le)
  then have "v \<le> TOP" "x < v" using Cons.prems by auto
  then have "free_find m (ad u) (ad x) = free_find m (ad u) (ad v)"
    using Cons.prems assms by (subst free_find.simps) (auto simp: ad_less ad_le)
  then show ?case using Cons \<open>x < v\<close> by simp
qed

lemma links_suffix: "links m x us y \<Longrightarrow> x # us = X @ v # Y \<Longrightarrow> links m v Y y"
proof (induction us arbitrary: x X)
  case Nil
  then show ?case by (cases X) auto
next
  case (Cons u us)
  then show ?case by (cases X) auto
qed

lemma links_last:
  "links m x us y \<Longrightarrow> ptr m' (ad (last (x # us))) = ad y' \<Longrightarrow> distinct (x # us) \<Longrightarrow>
   (\<And>u. u \<in> set (butlast (x # us)) \<Longrightarrow> ptr m' (ad u) = ptr m (ad u)) \<Longrightarrow> links m' x us y'"
  by (induction us arbitrary: x) (auto split: if_splits)

lemma links_first:
  "links m u us y \<Longrightarrow> ptr m' (ad v) = ptr m (ad u) \<Longrightarrow> (\<And>w. w \<in> set us \<Longrightarrow> ptr m' (ad w) = ptr m (ad w)) \<Longrightarrow> links m' v us y"
proof (cases us)
  case (Cons w ws)
  assume l: "links m u us y" and "ptr m' (ad v) = ptr m (ad u)" and e: "\<And>w. w \<in> set us \<Longrightarrow> ptr m' (ad w) = ptr m (ad w)"
  moreover have "links m' w ws y \<longleftrightarrow> links m w ws y" by (rule links_cong) (use e Cons in auto)
  ultimately show ?thesis using Cons by auto
qed simp

text \<open>The header after those of \<open>L\<close> on the list.\<close>

definition after :: "nat \<Rightarrow> (nat \<times> nat) list \<Rightarrow> nat" where
  "after B R = (case R of [] \<Rightarrow> B | (v, k) # _ \<Rightarrow> v)"

definition before :: "nat \<Rightarrow> (nat \<times> nat) list \<Rightarrow> nat" where
  "before B L = last (B # map fst L)"

lemma links_split: "links m B (map fst (L @ R)) B \<longleftrightarrow> links m B (map fst L) (after B R) \<and> (R \<noteq> [] \<longrightarrow> links m (after B R) (map fst (tl R)) B)"
  by (cases R) (auto simp: links_append after_def split: prod.splits)

lemma links_after: "links m u (map fst R) B \<longleftrightarrow> ptr m (ad u) = ad (after B R) \<and> (R \<noteq> [] \<longrightarrow> links m (after B R) (map fst (tl R)) B)"
  by (cases R) (auto simp: after_def split: prod.splits)

lemma links_before: "links m B (map fst L) y \<Longrightarrow> ptr m (ad (before B L)) = ad y"
  by (cases L rule: rev_cases) (auto simp: before_def links_append)

lemma before_in: "before B L \<in> insert B (fst ` set L)"
  by (cases L rule: rev_cases) (auto simp: before_def)

lemma nodes_sorted: "free_list_ok B fl T m \<Longrightarrow> sorted_wrt (<) (B # map fst fl)"
  using blocks_ok_sorted free_list_okD by fastforce

lemma free_find_ok:
  assumes ok: "free_list_ok B (L @ R) T m" and L: "\<And>a k. (a, k) \<in> set L \<Longrightarrow> a < u" and R: "\<And>a k. (a, k) \<in> set R \<Longrightarrow> u < a"
    and u: "B < u" "u \<le> TOP" and f: "f \<in> insert B (fst ` set (L @ R))"
  shows "free_find m (ad u) (ad f) = Some (ad (before B L))"
proof -
  let ?y = "after B R"
  have lk: "links m B (map fst L) ?y" and rk: "R \<noteq> [] \<Longrightarrow> links m ?y (map fst (tl R)) B"
    using free_list_okD(3) [OF ok] links_split by blast+
  have srt: "sorted_wrt (<) (B # map fst L @ map fst R)" using nodes_sorted [OF ok] by simp
  have y: "?y \<le> TOP" using free_list_okD(8) [OF ok, of ?y] by (cases R) (auto simp: after_def)
  have z: "before B L < u" using before_in [of B L] L u(1) by force
  have bz: "B \<le> before B L" using before_in [of B L] free_list_okD(7) [OF ok] by fastforce
  have yz: "u < ?y \<or> ?y \<le> before B L" using R bz by (cases R) (auto simp: after_def)
  have low: "free_find m (ad u) (ad x) = Some (ad (before B L))" if "x \<in> insert B (fst ` set L)" for x
  proof -
    have "x \<in> set (B # map fst L)" using that by simp
    then obtain X Y where XY: "B # map fst L = X @ x # Y" using split_list by metis
    have "last (x # Y) = before B L" unfolding before_def XY by simp
    moreover have "sorted_wrt (<) (X @ x # Y)" using srt unfolding XY [symmetric] by (auto simp: sorted_wrt_append)
    then have "sorted_wrt (<) (x # Y)" by (simp add: sorted_wrt_append)
    ultimately show ?thesis using find_up [OF u(2) y links_suffix [OF lk XY]] z yz by simp
  qed
  show ?thesis
  proof (cases "f \<in> fst ` set R")
    case True
    then obtain X Y where XY: "map fst R = X @ f # Y" using split_list [of f "map fst R"] by auto
    then have "R \<noteq> []" and "?y # map fst (tl R) = X @ f # Y" by (cases R; auto simp: after_def)+
    then have "links m f Y B" using links_suffix [OF rk] by blast
    moreover have "sorted_wrt (<) (f # Y)" using srt unfolding XY by (simp add: sorted_wrt_append)
    moreover have "last (f # Y) \<in> set (map fst R)" unfolding XY by simp
    then have "last (f # Y) \<in> insert B (fst ` set (L @ R))" unfolding set_map set_append image_Un by blast
    then have "last (f # Y) \<le> TOP" using free_list_okD(8) [OF ok] by blast
    moreover have "u < f" using R True by auto
    ultimately have "free_find m (ad u) (ad f) = free_find m (ad u) (ad B)" using find_wrap [of B u] u by simp
    then show ?thesis using low by simp
  next
    case False
    then show ?thesis using f low by auto
  qed
qed

section \<open>Joining adjacent blocks\<close>

definition join_up :: "nat \<Rightarrow> nat \<Rightarrow> (nat \<times> nat) list \<Rightarrow> nat \<times> (nat \<times> nat) list" where
  "join_up u n R = (case R of (v, k) # R' \<Rightarrow> if u + n = v then (n + k, R') else (n, R) | [] \<Rightarrow> (n, []))"

definition join_down :: "(nat \<times> nat) list \<Rightarrow> nat \<Rightarrow> nat \<Rightarrow> (nat \<times> nat) list" where
  "join_down L u n = (if L \<noteq> [] \<and> fst (last L) + snd (last L) = u then butlast L @ [(fst (last L), snd (last L) + n)]
     else L @ [(u, n)])"

lemma join_up_units: "join_up u n R = (n', R') \<Longrightarrow> {u ..< u + n'} \<union> units R' = {u ..< u + n} \<union> units R"
  by (auto simp: join_up_def split: list.splits prod.splits if_splits)

lemma join_up_ok: "join_up u n R = (n', R') \<Longrightarrow> blocks_ok lo ((u, n) # R) T \<Longrightarrow> blocks_ok lo ((u, n') # R') T"
  by (auto simp: join_up_def add.assoc split: list.splits prod.splits if_splits)

lemma join_down_units: "blocks_ok lo (L @ [(u, n)]) T \<Longrightarrow> units (join_down L u n) = units L \<union> {u ..< u + n}"
  by (cases L rule: rev_cases) (auto simp: join_down_def blocks_ok_append)

lemma join_down_ok: "blocks_ok lo (L @ (u, n) # R) T \<Longrightarrow> blocks_ok lo (join_down L u n @ R) T"
proof (cases L rule: rev_cases)
  case (snoc L' x)
  moreover assume "blocks_ok lo (L @ (u, n) # R) T"
  ultimately show ?thesis by (cases x) (fastforce simp: join_down_def blocks_ok_append add.assoc)
qed (simp add: join_down_def)

section \<open>free keeps the list\<close>

text \<open>The first half of the linking: the block gets its successor and takes in the one above it.\<close>

definition link_up :: "addr \<Rightarrow> addr \<Rightarrow> memory \<Rightarrow> memory" where
  "link_up bp p m =
     (if plus_hdr bp (hsize m bp) = ptr m p
      then (let m = set_size bp (hsize m bp + hsize m (ptr m p)) m in set_ptr bp (ptr m (ptr m p)) m)
      else set_ptr bp (ptr m p) m)"

definition link_down :: "addr \<Rightarrow> addr \<Rightarrow> memory \<Rightarrow> memory" where
  "link_down bp p m =
     (if plus_hdr p (hsize m p) = bp
      then (let m = set_size p (hsize m p + hsize m bp) m in set_ptr p (ptr m bp) m)
      else set_ptr p bp m)"

lemma free_link_eq: "free_link bp p m = link_down bp p (link_up bp p m)"
  by (simp add: free_link_def link_up_def link_down_def Let_def)

lemma ad_plus_eq: "u + k \<le> TOP \<Longrightarrow> v \<le> TOP \<Longrightarrow> plus_hdr (ad u) (of_nat k) = ad v \<longleftrightarrow> u + k = v"
  using ad_plus [of k u] ad_eq [of "u + k" v] by simp

definition unchanged :: "nat set \<Rightarrow> memory \<Rightarrow> memory \<Rightarrow> bool" where
  "unchanged W m m' \<longleftrightarrow> (\<forall>w i. w \<le> TOP \<longrightarrow> w \<notin> W \<longrightarrow> i < 16 \<longrightarrow> m' (ad w + of_nat i) = m (ad w + of_nat i))"

lemma unchangedD:
  assumes "unchanged W m m'" and "w \<le> TOP" and "w \<notin> W"
  shows "ptr m' (ad w) = ptr m (ad w)" "hsize m' (ad w) = hsize m (ad w)"
  using assms by (auto simp: unchanged_def intro!: ptr_cong hsize_cong)

lemma unchanged_set: "v \<le> TOP \<Longrightarrow> unchanged {v} m (set_ptr (ad v) x m)" "v \<le> TOP \<Longrightarrow> unchanged {v} m (set_size (ad v) z m)"
  "v \<le> TOP \<Longrightarrow> unchanged {v} m (set_ptr (ad v) x (set_size (ad v) z m))"
  by (auto simp: unchanged_def set_ptr_outside set_size_outside)

lemma unchanged_trans: "unchanged W m m1 \<Longrightarrow> unchanged W' m1 m2 \<Longrightarrow> unchanged (W \<union> W') m m2"
  by (auto simp: unchanged_def)

lemma unchanged_mono: "unchanged W m m' \<Longrightarrow> W \<subseteq> W' \<Longrightarrow> unchanged W' m m'"
  by (auto simp: unchanged_def)

lemma block_bounds:
  assumes "blocks_ok (Suc B) (L @ (u, n) # R) T"
  shows "B < u" "0 < n" "u + n \<le> T" "(a, k) \<in> set L \<Longrightarrow> B < a \<and> 0 < k \<and> a + k \<le> u" "(a, k) \<in> set R \<Longrightarrow> u + n \<le> a \<and> 0 < k \<and> a + k \<le> T"
proof -
  obtain mid where mid: "blocks_ok (Suc B) L mid" "mid \<le> u" "0 < n" "blocks_ok (u + n) R T"
    using assms by (auto simp: blocks_ok_append)
  show "B < u" using blocks_ok_le [OF mid(1)] mid(2) by simp
  show "0 < n" "u + n \<le> T" using mid(3) blocks_ok_le [OF mid(4)] by simp_all
  show "(a, k) \<in> set L \<Longrightarrow> B < a \<and> 0 < k \<and> a + k \<le> u" using blocks_ok_in [OF mid(1)] mid(2) by force
  show "(a, k) \<in> set R \<Longrightarrow> u + n \<le> a \<and> 0 < k \<and> a + k \<le> T" using blocks_ok_in [OF mid(4)] by force
qed

lemma link_up_ok:
  assumes ok: "free_list_ok B (L @ R) T m" and b: "blocks_ok (Suc B) (L @ (u, n) # R) T" and n: "hsize m (ad u) = of_nat n"
    and j: "join_up u n R = (n', R')"
  shows "ptr (link_up (ad u) (ad (before B L)) m) (ad u) = ad (after B R')"
    "hsize (link_up (ad u) (ad (before B L)) m) (ad u) = of_nat n'"
    "unchanged {u} m (link_up (ad u) (ad (before B L)) m)"
proof -
  let ?p = "before B L" and ?m = "link_up (ad u) (ad (before B L)) m"
  have un: "B < u" "0 < n" "u + n \<le> T" "T \<le> TOP"
    using block_bounds(1-3) [OF b] free_list_okD(2) [OF ok] by simp_all
  have uT: "u \<le> TOP" using un by simp
  have pp: "ptr m (ad ?p) = ad (after B R)"
    using free_list_okD(3) [OF ok] unfolding links_split by (blast intro: links_before)
  have "after B R \<in> insert B (fst ` set (L @ R))" by (cases R) (auto simp: after_def)
  then have y: "after B R \<le> TOP" using free_list_okD(8) [OF ok] by blast
  have "?p \<in> insert B (fst ` set (L @ R))" using before_in [of B L] by auto
  then have pT: "?p \<le> TOP" using free_list_okD(8) [OF ok] by blast
  show "unchanged {u} m ?m"
    using unchanged_set [OF uT] by (simp add: link_up_def Let_def)
  show "ptr ?m (ad u) = ad (after B R')" "hsize ?m (ad u) = of_nat n'"
  proof -
    have "ptr ?m (ad u) = ad (after B R') \<and> hsize ?m (ad u) = of_nat n'"
    proof (cases "\<exists>k R2. R = (u + n, k) # R2")
      case True
      then obtain k R2 where R: "R = (u + n, k) # R2" by blast
      have k: "hsize m (ad (u + n)) = of_nat k" using free_list_okD(5) [OF ok, of "u + n" k] R by simp
      have "links m (u + n) (map fst R2) B" using free_list_okD(3) [OF ok] R unfolding links_split by (simp add: after_def)
      then have "ptr m (ad (u + n)) = ad (after B R2)" by (rule links_after [THEN iffD1, THEN conjunct1])
      moreover have "n' = n + k" "R' = R2" using j R by (auto simp: join_up_def)
      moreover have "plus_hdr (ad u) (of_nat n) = ad (u + n)" using un by (intro ad_plus) simp
      moreover have "after B R = u + n" using R by (simp add: after_def)
      moreover have "?p \<le> TOP" "u + n \<le> TOP" using pT un by simp_all
      then have "ptr (set_size (ad u) z m) (ad ?p) = ptr m (ad ?p)"
        "ptr (set_size (ad u) z m) (ad (u + n)) = ptr m (ad (u + n))" for z using hdr_simps(3) uT by simp_all
      ultimately have "?m = set_ptr (ad u) (ad (after B R')) (set_size (ad u) (of_nat n') m)"
        unfolding link_up_def pp n Let_def by (simp only: pp k if_True simp_thms of_nat_add)
      then show ?thesis by (simp add: hdr_simps [OF uT uT])
    next
      case False
      then have "u + n \<noteq> after B R" using un(1,2) by (cases R) (auto simp: after_def)
      moreover have "n' = n" "R' = R" using j False by (auto simp: join_up_def split: list.splits if_splits)
      moreover have "u + n \<le> TOP" using un by simp
      then have "plus_hdr (ad u) (of_nat n) \<noteq> ad (after B R)" using ad_plus_eq y \<open>u + n \<noteq> after B R\<close> by blast
      ultimately have "?m = set_ptr (ad u) (ad (after B R')) m" unfolding link_up_def pp n by simp
      then show ?thesis using n \<open>n' = n\<close> by (simp add: hdr_simps [OF uT uT])
    qed
    then show "ptr ?m (ad u) = ad (after B R')" "hsize ?m (ad u) = of_nat n'" by simp_all
  qed
qed

text \<open>The second half: the predecessor takes in the block or links to it.\<close>

lemma down_bounds:
  assumes b: "blocks_ok (Suc B) (L @ (u, n) # R) T" and T: "T \<le> TOP"
  shows "u \<le> TOP" "B \<le> TOP" "before B L \<le> TOP" "(x, i) \<in> set L \<Longrightarrow> x \<le> TOP" "(x, i) \<in> set R \<Longrightarrow> x \<le> TOP"
    "distinct (B # map fst L @ u # map fst R)"
proof -
  let ?p = "before B L"
  note un = block_bounds [OF b]
  have uT: "u \<le> TOP" using un T by simp
  have nL: "a \<le> TOP" if "(a, k) \<in> set L" for a k using un(4) [OF that] uT by simp
  have nR: "a \<le> TOP" if "(a, k) \<in> set R" for a k using un(5) [OF that] T by simp
  have BT: "B \<le> TOP" using un(1) uT by simp
  have pT: "?p \<le> TOP" using BT before_in [of B L] by (auto intro: nL)
  have "\<forall>x\<in>set (map fst (L @ (u, n) # R)). B < x"
  proof -
    have "B < x" if "(x, k) \<in> set L" for x k using un(4) [OF that] by simp
    moreover have "B < x" if "(x, k) \<in> set R" for x k using un(1) un(5) [OF that] by simp
    ultimately show ?thesis using un(1) by auto
  qed
  then have "sorted_wrt (<) (B # map fst (L @ (u, n) # R))" using blocks_ok_sorted [OF b] by simp
  then have dist: "distinct (B # map fst L @ u # map fst R)" unfolding strict_sorted_iff by simp
  show "u \<le> TOP" "B \<le> TOP" "?p \<le> TOP" by (rule uT BT pT)+
  show "(x, i) \<in> set L \<Longrightarrow> x \<le> TOP" "(x, i) \<in> set R \<Longrightarrow> x \<le> TOP" by (fact nL nR)+
  show "distinct (B # map fst L @ u # map fst R)" by (rule dist)
qed

lemma link_down_changes:
  assumes "before B L \<le> TOP"
  shows "unchanged {before B L} m (link_down (ad u) (ad (before B L)) m)"
  using unchanged_set [OF assms] by (simp add: link_down_def Let_def)

lemma link_down_joins:
  assumes b: "blocks_ok (Suc B) (L @ (u, n) # R) T" and T: "T \<le> TOP" and B: "hsize m (ad B) = 0"
    and L: "links m B (map fst L) y" "\<And>a k. (a, k) \<in> set L \<Longrightarrow> hsize m (ad a) = of_nat k"
    and R: "links m u (map fst R) B" "\<And>a k. (a, k) \<in> set R \<Longrightarrow> hsize m (ad a) = of_nat k"
    and n: "hsize m (ad u) = of_nat n" and L': "L = L' @ [(a, k)]" and u: "a + k = u"
  shows "free_list_ok B (join_down L u n @ R) T (link_down (ad u) (ad (before B L)) m)"
proof -
  let ?p = "before B L" and ?m = "link_down (ad u) (ad (before B L)) m"
  note uT = down_bounds(1) [OF b T] and BT = down_bounds(2) [OF b T] and pT = down_bounds(3) [OF b T]
    and nL = down_bounds(4) [OF b T] and nR = down_bounds(5) [OF b T] and dist = down_bounds(6) [OF b T]
  have same: "ptr ?m (ad w) = ptr m (ad w)" "hsize ?m (ad w) = hsize m (ad w)" if "w \<noteq> ?p" "w \<le> TOP" for w
    using unchangedD [OF link_down_changes [OF pT]] that by auto
  have p: "?p = a" and jd: "join_down L u n = L' @ [(a, k + n)]" using L' u by (auto simp: before_def join_down_def)
  have k: "hsize m (ad a) = of_nat k" using L(2) L' by simp
  have aT: "a \<le> TOP" using pT p by simp
  have "k \<le> TOP" using u uT by simp
  then have "plus_hdr (ad a) (of_nat k) = ad u" using ad_plus [of k a] u by simp
  then have "?m = set_ptr (ad a) (ptr m (ad u)) (set_size (ad a) (of_nat (k + n)) m)"
    unfolding link_down_def p k n Let_def by (simp only: hdr_simps(3) [OF uT aT] if_True simp_thms of_nat_add)
  then have new: "ptr ?m (ad a) = ptr m (ad u)" "hsize ?m (ad a) = of_nat (k + n)"
    by (simp_all only: hdr_simps [OF aT aT] if_True simp_thms)
  have lk: "links m B (map fst L') a" using L(1) L' by (simp add: links_append)
  have "links ?m B (map fst L') a \<longleftrightarrow> links m B (map fst L') a"
  proof (rule links_cong)
    fix w assume w: "w \<in> set (B # map fst L')"
    have "w \<noteq> a" using w dist L' by auto
    moreover have "w \<le> TOP" using w BT L' by (auto intro: nL)
    ultimately show "ptr ?m (ad w) = ptr m (ad w)" using same(1) p by simp
  qed
  moreover have "links ?m a (map fst R) B"
  proof (rule links_first [OF R(1) new(1)])
    fix w assume w: "w \<in> set (map fst R)"
    have "w \<noteq> a" using w dist L' by auto
    moreover have "w \<le> TOP" using w by (auto intro: nR)
    ultimately show "ptr ?m (ad w) = ptr m (ad w)" using same(1) p by simp
  qed
  moreover note lk
  ultimately have "links ?m B (map fst (join_down L u n @ R)) B" by (simp add: jd links_append)
  moreover have "B \<noteq> a" using dist L' by auto
  then have "hsize ?m (ad B) = 0" using same(2) [of B] B BT p by simp
  moreover have "hsize ?m (ad b) = of_nat j" if "(b, j) \<in> set (join_down L u n @ R)" for b j
  proof (cases "b = a")
    case True
    have "a \<notin> set (map fst L')" "a \<notin> set (map fst R)" using dist L' by auto
    then have "(b, j) \<notin> set L'" "(b, j) \<notin> set R" using True by (auto simp: image_iff)
    then have "j = k + n" using that unfolding jd by auto
    then show ?thesis using new(2) True by simp
  next
    case False
    then have "(b, j) \<in> set L \<or> (b, j) \<in> set R" using that L' unfolding jd by auto
    then consider "(b, j) \<in> set L" | "(b, j) \<in> set R" by blast
    then show ?thesis using same(2) [of b] False L(2) R(2) nL nR p by cases simp_all
  qed
  ultimately show ?thesis using join_down_ok [OF b] T by (auto simp: free_list_ok_def)
qed

lemma link_down_links:
  assumes b: "blocks_ok (Suc B) (L @ (u, n) # R) T" and T: "T \<le> TOP" and B: "hsize m (ad B) = 0"
    and L: "links m B (map fst L) y" "\<And>a k. (a, k) \<in> set L \<Longrightarrow> hsize m (ad a) = of_nat k"
    and R: "links m u (map fst R) B" "\<And>a k. (a, k) \<in> set R \<Longrightarrow> hsize m (ad a) = of_nat k"
    and n: "hsize m (ad u) = of_nat n" and False: "\<not> (L \<noteq> [] \<and> fst (last L) + snd (last L) = u)"
  shows "free_list_ok B (join_down L u n @ R) T (link_down (ad u) (ad (before B L)) m)"
proof -
  let ?p = "before B L" and ?m = "link_down (ad u) (ad (before B L)) m"
  note un = block_bounds [OF b]
  note uT = down_bounds(1) [OF b T] and BT = down_bounds(2) [OF b T] and pT = down_bounds(3) [OF b T]
    and nL = down_bounds(4) [OF b T] and nR = down_bounds(5) [OF b T] and dist = down_bounds(6) [OF b T]
  have same: "ptr ?m (ad w) = ptr m (ad w)" "hsize ?m (ad w) = hsize m (ad w)" if "w \<noteq> ?p" "w \<le> TOP" for w
    using unchangedD [OF link_down_changes [OF pT]] that by auto
  have "plus_hdr (ad ?p) (hsize m (ad ?p)) \<noteq> ad u"
  proof (cases L rule: rev_cases)
    case Nil
    then show ?thesis using B ad_plus_eq [of B 0 u] un(1) uT by (simp add: before_def)
  next
    case (snoc L' x)
    obtain a k where x: "x = (a, k)" by (cases x)
    have "hsize m (ad a) = of_nat k" "a + k \<le> TOP" "a + k \<noteq> u"
      using L(2) snoc x un(4) [of a k] uT False by auto
    then show ?thesis using snoc x ad_plus_eq [of a k u] uT by (simp add: before_def)
  qed
  then have "?m = set_ptr (ad ?p) (ad u) m" by (simp add: link_down_def)
  then have new: "ptr ?m (ad ?p) = ad u" "hsize ?m (ad ?p) = hsize m (ad ?p)" by (simp_all add: hdr_simps [OF pT pT])
  have jd: "join_down L u n = L @ [(u, n)]" using False by (auto simp: join_down_def)
  have "?p \<in> set (B # map fst L)" using before_in [of B L] by simp
  then have pu: "?p \<noteq> u" "?p \<notin> set (map fst R)" using dist unfolding distinct.simps distinct_append by (auto simp del: set_map)
  have "links ?m B (map fst L) u"
  proof (rule links_last [OF L(1)])
    show "ptr ?m (ad (last (B # map fst L))) = ad u" using new(1) by (simp add: before_def)
    show "distinct (B # map fst L)" using dist by simp
    fix w assume w: "w \<in> set (butlast (B # map fst L))"
    have "w \<noteq> ?p" using w dist unfolding before_def by (cases L rule: rev_cases) (auto simp: butlast_append)
    moreover have "w \<in> set (B # map fst L)" using w by (rule in_set_butlastD)
    then have "w \<le> TOP" using BT by (auto intro: nL)
    ultimately show "ptr ?m (ad w) = ptr m (ad w)" using same(1) by simp
  qed
  moreover have "links ?m u (map fst R) B \<longleftrightarrow> links m u (map fst R) B"
  proof (rule links_cong)
    fix w assume w: "w \<in> set (u # map fst R)"
    then have "w \<noteq> ?p" using pu by auto
    moreover have "w \<le> TOP" using w uT by (auto intro: nR)
    ultimately show "ptr ?m (ad w) = ptr m (ad w)" using same(1) by simp
  qed
  moreover note R(1)
  ultimately have "links ?m B (map fst (join_down L u n @ R)) B" by (simp add: jd links_append)
  moreover have keep: "hsize ?m (ad w) = hsize m (ad w)" if "w \<le> TOP" for w
    using same(2) [of w] new(2) that by (cases "w = ?p") auto
  then have "hsize ?m (ad B) = 0" "hsize ?m (ad u) = of_nat n" using B n BT uT by auto
  moreover have "hsize ?m (ad b) = of_nat j" if bj: "(b, j) \<in> set L \<union> set R" for b j
  proof -
    consider "(b, j) \<in> set L" | "(b, j) \<in> set R" using bj by blast
    then show ?thesis using keep [of b] nL nR L(2) R(2) by cases simp_all
  qed
  ultimately show ?thesis using join_down_ok [OF b] T jd by (auto simp: free_list_ok_def)
qed

lemma link_down_ok:
  assumes b: "blocks_ok (Suc B) (L @ (u, n) # R) T" and T: "T \<le> TOP" and B: "hsize m (ad B) = 0"
    and L: "links m B (map fst L) y" "\<And>a k. (a, k) \<in> set L \<Longrightarrow> hsize m (ad a) = of_nat k"
    and R: "links m u (map fst R) B" "\<And>a k. (a, k) \<in> set R \<Longrightarrow> hsize m (ad a) = of_nat k"
    and n: "hsize m (ad u) = of_nat n"
  shows "free_list_ok B (join_down L u n @ R) T (link_down (ad u) (ad (before B L)) m)"
    "unchanged {before B L} m (link_down (ad u) (ad (before B L)) m)"
    "before B L \<in> insert B (fst ` set (join_down L u n @ R))"
proof -
  show "free_list_ok B (join_down L u n @ R) T (link_down (ad u) (ad (before B L)) m)"
  proof (cases "L \<noteq> [] \<and> fst (last L) + snd (last L) = u")
    case True
    then obtain L' a k where "L = L' @ [(a, k)]" "a + k = u" by (cases L rule: rev_cases) auto
    then show ?thesis using link_down_joins [OF b T B L(1) _ R(1) _ n] L(2) R(2) by blast
  next
    case False
    then show ?thesis using link_down_links [OF b T B L(1) _ R(1) _ n] L(2) R(2) by blast
  qed
  show "unchanged {before B L} m (link_down (ad u) (ad (before B L)) m)"
    by (rule link_down_changes [OF down_bounds(3) [OF b T]])
  show "before B L \<in> insert B (fst ` set (join_down L u n @ R))"
    by (cases L rule: rev_cases) (auto simp: before_def join_down_def)
qed

section \<open>free is correct\<close>

lemma blocks_ok_insert:
  assumes "blocks_ok lo fl hi" "{u ..< u + n} \<inter> units fl = {}" "lo \<le> u" "0 < n" "u + n \<le> hi"
  shows "\<exists>L R. fl = L @ R \<and> blocks_ok lo (L @ (u, n) # R) hi"
  using assms
proof (induction lo fl hi rule: blocks_ok.induct)
  case (1 lo hi)
  then show ?case by simp
next
  case (2 lo a k fl hi)
  show ?case
  proof (cases "u < a")
    case True
    have "u + n \<le> a"
    proof (rule ccontr)
      assume "\<not> u + n \<le> a"
      then have "a \<in> {u ..< u + n} \<inter> units ((a, k) # fl)" using True 2(2) by simp
      then show False using 2(3) by blast
    qed
    then have "blocks_ok lo ([] @ (u, n) # (a, k) # fl) hi" using 2 by simp
    then show ?thesis by blast
  next
    case False
    have "a + k \<le> u"
    proof (rule ccontr)
      assume "\<not> a + k \<le> u"
      then have "u \<in> {u ..< u + n} \<inter> units ((a, k) # fl)" using False 2(5) by simp
      then show False using 2(3) by blast
    qed
    moreover have "{u ..< u + n} \<inter> units fl = {}" using 2(3) by auto
    ultimately obtain L R where "fl = L @ R" "blocks_ok (a + k) (L @ (u, n) # R) hi" using 2 by auto
    then have "(a, k) # fl = ((a, k) # L) @ R" "blocks_ok lo (((a, k) # L) @ (u, n) # R) hi" using 2(2) by auto
    then show ?thesis by blast
  qed
qed

lemma join_contains:
  assumes "join_up u n R = (n', R')"
  shows "\<exists>a k. (a, k) \<in> set (join_down L u n' @ R') \<and> n \<le> k"
proof -
  have "n \<le> n'" using assms by (auto simp: join_up_def split: list.splits prod.splits if_splits)
  then show ?thesis by (cases L rule: rev_cases) (fastforce simp: join_down_def)+
qed

lemma ad_back: "ad (Suc u) - 16 = ad u" "ad u + 16 = ad (Suc u)"
  by (simp_all add: ad_def)

lemma free_link_ok:
  assumes ok: "free_list_ok B (L @ R) T m" and b: "blocks_ok (Suc B) (L @ (u, n) # R) T" and n: "hsize m (ad u) = of_nat n"
    and j: "join_up u n R = (n', R')"
  shows "free_list_ok B (join_down L u n' @ R') T (free_link (ad u) (ad (before B L)) m)"
    "before B L \<in> insert B (fst ` set (join_down L u n' @ R'))"
    "unchanged {u, before B L} m (free_link (ad u) (ad (before B L)) m)"
proof -
  let ?m = "link_up (ad u) (ad (before B L)) m"
  note up = link_up_ok [OF ok b n j]
  note un = block_bounds [OF b]
  have T: "T \<le> TOP" by (rule free_list_okD(2) [OF ok])
  have same: "ptr ?m (ad w) = ptr m (ad w)" "hsize ?m (ad w) = hsize m (ad w)" if "w \<le> TOP" "w \<noteq> u" for w
    using unchangedD [OF up(3)] that by auto
  have b': "blocks_ok (Suc B) (L @ (u, n') # R') T"
  proof -
    obtain mid where "blocks_ok (Suc B) L mid" "blocks_ok mid ((u, n) # R) T" using b unfolding blocks_ok_append by blast
    then show ?thesis using join_up_ok [OF j] unfolding blocks_ok_append by blast
  qed
  have BT: "B \<noteq> u" "B \<le> TOP" using un(1,3) T by auto
  have RL: "(a, k) \<in> set R" if "(a, k) \<in> set R'" for a k
    using j that by (auto simp: join_up_def split: list.splits prod.splits if_splits)
  have nL: "a \<le> TOP \<and> a \<noteq> u" if "(a, k) \<in> set L" for a k using un(3) un(4) [OF that] T by simp
  have nR: "a \<le> TOP \<and> a \<noteq> u" if "(a, k) \<in> set R'" for a k using un(2) un(5) [OF RL [OF that]] T by simp
  have "links ?m B (map fst L) (after B R) \<longleftrightarrow> links m B (map fst L) (after B R)"
  proof (rule links_cong)
    fix w assume "w \<in> set (B # map fst L)"
    then have "w \<le> TOP \<and> w \<noteq> u" using BT by (auto dest: nL)
    then show "ptr ?m (ad w) = ptr m (ad w)" using same by blast
  qed
  then have L: "links ?m B (map fst L) (after B R)" using free_list_okD(3) [OF ok] links_split by blast
  have R: "links ?m u (map fst R') B"
  proof (cases R')
    case Nil
    then show ?thesis using up(1) by (simp add: after_def)
  next
    case (Cons r R2)
    have "\<exists>X. R = X @ R'" using j by (auto simp: join_up_def split: list.splits prod.splits if_splits)
    then obtain X where "R = X @ R'" by blast
    then have "links m B (map fst (L @ X) @ fst r # map fst R2) B" using free_list_okD(3) [OF ok] Cons by simp
    then have "links m (fst r) (map fst R2) B" unfolding links_append by blast
    moreover have "links ?m (fst r) (map fst R2) B \<longleftrightarrow> links m (fst r) (map fst R2) B"
    proof (rule links_cong)
      fix w assume "w \<in> set (fst r # map fst R2)"
      then have "w \<in> fst ` set R'" using Cons by auto
      then have "w \<le> TOP \<and> w \<noteq> u" by (auto dest: nR)
      then show "ptr ?m (ad w) = ptr m (ad w)" using same by blast
    qed
    ultimately show ?thesis using Cons up(1) by (simp add: after_def split: prod.splits)
  qed
  have "hsize ?m (ad a) = of_nat k" if "(a, k) \<in> set L" for a k
    using same(2) [of a] nL [OF that] free_list_okD(5) [OF ok, of a k] that by simp
  moreover have "hsize ?m (ad a) = of_nat k" if "(a, k) \<in> set R'" for a k
    using same(2) [of a] nR [OF that] free_list_okD(5) [OF ok, of a k] RL [OF that] by simp
  moreover have "hsize ?m (ad B) = 0" using same(2) [of B] BT free_list_okD(4) [OF ok] by simp
  ultimately have d: "free_list_ok B (join_down L u n' @ R') T (link_down (ad u) (ad (before B L)) ?m)"
    "unchanged {before B L} ?m (link_down (ad u) (ad (before B L)) ?m)"
    "before B L \<in> insert B (fst ` set (join_down L u n' @ R'))"
    using link_down_ok [OF b' T _ L _ R _ up(2)] by blast+
  show "free_list_ok B (join_down L u n' @ R') T (free_link (ad u) (ad (before B L)) m)"
    using d(1) unfolding free_link_eq .
  show "before B L \<in> insert B (fst ` set (join_down L u n' @ R'))" by (rule d(3))
  show "unchanged {u, before B L} m (free_link (ad u) (ad (before B L)) m)"
    using unchanged_trans [OF up(3) d(2)] unfolding free_link_eq by (simp add: insert_commute)
qed

lemma before_units: "blocks_ok lo L hi \<Longrightarrow> before B L \<in> insert B (units L)"
proof (cases L rule: rev_cases)
  case (snoc L' x)
  moreover assume "blocks_ok lo L hi"
  moreover obtain a k where "x = (a, k)" by (cases x)
  ultimately show ?thesis using blocks_ok_in [of lo L hi a k] by (simp add: before_def)
qed (simp add: before_def)

lemma ufree_ok:
  assumes ok: "free_list_ok B fl T (umem s)" and f: "freep s = ad f" "f \<in> insert B (fst ` set fl)"
    and u: "B < u" "0 < n" "u + n \<le> T" "{u ..< u + n} \<inter> units fl = {}" "hsize (umem s) (ad u) = of_nat n"
  shows "\<exists>fl' f' m'. ufree (ad (Suc u)) s = Inr (s\<lparr>umem := m', freep := ad f'\<rparr>) \<and> free_list_ok B fl' T m' \<and>
    f' \<in> insert B (fst ` set fl') \<and> units fl' = units fl \<union> {u ..< u + n} \<and> (\<exists>a k. (a, k) \<in> set fl' \<and> n \<le> k) \<and>
    unchanged (insert B (insert u (units fl))) (umem s) m'"
proof -
  obtain L R where fl: "fl = L @ R" and b: "blocks_ok (Suc B) (L @ (u, n) # R) T"
    using blocks_ok_insert [OF free_list_okD(1) [OF ok] u(4) _ u(2,3)] u(1) by auto
  note un = block_bounds [OF b]
  have T: "T \<le> TOP" by (rule free_list_okD(2) [OF ok])
  have lr: "\<And>a k. (a, k) \<in> set L \<Longrightarrow> a < u" "\<And>a k. (a, k) \<in> set R \<Longrightarrow> u < a"
    using un(2) un(4) un(5) by force+
  let ?p = "before B L"
  let ?m = "free_link (ad u) (ad ?p) (umem s)"
  have "u \<le> TOP" using u(3) T by simp
  then have "free_find (umem s) (ad u) (ad f) = Some (ad ?p)"
  proof (intro free_find_ok [OF ok [unfolded fl]])
    show "a < u" if "(a, k) \<in> set L" for a k using that by (rule lr(1))
    show "u < a" if "(a, k) \<in> set R" for a k using that by (rule lr(2))
    show "B < u" "f \<in> insert B (fst ` set (L @ R))" by (rule u(1), rule f(2) [unfolded fl])
  qed
  then have eq: "ufree (ad (Suc u)) s = Inr (s\<lparr>umem := ?m, freep := ad ?p\<rparr>)" by (simp add: ufree_def ad_back f(1))
  obtain n' R' where j: "join_up u n R = (n', R')" by (cases "join_up u n R")
  note ln = free_link_ok [OF ok [unfolded fl] b u(5) j]
  have "units (join_down L u n' @ R') = units fl \<union> {u ..< u + n}"
  proof -
    obtain mid where mid: "blocks_ok (Suc B) L mid" "blocks_ok mid ((u, n) # R) T" using b unfolding blocks_ok_append by blast
    have "blocks_ok mid ((u, n') # R') T" by (rule join_up_ok [OF j mid(2)])
    then have "blocks_ok mid [(u, n')] T" using blocks_ok_le [of "u + n'" R' T] by simp
    then have "blocks_ok (Suc B) (L @ [(u, n')]) T" using mid(1) unfolding blocks_ok_append by blast
    from join_down_units [OF this] join_up_units [OF j] fl show ?thesis by auto
  qed
  note fu = this
  obtain mid where "blocks_ok (Suc B) L mid" using b unfolding blocks_ok_append by blast
  then have "?p \<in> insert B (units L)" by (rule before_units)
  then have "{u, ?p} \<subseteq> insert B (insert u (units fl))" unfolding fl by auto
  then have "unchanged (insert B (insert u (units fl))) (umem s) ?m" by (rule unchanged_mono [OF ln(3)])
  note ch = this
  obtain a k where ak: "(a, k) \<in> set (join_down L u n' @ R')" "n \<le> k" using join_contains [OF j] by blast
  show ?thesis by (intro exI conjI) (rule eq ln(1,2) fu ak ch)+
qed
section \<open>Taking a block\<close>

lemma block_before:
  assumes ok: "free_list_ok B fl T m" and x: "x \<in> insert B (fst ` set fl)" and v: "ptr m (ad x) = ad v" "v \<le> TOP" "v \<noteq> B"
  shows "\<exists>L k R. fl = L @ (v, k) # R \<and> x = before B L"
proof -
  have af: "after B R \<le> TOP" if "fl = L @ R" for L R
  proof -
    have "after B R \<in> insert B (fst ` set fl)" using that by (cases R) (auto simp: after_def)
    then show ?thesis using free_list_okD(8) [OF ok] by blast
  qed
  have hd_R: "\<exists>k R2. R = (v, k) # R2" if "after B R = v" for R using that v(3) by (cases R) (auto simp: after_def)
  show ?thesis
  proof (cases "x = B")
    case True
    have "ptr m (ad B) = ad (after B fl)" using free_list_okD(3) [OF ok] by (rule links_after [THEN iffD1, THEN conjunct1])
    then have "after B fl = v" using v True af [of "[]"] ad_eq by simp
    from hd_R [OF this] obtain k R2 where "fl = [] @ (v, k) # R2" "x = before B []" using True by (auto simp: before_def)
    then show ?thesis by blast
  next
    case False
    then obtain j where "(x, j) \<in> set fl" using x by auto
    then obtain L R where fl: "fl = L @ (x, j) # R" using split_list by metis
    have "links m x (map fst R) B" using free_list_okD(3) [OF ok] by (simp add: fl links_append)
    then have "ptr m (ad x) = ad (after B R)" by (rule links_after [THEN iffD1, THEN conjunct1])
    then have "after B R = v" using v af [of "L @ [(x, j)]" R] fl ad_eq by simp
    from hd_R [OF this] obtain k R2 where "R = (v, k) # R2" by blast
    then have "fl = (L @ [(x, j)]) @ (v, k) # R2" "x = before B (L @ [(x, j)])" using fl by (auto simp: before_def)
    then show ?thesis by blast
  qed
qed

lemma unlink_ok:
  assumes ok: "free_list_ok B (L @ (v, k) # R) T m"
  shows "free_list_ok B (L @ R) T (set_ptr (ad (before B L)) (ptr m (ad v)) m)"
proof -
  let ?p = "before B L" and ?m = "set_ptr (ad (before B L)) (ptr m (ad v)) m"
  note bb = free_list_okD(1) [OF ok] and lk = free_list_okD(3) [OF ok]
  have T: "T \<le> TOP" and nodes: "\<And>w. w \<in> insert B (fst ` set (L @ (v, k) # R)) \<Longrightarrow> w \<le> TOP"
    using free_list_okD(2,8) [OF ok] by blast+
  have pT: "?p \<le> TOP" using nodes before_in [of B L] by auto
  have h: "hsize ?m (ad w) = hsize m (ad w)" if "w \<le> TOP" for w using hdr_simps(2) [OF that pT] .
  have pt: "ptr ?m (ad w) = (if w = ?p then ptr m (ad v) else ptr m (ad w))" if "w \<le> TOP" for w
    using hdr_simps(1) [OF that pT] .
  have dist: "distinct (B # map fst L @ v # map fst R)"
    using nodes_sorted [OF ok] unfolding strict_sorted_iff by simp
  have "?p \<in> set (B # map fst L)" using before_in [of B L] by simp
  then have pR: "?p \<notin> set (map fst R)" using dist unfolding distinct.simps distinct_append by (auto simp del: set_map)
  have L: "links m B (map fst L) v" and R: "links m v (map fst R) B" using lk by (simp_all add: links_append)
  have pv: "ptr m (ad v) = ad (after B R)" using R by (rule links_after [THEN iffD1, THEN conjunct1])
  have "links ?m B (map fst L) (after B R)"
  proof (rule links_last [OF L])
    show "ptr ?m (ad (last (B # map fst L))) = ad (after B R)" using pt [OF pT] pv by (simp add: before_def)
    show "distinct (B # map fst L)" using dist by simp
    fix w assume w: "w \<in> set (butlast (B # map fst L))"
    have "w \<noteq> ?p" using w dist unfolding before_def by (cases L rule: rev_cases) (auto simp: butlast_append)
    moreover have "w \<in> set (B # map fst L)" using w by (rule in_set_butlastD)
    then have "w \<le> TOP" by (intro nodes) auto
    ultimately show "ptr ?m (ad w) = ptr m (ad w)" using pt by simp
  qed
  moreover have "R \<noteq> [] \<longrightarrow> links ?m (after B R) (map fst (tl R)) B"
  proof
    assume "R \<noteq> []"
    then have "links m (after B R) (map fst (tl R)) B" using R links_after by blast
    moreover have "links ?m (after B R) (map fst (tl R)) B \<longleftrightarrow> links m (after B R) (map fst (tl R)) B"
    proof (rule links_cong)
      fix w assume "w \<in> set (after B R # map fst (tl R))"
      then have w: "w \<in> set (map fst R)" using \<open>R \<noteq> []\<close> by (cases R) (auto simp: after_def)
      then have "w \<le> TOP" by (intro nodes) auto
      moreover have "w \<noteq> ?p" using w pR by blast
      ultimately show "ptr ?m (ad w) = ptr m (ad w)" using pt by simp
    qed
    ultimately show "links ?m (after B R) (map fst (tl R)) B" by blast
  qed
  ultimately have "links ?m B (map fst (L @ R)) B" using links_split by blast
  moreover obtain mid where mid: "blocks_ok (Suc B) L mid" "mid \<le> v" "blocks_ok (v + k) R T"
    using bb by (auto simp: blocks_ok_append)
  then have "blocks_ok (Suc B) (L @ R) T"
    using blocks_ok_weaken [OF mid(3), of mid T] unfolding blocks_ok_append by auto
  moreover have "hsize ?m (ad a) = of_nat j" if "(a, j) \<in> set (L @ R)" for a j
  proof -
    have "(a, j) \<in> set (L @ (v, k) # R)" using that by auto
    then show ?thesis using free_list_okD(5) [OF ok] nodes [of a] h [of a] by force
  qed
  moreover have "hsize ?m (ad B) = 0" using h [of B] nodes [of B] free_list_okD(4) [OF ok] by simp
  ultimately show ?thesis using T by (auto simp: free_list_ok_def)
qed

lemma split_ok:
  assumes ok: "free_list_ok B (L @ (v, k) # R) T m" and n: "0 < n" "n < k" and m': "unchanged {v, v + (k - n)} m m'"
    and p: "ptr m' (ad v) = ptr m (ad v)" "hsize m' (ad v) = of_nat (k - n)"
  shows "free_list_ok B (L @ (v, k - n) # R) T m'"
proof -
  note bb = free_list_okD(1) [OF ok]
  note un = block_bounds [OF bb]
  have T: "T \<le> TOP" and nodes: "\<And>w. w \<in> insert B (fst ` set (L @ (v, k) # R)) \<Longrightarrow> w \<le> TOP"
    using free_list_okD(2,8) [OF ok] by blast+
  have out: "w \<notin> {v, v + (k - n)}" if "w = B \<or> (\<exists>j. (w, j) \<in> set L \<union> set R)" for w
  proof -
    from that consider "w = B" | j where "(w, j) \<in> set L" | j where "(w, j) \<in> set R" by blast
    then show ?thesis using un(1) un(4) [of w] un(5) [of w] n by cases fastforce+
  qed
  have "ptr m' (ad w) = ptr m (ad w)" if "w \<in> set (B # map fst (L @ (v, k) # R))" for w
  proof (cases "w = v")
    case False
    then have "w = B \<or> (\<exists>j. (w, j) \<in> set L \<union> set R)" using that by auto
    moreover have "w \<le> TOP" using that by (intro nodes) auto
    ultimately show ?thesis using unchangedD(1) [OF m' _ out] by blast
  qed (use p in simp)
  then have "links m' B (map fst (L @ (v, k) # R)) B" using links_cong [of B _ m' m B] free_list_okD(3) [OF ok] by blast
  moreover obtain mid where mid: "blocks_ok (Suc B) L mid" "mid \<le> v" "blocks_ok (v + k) R T"
    using bb by (auto simp: blocks_ok_append)
  then have "blocks_ok mid ((v, k - n) # R) T" using n blocks_ok_weaken [OF mid(3), of "v + (k - n)" T] by simp
  then have "blocks_ok (Suc B) (L @ (v, k - n) # R) T" using mid(1) unfolding blocks_ok_append by blast
  moreover have "hsize m' (ad a) = of_nat j" if "(a, j) \<in> set L \<union> set R" for a j
  proof -
    have aj: "(a, j) \<in> set (L @ (v, k) # R)" using that by auto
    then have "a \<le> TOP" by (intro nodes) force
    moreover have "a \<notin> {v, v + (k - n)}" using that by (intro out) blast
    ultimately show ?thesis using unchangedD(2) [OF m'] free_list_okD(5) [OF ok aj] by simp
  qed
  moreover have "hsize m' (ad B) = 0" using unchangedD(2) [OF m' nodes out, of B] free_list_okD(4) [OF ok] by simp
  ultimately show ?thesis using T p by (auto simp: free_list_ok_def)
qed
lemma sz_unat: "n < 2 ^ 32 \<Longrightarrow> unat (of_nat n :: uint32) = n"
  by (simp add: unsigned_of_nat take_bit_nat_eq_self)

lemma sz_le: "n < 2 ^ 32 \<Longrightarrow> k < 2 ^ 32 \<Longrightarrow> (of_nat n :: uint32) \<le> of_nat k \<longleftrightarrow> n \<le> k"
  by (simp add: word_le_nat_alt sz_unat)

lemma sz_eq: "n < 2 ^ 32 \<Longrightarrow> k < 2 ^ 32 \<Longrightarrow> (of_nat k :: uint32) = of_nat n \<longleftrightarrow> k = n"
  using sz_unat by metis

lemma units_apart:
  assumes "blocks_ok lo (L @ (v, k) # R) T"
  shows "units L \<inter> {v ..< v + k} = {}" "units R \<inter> {v ..< v + k} = {}"
proof -
  obtain mid where mid: "blocks_ok lo L mid" "mid \<le> v" "blocks_ok (v + k) R T" using assms by (auto simp: blocks_ok_append)
  show "units L \<inter> {v ..< v + k} = {}" using units_bounds [OF mid(1)] mid(2) by fastforce
  show "units R \<inter> {v ..< v + k} = {}" using units_bounds [OF mid(3)] by fastforce
qed

text \<open>The block taken, \<open>h\<close>, is free, and leaves the free space.\<close>

definition taken :: "nat \<Rightarrow> nat set \<Rightarrow> nat \<Rightarrow> nat \<Rightarrow> memory \<Rightarrow> (nat \<times> nat) list \<Rightarrow> nat \<Rightarrow> nat \<Rightarrow> memory \<Rightarrow> bool" where
  "taken B F T n m fl' x h m' \<longleftrightarrow> free_list_ok B fl' T m' \<and> x \<in> insert B (fst ` set fl') \<and> {h ..< h + n} \<subseteq> F \<and>
     units fl' = F - {h ..< h + n} \<and> hsize m' (ad h) = of_nat n \<and> unchanged (insert B F) m m'"

lemma take_all_ok:
  assumes ok: "free_list_ok B (L @ (v, n) # R) T (umem s)"
  shows "\<exists>m'. take_block (of_nat n) (ad (before B L)) (ad v) s = (ad (Suc v), s\<lparr>umem := m', freep := ad (before B L)\<rparr>) \<and>
    taken B (units (L @ (v, n) # R)) T n (umem s) (L @ R) (before B L) v m'"
proof -
  let ?p = "before B L" and ?fl = "L @ (v, n) # R"
  let ?m = "set_ptr (ad ?p) (ptr (umem s) (ad v)) (umem s)"
  note bb = free_list_okD(1) [OF ok]
  have h: "hsize (umem s) (ad v) = of_nat n" by (rule free_list_okD(5) [OF ok]) simp
  then have "take_block (of_nat n) (ad ?p) (ad v) s = (ad (Suc v), s\<lparr>umem := ?m, freep := ad ?p\<rparr>)"
    by (simp add: take_block_def Let_def ad_back)
  moreover have "taken B (units ?fl) T n (umem s) (L @ R) ?p v ?m"
  proof -
    have pi: "?p \<in> insert B (fst ` set L)" by (rule before_in)
    then have "?p \<in> insert B (fst ` set ?fl)" by auto
    then have pT: "?p \<le> TOP" by (rule free_list_okD(8) [OF ok])
    have vT: "v \<le> TOP" by (rule free_list_okD(8) [OF ok]) simp
    obtain mid where "blocks_ok (Suc B) L mid" using bb unfolding blocks_ok_append by blast
    then have "?p \<in> insert B (units ?fl)" using before_units [of "Suc B" L mid B] by auto
    then have "unchanged (insert B (units ?fl)) (umem s) ?m" using unchanged_mono [OF unchanged_set(1) [OF pT]] by blast
    moreover have "hsize ?m (ad v) = of_nat n" using hdr_simps(2) [OF vT pT] h by simp
    moreover have "units (L @ R) = units ?fl - {v ..< v + n}" using units_apart [OF bb] by auto
    ultimately show ?thesis using unlink_ok [OF ok] pi by (auto simp: taken_def)
  qed
  ultimately show ?thesis by blast
qed

lemma take_tail_ok:
  assumes ok: "free_list_ok B (L @ (v, k) # R) T (umem s)" and n: "0 < n" "n < k"
  shows "\<exists>m'. take_block (of_nat n) (ad (before B L)) (ad v) s =
      (ad (Suc (v + (k - n))), s\<lparr>umem := m', freep := ad (before B L)\<rparr>) \<and>
    taken B (units (L @ (v, k) # R)) T n (umem s) (L @ (v, k - n) # R) (before B L) (v + (k - n)) m'"
proof -
  let ?p = "before B L" and ?fl = "L @ (v, k) # R" and ?h = "v + (k - n)"
  let ?m1 = "set_size (ad v) (of_nat (k - n)) (umem s)"
  let ?m = "set_size (ad ?h) (of_nat n) ?m1"
  note bb = free_list_okD(1) [OF ok]
  have kT: "v + k \<le> TOP" using block_bounds(3) [OF bb] free_list_okD(2) [OF ok] by simp
  then have vT: "v \<le> TOP" and hT: "?h \<le> TOP" and vh: "v \<noteq> ?h" and k: "k < 2 ^ 32" using n by (auto simp: TOP_def)
  have h: "hsize (umem s) (ad v) = of_nat k" by (rule free_list_okD(5) [OF ok]) simp
  have ne: "(of_nat k :: uint32) \<noteq> of_nat n" using sz_eq [of n k] n k by simp
  have df: "(of_nat k - of_nat n :: uint32) = of_nat (k - n)" using n by (simp add: of_nat_diff)
  have h1: "hsize ?m1 (ad v) = of_nat (k - n)" using hdr_simps(4) [OF vT vT] by simp
  have pl: "plus_hdr (ad v) (of_nat (k - n)) = ad ?h" using kT by (intro ad_plus) simp
  have "take_block (of_nat n) (ad ?p) (ad v) s = (ad (Suc ?h), s\<lparr>umem := ?m, freep := ad ?p\<rparr>)"
    unfolding take_block_def Let_def h df h1 pl ad_back by (simp only: ne if_False)
  moreover have "taken B (units ?fl) T n (umem s) (L @ (v, k - n) # R) ?p ?h ?m"
  proof -
    have un: "unchanged {v, ?h} (umem s) ?m"
      using unchanged_trans [OF unchanged_set(2) [OF vT] unchanged_set(2) [OF hT]] by (simp add: insert_commute)
    have "ptr ?m (ad v) = ptr (umem s) (ad v)" "hsize ?m (ad v) = of_nat (k - n)"
      by (simp_all only: hdr_simps(3,4) [OF vT hT] hdr_simps(3,4) [OF vT vT] vh if_False if_True simp_thms)
    from split_ok [OF ok n un this] have "free_list_ok B (L @ (v, k - n) # R) T ?m" .
    moreover have "hsize ?m (ad ?h) = of_nat n" using hdr_simps(4) [OF hT hT] by simp
    moreover have "{v ..< v + (k - n)} = {v ..< v + k} - {?h ..< ?h + n}" "{?h ..< ?h + n} \<subseteq> {v ..< v + k}" using n by auto
    then have "units (L @ (v, k - n) # R) = units ?fl - {?h ..< ?h + n}"
      using units_apart [OF bb] unfolding units_simps by blast
    moreover have "{?h ..< ?h + n} \<subseteq> units ?fl" "v \<in> units ?fl" "?h \<in> units ?fl" using n by auto
    moreover have "unchanged (insert B (units ?fl)) (umem s) ?m"
      using unchanged_mono [OF un] calculation(4-6) by blast
    moreover have "?p \<in> insert B (fst ` set (L @ (v, k - n) # R))" using before_in [of B L] by auto
    ultimately show ?thesis unfolding taken_def by blast
  qed
  ultimately show ?thesis by blast
qed

lemma take_block_ok:
  assumes ok: "free_list_ok B fl T (umem s)" and x: "x \<in> insert B (fst ` set fl)" and v: "ptr (umem s) (ad x) = ad v" "v \<le> TOP"
    and n: "0 < n" "n < 2 ^ 32" "of_nat n \<le> hsize (umem s) (ad v)"
  shows "\<exists>fl' h m'. take_block (of_nat n) (ad x) (ad v) s = (ad (Suc h), s\<lparr>umem := m', freep := ad x\<rparr>) \<and>
    taken B (units fl) T n (umem s) fl' x h m'"
proof -
  have "v \<noteq> B" using sz_le [of n 0] n free_list_okD(4) [OF ok] by auto
  then obtain L k R where fl: "fl = L @ (v, k) # R" and xb: "x = before B L" using block_before [OF ok x v] by blast
  note ok' = ok [unfolded fl]
  have "k < 2 ^ 32" using block_bounds(3) [OF free_list_okD(1) [OF ok']] free_list_okD(2) [OF ok'] by (simp add: TOP_def)
  moreover have "hsize (umem s) (ad v) = of_nat k" by (rule free_list_okD(5) [OF ok']) simp
  ultimately have "n \<le> k" using sz_le n by simp
  then consider "n = k" | "n < k" by linarith
  then show ?thesis
  proof cases
    case 1
    then show ?thesis using take_all_ok [OF ok'] unfolding fl xb by blast
  next
    case 2
    then show ?thesis using take_tail_ok [OF ok' n(1)] unfolding fl xb by blast
  qed
qed
section \<open>The scan of malloc\<close>

lemma circle:
  assumes ok: "free_list_ok B fl T m" and f: "f \<in> insert B (fst ` set fl)"
  shows "\<exists>ns. links m f ns f \<and> set (f # ns) = insert B (fst ` set fl) \<and> f \<notin> set ns"
proof (cases "f = B")
  case True
  moreover have "B \<notin> fst ` set fl" using nodes_sorted [OF ok] by auto
  ultimately show ?thesis using free_list_okD(3) [OF ok] by (intro exI [of _ "map fst fl"]) simp
next
  case False
  then obtain k where "(f, k) \<in> set fl" using f by auto
  then obtain L R where fl: "fl = L @ (f, k) # R" using split_list by metis
  have "links m B (map fst L) f" "links m f (map fst R) B" using free_list_okD(3) [OF ok] by (simp_all add: fl links_append)
  then have "links m f (map fst R @ B # map fst L) f" by (simp add: links_append)
  moreover have "distinct (B # map fst fl)" using nodes_sorted [OF ok] unfolding strict_sorted_iff by simp
  then have "f \<notin> set (map fst R @ B # map fst L)" using fl by auto
  moreover have "set (f # map fst R @ B # map fst L) = insert B (fst ` set fl)" using fl by auto
  ultimately show ?thesis by blast
qed

lemma malloc_scan:
  assumes "links (umem s) x vs f" "freep s = ad f" "f \<notin> set vs" "\<forall>v \<in> set (f # vs). v \<le> TOP"
  shows "(\<exists>y v. y \<in> set (x # vs) \<and> v \<in> set (f # vs) \<and> ptr (umem s) (ad y) = ad v \<and> n \<le> hsize (umem s) (ad v) \<and>
      malloc_loop grant n (ad x) (ptr (umem s) (ad x)) s = Some (Inr (take_block n (ad y) (ad v) s))) \<or>
    (\<forall>v \<in> set (f # vs). hsize (umem s) (ad v) < n) \<and>
    malloc_loop grant n (ad x) (ptr (umem s) (ad x)) s =
      (case morecore grant n s of
         Inl e \<Rightarrow> Some (Inl e)
       | Inr (p, s) \<Rightarrow> if p = 0 then Some (Inr (0, s)) else malloc_loop grant n p (ptr (umem s) p) s)"
  using assms
proof (induction vs arbitrary: x)
  case Nil
  then have p: "ptr (umem s) (ad x) = ad f" by simp
  show ?case
  proof (cases "n \<le> hsize (umem s) (ad f)")
    case True
    then have "malloc_loop grant n (ad x) (ad f) s = Some (Inr (take_block n (ad x) (ad f) s))"
      by (subst malloc_loop.simps) simp
    then show ?thesis using True p by auto
  next
    case False
    then have "malloc_loop grant n (ad x) (ad f) s =
      (case morecore grant n s of
         Inl e \<Rightarrow> Some (Inl e)
       | Inr (p, s) \<Rightarrow> if p = 0 then Some (Inr (0, s)) else malloc_loop grant n p (ptr (umem s) p) s)"
      using Nil(2) by (subst malloc_loop.simps) simp
    then show ?thesis unfolding p using False by (simp add: not_le)
  qed
next
  case (Cons v vs)
  then have p: "ptr (umem s) (ad x) = ad v" and l: "links (umem s) v vs f" by simp_all
  have vf: "ad v \<noteq> ad f" using Cons.prems(3) ad_eq [of v f] Cons.prems(4) by auto
  show ?case
  proof (cases "n \<le> hsize (umem s) (ad v)")
    case True
    then have "malloc_loop grant n (ad x) (ad v) s = Some (Inr (take_block n (ad x) (ad v) s))"
      by (subst malloc_loop.simps) simp
    then show ?thesis using True p by auto
  next
    case False
    have "malloc_loop grant n (ad x) (ad v) s = malloc_loop grant n (ad v) (ptr (umem s) (ad v)) s"
      using False vf Cons.prems(2) by (subst malloc_loop.simps) simp
    then have e: "malloc_loop grant n (ad x) (ptr (umem s) (ad x)) s = malloc_loop grant n (ad v) (ptr (umem s) (ad v)) s"
      using p by simp
    have "f \<notin> set vs" and "\<forall>w \<in> set (f # vs). w \<le> TOP" using Cons.prems(3,4) by auto
    from Cons.IH [OF l Cons.prems(2) this] show ?thesis
    proof (elim disjE exE conjE)
      fix y w assume yw: "y \<in> set (v # vs)" "w \<in> set (f # vs)" "ptr (umem s) (ad y) = ad w" "n \<le> hsize (umem s) (ad w)"
        "malloc_loop grant n (ad v) (ptr (umem s) (ad v)) s = Some (Inr (take_block n (ad y) (ad w) s))"
      then have "y \<in> set (x # v # vs)" "w \<in> set (f # v # vs)" by auto
      then show ?thesis using yw(3-5) unfolding e by blast
    next
      assume all: "\<forall>w \<in> set (f # vs). hsize (umem s) (ad w) < n"
      then have all: "\<forall>w \<in> set (f # v # vs). hsize (umem s) (ad w) < n" using False by (simp add: not_le)
      assume "malloc_loop grant n (ad v) (ptr (umem s) (ad v)) s = (case morecore grant n s of
         Inl e \<Rightarrow> Some (Inl e)
       | Inr (p, s) \<Rightarrow> if p = 0 then Some (Inr (0, s)) else malloc_loop grant n p (ptr (umem s) p) s)"
      then show ?thesis using all unfolding e by blast
    qed
  qed
qed

lemma free_list_ok_unchanged:
  assumes ok: "free_list_ok B fl T m" and un: "unchanged W m m'" and W: "W \<inter> insert B (fst ` set fl) = {}"
    and T: "T \<le> T'" "T' \<le> TOP"
  shows "free_list_ok B fl T' m'"
proof -
  have same: "ptr m' (ad w) = ptr m (ad w)" "hsize m' (ad w) = hsize m (ad w)" if "w \<in> insert B (fst ` set fl)" for w
    using unchangedD [OF un free_list_okD(8) [OF ok that]] that W by blast+
  have "links m' B (map fst fl) B \<longleftrightarrow> links m B (map fst fl) B" by (rule links_cong) (use same(1) in simp)
  moreover have "hsize m' (ad a) = of_nat k" if "(a, k) \<in> set fl" for a k
  proof -
    have "a \<in> insert B (fst ` set fl)" using that by force
    then show ?thesis using same(2) free_list_okD(5) [OF ok that] by simp
  qed
  moreover have "hsize m' (ad B) = 0" using same(2) [of B] free_list_okD(4) [OF ok] by simp
  moreover have "blocks_ok (Suc B) fl T'" using blocks_ok_weaken [OF free_list_okD(1) [OF ok] _ T(1)] by blast
  ultimately show ?thesis using T free_list_okD(3) [OF ok] by (auto simp: free_list_ok_def)
qed
section \<open>More memory\<close>

text \<open>The allocator once \<^verbatim>\<open>base\<close> is set up.\<close>

definition um_list :: "nat \<Rightarrow> (nat \<times> nat) list \<Rightarrow> nat \<Rightarrow> 'z um_st_scheme \<Rightarrow> bool" where
  "um_list B fl T s \<longleftrightarrow> 0 < B \<and> free_list_ok B fl T (umem s) \<and> brk s = ad T \<and> (\<exists>f \<in> insert B (fst ` set fl). freep s = ad f)"

lemma core_bytes: "N < 2 ^ 27 \<Longrightarrow> sint (ucast (ucast (of_nat N :: uint32) * 16 :: addr) :: uint32) = int (16 * N)"
proof -
  assume N: "N < 2 ^ 27"
  have "ucast (of_nat N :: uint32) = (of_nat N :: addr)" using N by (simp add: unsigned_of_nat take_bit_nat_eq_self)
  then have "ucast (of_nat N :: uint32) * 16 = (of_nat (16 * N) :: addr)" by simp
  moreover have "ucast (of_nat (16 * N) :: addr) = (of_nat (16 * N) :: uint32)"
    using N by (simp only: unsigned_of_nat) (simp add: take_bit_nat_eq_self)
  moreover have "sint (of_nat (16 * N) :: uint32) = int (16 * N)"
    using N by (simp only: signed_of_nat) (simp add: signed_take_bit_int_eq_self)
  ultimately show ?thesis by simp
qed

lemma sbrk_ok:
  assumes "brk s = ad T" "T \<le> TOP" "0 < N"
  shows "sbrk grant (int (16 * N)) s = (- 1, s) \<or> T + N \<le> TOP \<and> sbrk grant (int (16 * N)) s = (ad T, s\<lparr>brk := ad (T + N)\<rparr>)"
proof -
  have "uint (brk s) = int (16 * T)" using assms ad_unat [of T] by (simp add: uint_nat)
  moreover have "ad T + word_of_int (int (16 * N)) = ad (T + N)" by (simp add: ad_def)
  ultimately show ?thesis using assms(1) using assms(3) by (auto simp: sbrk_def UMAX_def TOP_def)
qed

lemma ad_not: "T \<le> TOP \<Longrightarrow> ad T \<noteq> - 1" "0 < T \<Longrightarrow> T \<le> TOP \<Longrightarrow> ad T \<noteq> 0"
proof -
  have m1: "unat (- 1 :: addr) = 2 ^ 64 - 1" by (simp add: unsigned_minus_1_eq_mask mask_eq_exp_minus_1)
  show "ad T \<noteq> - 1" if "T \<le> TOP"
  proof
    assume "ad T = - 1"
    then have "16 * T = 2 ^ 64 - 1" using ad_unat [OF that] m1 by simp
    then show False using that by (simp add: TOP_def)
  qed
  show "ad T \<noteq> 0" if "0 < T" "T \<le> TOP" using ad_unat [OF that(2)] that(1) by auto
qed

lemma morecore_ok:
  assumes um: "um_list B fl T s" and n: "n < 2 ^ 27"
  shows "morecore grant (of_nat n) s = Inr (0, s) \<or>
    (\<exists>fl' T' s'. morecore grant (of_nat n) s = Inr (freep s', s') \<and> freep s' \<noteq> 0 \<and> um_list B fl' T' s' \<and> T \<le> T' \<and>
      units fl' = units fl \<union> {T ..< T'} \<and> (\<exists>a k. (a, k) \<in> set fl' \<and> n \<le> k) \<and>
      unchanged (insert B (units fl \<union> {T ..< T'})) (umem s) (umem s'))"
proof -
  obtain f where B: "0 < B" and ok: "free_list_ok B fl T (umem s)" and brk: "brk s = ad T"
    and f: "f \<in> insert B (fst ` set fl)" "freep s = ad f" using um by (auto simp: um_list_def)
  define N where "N = max n 4096"
  have N: "N < 2 ^ 27" "0 < N" "n \<le> N" using n by (auto simp: N_def)
  have T: "T \<le> TOP" "B < T" by (rule free_list_okD [OF ok])+
  have nu: "(if (of_nat n :: uint32) < 4096 then 4096 else of_nat n) = (of_nat N :: uint32)"
    using n by (auto simp: N_def max_def word_less_nat_alt sz_unat)
  have mc: "morecore grant (of_nat n) s =
     (let (p, s) = sbrk grant (int (16 * N)) s
      in if p = - 1 then Inr (0, s)
         else bindR (ufree (p + 16) (s\<lparr>umem := set_size p (of_nat N) (umem s)\<rparr>)) (\<lambda>s. Inr (freep s, s)))"
    unfolding morecore_def nu by (simp only: Let_def core_bytes [OF N(1)])
  from sbrk_ok [OF brk T(1) N(2), of grant] show ?thesis
  proof
    assume "sbrk grant (int (16 * N)) s = (- 1, s)"
    then show ?thesis unfolding mc by simp
  next
    assume sb: "T + N \<le> TOP \<and> sbrk grant (int (16 * N)) s = (ad T, s\<lparr>brk := ad (T + N)\<rparr>)"
    let ?m = "set_size (ad T) (of_nat N) (umem s)"
    let ?s = "s\<lparr>brk := ad (T + N), umem := ?m\<rparr>"
    have un: "unchanged {T} (umem s) ?m" by (rule unchanged_set(2) [OF T(1)])
    have "a < T" if "(a, k) \<in> set fl" for a k using free_list_okD(7) [OF ok that] by simp
    then have "{T} \<inter> insert B (fst ` set fl) = {}" using T(2) by fastforce
    then have ok': "free_list_ok B fl (T + N) (umem ?s)" using free_list_ok_unchanged [OF ok un] sb by simp
    have u: "{T ..< T + N} \<inter> units fl = {}" using units_bounds [OF free_list_okD(1) [OF ok]] by fastforce
    have sz: "hsize (umem ?s) (ad T) = of_nat N" using hdr_simps(4) [OF T(1) T(1)] by simp
    have fs: "freep ?s = ad f" using f by simp
    obtain fl' f' m' where r: "ufree (ad (Suc T)) ?s = Inr (?s\<lparr>umem := m', freep := ad f'\<rparr>)" "free_list_ok B fl' (T + N) m'"
      "f' \<in> insert B (fst ` set fl')" "units fl' = units fl \<union> {T ..< T + N}" "\<exists>a k. (a, k) \<in> set fl' \<and> N \<le> k"
      "unchanged (insert B (insert T (units fl))) (umem ?s) m'"
      using ufree_ok [OF ok' fs f(1) T(2) N(2) _ u sz] by blast
    let ?s' = "?s\<lparr>umem := m', freep := ad f'\<rparr>"
    have eq: "morecore grant (of_nat n) s = Inr (freep ?s', ?s')"
      unfolding mc using sb r(1) ad_not(1) [OF T(1)] by (simp add: ad_back)
    have "B \<le> f'" using r(3) free_list_okD(7) [OF r(2)] by fastforce
    then have nz: "freep ?s' \<noteq> 0" using ad_not(2) [of f'] B free_list_okD(8) [OF r(2) r(3)] by simp
    have li: "um_list B fl' (T + N) ?s'" using B r(2,3) by (auto simp: um_list_def)
    have "{T} \<union> insert B (insert T (units fl)) \<subseteq> insert B (units fl \<union> {T ..< T + N})" using N(2) by auto
    then have ch: "unchanged (insert B (units fl \<union> {T ..< T + N})) (umem s) (umem ?s')"
      using unchanged_mono [OF unchanged_trans [OF un]] r(6) by simp
    obtain a k where ak: "(a, k) \<in> set fl'" "n \<le> k" using r(5) N(3) le_trans by blast
    show ?thesis by (rule disjI2, intro exI conjI) (rule eq nz li le_add1 r(4) ak ch)+
  qed
qed
section \<open>malloc is correct\<close>

definition got_block :: "nat \<Rightarrow> nat set \<Rightarrow> nat \<Rightarrow> memory \<Rightarrow> (nat \<times> nat) list \<Rightarrow> nat \<Rightarrow> nat \<Rightarrow> 'z um_st_scheme \<Rightarrow> bool" where
  "got_block B F n m fl' T h t \<longleftrightarrow> um_list B fl' T t \<and> {h ..< h + n} \<subseteq> F \<and> units fl' = F - {h ..< h + n} \<and>
     hsize (umem t) (ad h) = of_nat n \<and> unchanged (insert B F) m (umem t)"

lemma scan_ok:
  assumes um: "um_list B fl T s" and n: "0 < n" "n < 2 ^ 27"
  shows "(\<exists>h fl' t. malloc_loop grant (of_nat n) (freep s) (ptr (umem s) (freep s)) s = Some (Inr (ad (Suc h), t)) \<and>
      got_block B (units fl) n (umem s) fl' T h t) \<or>
    (\<forall>a k. (a, k) \<in> set fl \<longrightarrow> k < n) \<and>
    malloc_loop grant (of_nat n) (freep s) (ptr (umem s) (freep s)) s =
      (case morecore grant (of_nat n) s of
         Inl e \<Rightarrow> Some (Inl e)
       | Inr (p, s) \<Rightarrow> if p = 0 then Some (Inr (0, s)) else malloc_loop grant (of_nat n) p (ptr (umem s) p) s)"
proof -
  obtain f where B: "0 < B" and ok: "free_list_ok B fl T (umem s)" and brk: "brk s = ad T"
    and f: "f \<in> insert B (fst ` set fl)" "freep s = ad f" using um by (auto simp: um_list_def)
  obtain ns where ns: "links (umem s) f ns f" "set (f # ns) = insert B (fst ` set fl)" "f \<notin> set ns"
    using circle [OF ok f(1)] by blast
  have "\<forall>v \<in> set (f # ns). v \<le> TOP" using free_list_okD(8) [OF ok] unfolding ns(2) by blast
  note scan = malloc_scan [OF ns(1) f(2) ns(3) this, of "of_nat n" grant, unfolded ns(2), folded f(2)]
  from scan show ?thesis
  proof (elim disjE exE conjE)
    fix y v assume yv: "y \<in> insert B (fst ` set fl)" "v \<in> insert B (fst ` set fl)" "ptr (umem s) (ad y) = ad v"
      "of_nat n \<le> hsize (umem s) (ad v)" and
      eq: "malloc_loop grant (of_nat n) (freep s) (ptr (umem s) (freep s)) s = Some (Inr (take_block (of_nat n) (ad y) (ad v) s))"
    have "v \<le> TOP" by (rule free_list_okD(8) [OF ok yv(2)])
    moreover have "n < 2 ^ 32" using n(2) by simp
    ultimately obtain fl' h m' where t: "take_block (of_nat n) (ad y) (ad v) s = (ad (Suc h), s\<lparr>umem := m', freep := ad y\<rparr>)"
      "taken B (units fl) T n (umem s) fl' y h m'"
      using take_block_ok [OF ok yv(1,3) _ n(1) _ yv(4)] by blast
    then have "got_block B (units fl) n (umem s) fl' T h (s\<lparr>umem := m', freep := ad y\<rparr>)"
      using B brk by (auto simp: taken_def got_block_def um_list_def)
    then show ?thesis using eq unfolding t(1) by blast
  next
    assume all: "\<forall>v \<in> insert B (fst ` set fl). hsize (umem s) (ad v) < of_nat n"
    have "k < n" if "(a, k) \<in> set fl" for a k
    proof -
      have "hsize (umem s) (ad a) < of_nat n" using all that by force
      then have "\<not> (of_nat n :: uint32) \<le> of_nat k" using free_list_okD(5) [OF ok that] by simp
      moreover have "k < 2 ^ 32" using free_list_okD(7) [OF ok that] free_list_okD(2) [OF ok] by (simp add: TOP_def)
      ultimately show ?thesis using sz_le [of n k] n(2) by simp
    qed
    moreover assume "malloc_loop grant (of_nat n) (freep s) (ptr (umem s) (freep s)) s =
      (case morecore grant (of_nat n) s of
         Inl e \<Rightarrow> Some (Inl e)
       | Inr (p, s) \<Rightarrow> if p = 0 then Some (Inr (0, s)) else malloc_loop grant (of_nat n) p (ptr (umem s) p) s)"
    ultimately show ?thesis by blast
  qed
qed

lemma malloc_loop_ok:
  assumes um: "um_list B fl T s" and n: "0 < n" "n < 2 ^ 27"
  shows "malloc_loop grant (of_nat n) (freep s) (ptr (umem s) (freep s)) s = Some (Inr (0, s)) \<or>
    (\<exists>h fl' T' t. malloc_loop grant (of_nat n) (freep s) (ptr (umem s) (freep s)) s = Some (Inr (ad (Suc h), t)) \<and> T \<le> T' \<and>
      got_block B (units fl \<union> {T ..< T'}) n (umem s) fl' T' h t)"
  using scan_ok [OF um n, of grant]
proof (elim disjE exE conjE)
  fix h fl' t assume h: "malloc_loop grant (of_nat n) (freep s) (ptr (umem s) (freep s)) s = Some (Inr (ad (Suc h), t))"
    "got_block B (units fl) n (umem s) fl' T h t"
  have e: "units fl \<union> {T ..< T} = units fl" by simp
  show ?thesis by (rule disjI2, intro exI conjI, rule h(1), rule le_refl) (unfold e, rule h(2))
next
  assume lp: "malloc_loop grant (of_nat n) (freep s) (ptr (umem s) (freep s)) s =
      (case morecore grant (of_nat n) s of
         Inl e \<Rightarrow> Some (Inl e)
       | Inr (p, s) \<Rightarrow> if p = 0 then Some (Inr (0, s)) else malloc_loop grant (of_nat n) p (ptr (umem s) p) s)"
  from morecore_ok [OF um n(2), of grant] show ?thesis
  proof (elim disjE exE conjE)
    assume "morecore grant (of_nat n) s = Inr (0, s)"
    then show ?thesis using lp by simp
  next
    fix fl2 T' s' a k
    assume mc: "morecore grant (of_nat n) s = Inr (freep s', s')" "freep s' \<noteq> 0" "um_list B fl2 T' s'" "T \<le> T'"
      "units fl2 = units fl \<union> {T ..< T'}" "(a, k) \<in> set fl2" "n \<le> k"
      "unchanged (insert B (units fl \<union> {T ..< T'})) (umem s) (umem s')"
    obtain h fl' t where h: "malloc_loop grant (of_nat n) (freep s') (ptr (umem s') (freep s')) s' = Some (Inr (ad (Suc h), t))"
      "got_block B (units fl2) n (umem s') fl' T' h t"
      using scan_ok [OF mc(3) n, of grant] mc(6,7) by (meson not_le)
    have eq: "malloc_loop grant (of_nat n) (freep s) (ptr (umem s) (freep s)) s = Some (Inr (ad (Suc h), t))"
      using lp h(1) mc(1,2) by simp
    have "got_block B (units fl \<union> {T ..< T'}) n (umem s) fl' T' h t"
      using h(2) unchanged_trans [OF mc(8), of "insert B (units fl2)" "umem t"] unfolding got_block_def mc(5) by simp
    then show ?thesis using eq mc(4) by blast
  qed
qed

lemma nunits_ok: "unat k \<le> 2 ^ 31 - 32 \<Longrightarrow> nunits_of k = of_nat ((unat k + 15) div 16 + 1)"
proof -
  assume k: "unat k \<le> 2 ^ 31 - 32"
  have "(ucast k :: addr) = of_nat (unat k)" by (simp add: of_nat_unat)
  then have e: "ucast k + 16 - 1 = (of_nat (unat k + 15) :: addr)" by simp
  have d: "(of_nat (unat k + 15) :: addr) div 16 = of_nat ((unat k + 15) div 16)"
  proof -
    have "unat (of_nat (unat k + 15) :: addr) = unat k + 15" using k by (intro unat_of_nat_lt) simp
    moreover have "unat (of_nat ((unat k + 15) div 16) :: addr) = (unat k + 15) div 16" using k by (intro unat_of_nat_lt) simp
    ultimately show ?thesis unfolding word_unat_eq_iff by (simp add: unat_div)
  qed
  have "nunits_of k = ucast (of_nat ((unat k + 15) div 16 + 1) :: addr)"
    unfolding nunits_of_def e d by (simp only: of_nat_add of_nat_1)
  moreover have "ucast (of_nat ((unat k + 15) div 16 + 1) :: addr) = (of_nat ((unat k + 15) div 16 + 1) :: uint32)"
    using k by (simp only: unsigned_of_nat) (simp add: take_bit_nat_eq_self)
  ultimately show ?thesis by (rule trans)
qed
section \<open>The free space\<close>

lemma links_unique:
  "links m x us B \<Longrightarrow> links m x us' B \<Longrightarrow> B \<notin> set us \<union> set us' \<Longrightarrow> \<forall>w \<in> insert B (set us \<union> set us'). w \<le> TOP \<Longrightarrow> us = us'"
proof (induction us arbitrary: x us')
  case Nil
  then show ?case using ad_eq by (cases us') auto
next
  case (Cons u us)
  show ?case
  proof (cases us')
    case Nil
    then show ?thesis using Cons.prems ad_eq [of u B] by auto
  next
    case (Cons v vs)
    then have "u = v" using Cons.prems ad_eq [of u v] by auto
    then show ?thesis using Cons.IH [of v vs] Cons.prems Cons by auto
  qed
qed

lemma free_list_unique:
  assumes "free_list_ok B fl T m" "free_list_ok B fl' T m"
  shows "fl = fl'"
proof -
  have "B \<notin> set (map fst fl) \<union> set (map fst fl')" using nodes_sorted [OF assms(1)] nodes_sorted [OF assms(2)] by auto
  moreover have "\<forall>w \<in> insert B (set (map fst fl) \<union> set (map fst fl')). w \<le> TOP"
    using free_list_okD(8) [OF assms(1)] free_list_okD(8) [OF assms(2)] by auto
  ultimately have nodes: "map fst fl = map fst fl'"
    using links_unique [OF free_list_okD(3) [OF assms(1)] free_list_okD(3) [OF assms(2)]] by blast
  have sz: "k = k'" if "(a, k) \<in> set fl" "(a, k') \<in> set fl'" for a k k'
  proof -
    have "k < 2 ^ 32" "k' < 2 ^ 32" using free_list_okD(7) [OF assms(1) that(1)] free_list_okD(7) [OF assms(2) that(2)]
        free_list_okD(2) [OF assms(1)] by (simp_all add: TOP_def)
    moreover have "(of_nat k :: uint32) = of_nat k'" using free_list_okD(5) [OF assms(1) that(1)] free_list_okD(5) [OF assms(2) that(2)] by simp
    ultimately show ?thesis using sz_eq by simp
  qed
  show ?thesis
  proof (rule nth_equalityI)
    show len: "length fl = length fl'" using arg_cong [OF nodes, of length] by simp
    fix i assume i: "i < length fl"
    then have "fst (fl ! i) = fst (fl' ! i)" using nth_map [of i fl fst] nth_map [of i fl' fst] nodes len by simp
    moreover have "fl ! i \<in> set fl" "fl' ! i \<in> set fl'" using i len by simp_all
    ultimately show "fl ! i = fl' ! i" using sz by (cases "fl ! i"; cases "fl' ! i") auto
  qed
qed

text \<open>The numbers of the free headers: those of free blocks, and those above the break.\<close>

definition um_free :: "nat \<Rightarrow> 'z um_st_scheme \<Rightarrow> nat set" where
  "um_free B s = {u. unat (brk s) \<le> 16 * u} \<union> (if freep s = 0 then {} else {u. \<exists>fl. um_list B fl (unat (brk s) div 16) s \<and> u \<in> units fl})"

definition um_inv :: "nat \<Rightarrow> 'z um_st_scheme \<Rightarrow> bool" where
  "um_inv B s \<longleftrightarrow> (\<exists>T. 0 < B \<and> B < T \<and> T \<le> TOP \<and> brk s = ad T \<and> (freep s = 0 \<or> (\<exists>fl. um_list B fl T s)))"

lemma um_list_freep: "um_list B fl T s \<Longrightarrow> freep s \<noteq> 0"
proof -
  assume "um_list B fl T s"
  then obtain f where B: "0 < B" and ok: "free_list_ok B fl T (umem s)" and f: "f \<in> insert B (fst ` set fl)" "freep s = ad f"
    by (auto simp: um_list_def)
  have "B \<le> f" using f(1) free_list_okD(7) [OF ok] by fastforce
  then show ?thesis using ad_not(2) [of f] B f(2) free_list_okD(8) [OF ok f(1)] by simp
qed

lemma um_free_eq:
  assumes um: "um_list B fl T s"
  shows "um_free B s = units fl \<union> {T ..}"
proof -
  have "T \<le> TOP" using um free_list_okD(2) unfolding um_list_def by blast
  then have u: "unat (brk s) = 16 * T" using um ad_unat by (simp add: um_list_def)
  have "fl' = fl" if "um_list B fl' T s" for fl' using that um free_list_unique unfolding um_list_def by blast
  then have "{u. \<exists>fl. um_list B fl T s \<and> u \<in> units fl} = units fl" using um by blast
  then show ?thesis using um_list_freep [OF um] unfolding um_free_def u by auto
qed

lemma um_inv_list: "um_list B fl T s \<Longrightarrow> um_inv B s"
  unfolding um_inv_def using free_list_okD(2,6) unfolding um_list_def by blast

lemma um_inv_cases:
  assumes "um_inv B s"
  obtains (fresh) T where "0 < B" "B < T" "T \<le> TOP" "brk s = ad T" "freep s = 0" "um_free B s = {T ..}"
  | (list) fl T where "um_list B fl T s" "freep s \<noteq> 0" "um_free B s = units fl \<union> {T ..}"
proof -
  obtain T where T: "0 < B" "B < T" "T \<le> TOP" "brk s = ad T" "freep s = 0 \<or> (\<exists>fl. um_list B fl T s)"
    using assms by (auto simp: um_inv_def)
  show thesis
  proof (cases "freep s = 0")
    case True
    then have "um_free B s = {T ..}" using T(3,4) ad_unat by (auto simp: um_free_def)
    then show ?thesis using fresh T True by blast
  next
    case False
    then obtain fl where fl: "um_list B fl T s" using T(5) by blast
    then show ?thesis using list [OF fl False um_free_eq [OF fl]] by blast
  qed
qed

lemma malloc_init_ok:
  assumes "um_inv B s"
  shows "\<exists>fl T. um_list B fl T (malloc_init (ad B) s) \<and> um_free B s = units fl \<union> {T ..} \<and>
    unchanged {B} (umem s) (umem (malloc_init (ad B) s)) \<and> brk (malloc_init (ad B) s) = brk s \<and> (freep s \<noteq> 0 \<longrightarrow> malloc_init (ad B) s = s)"
  using assms
proof (cases rule: um_inv_cases)
  case (fresh T)
  have BT: "B \<le> TOP" using fresh by simp
  let ?m = "set_size (ad B) 0 (set_ptr (ad B) (ad B) (umem s))"
  have "free_list_ok B [] T ?m" using fresh BT by (simp add: free_list_ok_def hdr_simps [OF BT BT])
  then have "um_list B [] T (malloc_init (ad B) s)" using fresh by (simp add: um_list_def malloc_init_def)
  moreover have "unchanged {B} (umem s) ?m"
    using unchanged_trans [OF unchanged_set(1) [OF BT] unchanged_set(2) [OF BT]] by simp
  ultimately show ?thesis using fresh by (intro exI [of _ "[]"] exI [of _ T]) (simp add: malloc_init_def)
next
  case (list fl T)
  then have "malloc_init (ad B) s = s" by (simp add: malloc_init_def)
  moreover have "unchanged {B} (umem s) (umem s)" by (simp add: unchanged_def)
  ultimately show ?thesis using list by auto
qed
section \<open>Contract\<close>

text \<open>
  A handle is a header's number and its length in headers. The client gets the address after the header and may
  write any byte of what follows.
\<close>

definition um_ok :: "uint32 \<Rightarrow> bool" where
  "um_ok nbytes \<longleftrightarrow> unat nbytes \<le> 2 ^ 31 - 32"

definition um_wf :: "nat \<Rightarrow> 'z um_st_scheme \<Rightarrow> nat \<times> nat \<Rightarrow> bool" where
  "um_wf B s = (\<lambda>(u, n). freep s \<noteq> 0 \<and> B < u \<and> 0 < n \<and> 16 * (u + n) \<le> unat (brk s) \<and> hsize (umem s) (ad u) = of_nat n)"

definition um_ext :: "nat \<times> nat \<Rightarrow> nat set" where
  "um_ext = (\<lambda>(u, n). {u ..< u + n})"

definition um_alloc ::
  "(int \<Rightarrow> 'z um_st_scheme \<Rightarrow> bool) \<Rightarrow> nat \<Rightarrow> uint32 \<Rightarrow> 'z um_st_scheme \<Rightarrow> ((nat \<times> nat) option \<times> 'z um_st_scheme) res"
where
  "um_alloc grant B nbytes s =
     bindR (malloc grant (ad B) nbytes s) (\<lambda>(p, t).
     Inr (if p = 0 then None else Some (unat p div 16 - 1, (unat nbytes + 15) div 16 + 1), t))"

definition um_dealloc :: "nat \<times> nat \<Rightarrow> 'z um_st_scheme \<Rightarrow> 'z um_st_scheme res" where
  "um_dealloc = (\<lambda>(u, n). ufree (ad (Suc u)))"

definition um_touch :: "nat \<times> nat \<Rightarrow> nat \<times> byte \<Rightarrow> 'z um_st_scheme \<Rightarrow> 'z um_st_scheme" where
  "um_touch = (\<lambda>(u, n) (i, b) s. if i < 16 * (n - 1) then s\<lparr>umem := (umem s)(ad (Suc u) + of_nat i := b)\<rparr> else s)"

lemma um_wf_keep:
  assumes "um_wf B s g" "um_ext g \<inter> W = {}" "unchanged (insert B W) (umem s) (umem t)" "brk s \<le> brk t" "freep t \<noteq> 0" "um_inv B s"
  shows "um_wf B t g"
proof -
  obtain u n where g: "g = (u, n)" by (cases g)
  have w: "B < u" "0 < n" "16 * (u + n) \<le> unat (brk s)" "hsize (umem s) (ad u) = of_nat n" using assms(1) by (auto simp: um_wf_def g)
  have "u \<in> um_ext g" using w(2) by (simp add: um_ext_def g)
  then have "u \<notin> insert B W" using assms(2) w(1) by blast
  moreover obtain T where "T \<le> TOP" "brk s = ad T" using assms(6) by (auto simp: um_inv_def)
  then have "u \<le> TOP" using w(3) ad_unat [of T] by simp
  ultimately have "hsize (umem t) (ad u) = hsize (umem s) (ad u)" using unchangedD(2) [OF assms(3)] by blast
  moreover have "16 * (u + n) \<le> unat (brk t)" using w(3) assms(4) by (simp add: word_le_nat_alt)
  ultimately show ?thesis using w assms(5) by (simp add: um_wf_def g)
qed

lemma um_alloc_cases:
  fixes s :: "'z um_st_scheme"
  assumes inv: "um_inv B s" and k: "um_ok k"
  shows "(\<exists>t. um_alloc grant B k s = Inr (None, t) \<and> um_inv B t \<and> um_free B t = um_free B s \<and> (\<forall>g. um_wf B s g \<longrightarrow> t = s)) \<or>
    (\<exists>h t. um_alloc grant B k s = Inr (Some h, t) \<and> um_inv B t \<and> um_wf B t h \<and> um_ext h \<subseteq> um_free B s \<and>
      um_free B t = um_free B s - um_ext h \<and> brk s \<le> brk t \<and> freep t \<noteq> 0 \<and>
      unchanged (insert B (um_free B s)) (umem s) (umem t))"
proof -
  let ?s = "malloc_init (ad B) s"
  obtain fl T where i: "um_list B fl T ?s" "um_free B s = units fl \<union> {T ..}" "unchanged {B} (umem s) (umem ?s)" "brk ?s = brk s"
      "freep s \<noteq> 0 \<longrightarrow> ?s = s"
    using malloc_init_ok [OF inv] by blast
  define n where "n = (unat k + 15) div 16 + 1"
  have nu: "nunits_of k = of_nat n" using nunits_ok [of k] k unfolding um_ok_def n_def by blast
  have n: "0 < n" "n < 2 ^ 27" using k by (auto simp: um_ok_def n_def)
  have T: "T \<le> TOP" "brk s = ad T" using i(1,4) free_list_okD(2) [of B fl T] by (auto simp: um_list_def)
  have al: "um_alloc grant B k s = bindR (malloc grant (ad B) k s) (\<lambda>(p, t). Inr (if p = 0 then None else Some (unat p div 16 - 1, n), t))"
    unfolding um_alloc_def n_def by (rule refl)
  have ml: "malloc grant (ad B) k s =
      bindR (of_loop (malloc_loop grant (of_nat n) (freep ?s) (ptr (umem ?s) (freep ?s)) ?s)) (\<lambda>r. r)"
    by (simp add: malloc_def nu Let_def)
  from malloc_loop_ok [OF i(1) n, of grant] show ?thesis
  proof (elim disjE exE conjE)
    assume "malloc_loop grant (of_nat n) (freep ?s) (ptr (umem ?s) (freep ?s)) ?s = Some (Inr (0, ?s))"
    then have "um_alloc grant B k s = Inr (None, ?s)" unfolding al ml by simp
    moreover have "um_inv B ?s" by (rule um_inv_list [OF i(1)])
    moreover have "um_free B ?s = um_free B s" using um_free_eq [OF i(1)] i(2) by simp
    moreover have "\<forall>g. um_wf B s g \<longrightarrow> ?s = s" using i(5) by (auto simp: um_wf_def)
    ultimately show ?thesis by blast
  next
    fix h fl' T' t
    assume lp: "malloc_loop grant (of_nat n) (freep ?s) (ptr (umem ?s) (freep ?s)) ?s = Some (Inr (ad (Suc h), t))" and TT: "T \<le> T'"
      and "got_block B (units fl \<union> {T ..< T'}) n (umem ?s) fl' T' h t"
    then have g: "um_list B fl' T' t" "{h ..< h + n} \<subseteq> units fl \<union> {T ..< T'}" "units fl' = units fl \<union> {T ..< T'} - {h ..< h + n}"
      "hsize (umem t) (ad h) = of_nat n" "unchanged (insert B (units fl \<union> {T ..< T'})) (umem ?s) (umem t)"
      by (auto simp: got_block_def)
    have T': "T' \<le> TOP" "brk t = ad T'" using g(1) free_list_okD(2) [of B fl' T'] by (auto simp: um_list_def)
    have "blocks_ok (Suc B) fl T" using i(1) by (auto simp: um_list_def free_list_ok_def)
    then have bd: "B < w \<and> w < T'" if "w \<in> units fl \<union> {T ..< T'}" for w
      using units_bounds [of "Suc B" fl T w] blocks_ok_le [of "Suc B" fl T] that TT by auto
    have "h \<in> units fl \<union> {T ..< T'}" "h + n - 1 \<in> units fl \<union> {T ..< T'}" using n(1) by - (rule subsetD [OF g(2)], simp)+
    from bd [OF this(1), THEN conjunct1] bd [OF this(2), THEN conjunct2] have hb: "B < h" "h + n \<le> T'" using n(1) by linarith+
    have "unat (ad (Suc h)) = 16 * Suc h" using hb n(1) T'(1) by (intro ad_unat) simp
    then have "um_alloc grant B k s = Inr (Some (h, n), t)" unfolding al ml lp by (auto dest: arg_cong [where f = unat])
    moreover have "um_inv B t" "freep t \<noteq> 0" by (rule um_inv_list [OF g(1)], rule um_list_freep [OF g(1)])
    moreover have "um_wf B t (h, n)" using calculation(3) hb n(1) g(4) T' ad_unat by (simp add: um_wf_def)
    moreover have "um_ext (h, n) \<subseteq> um_free B s" using g(2) unfolding i(2) by (auto simp: um_ext_def)
    moreover have "um_free B t = um_free B s - um_ext (h, n)"
      unfolding um_free_eq [OF g(1)] i(2) g(3) using hb(2) TT by (auto simp: um_ext_def)
    moreover have "brk s \<le> brk t" unfolding T(2) T'(2) using ad_le T(1) T'(1) TT by simp
    moreover have "{B} \<union> insert B (units fl \<union> {T ..< T'}) \<subseteq> insert B (um_free B s)" unfolding i(2) by auto
    then have "unchanged (insert B (um_free B s)) (umem s) (umem t)"
      using unchanged_mono [OF unchanged_trans [OF i(3) g(5)]] by blast
    ultimately show ?thesis by blast
  qed
qed
lemma um_dealloc_ok:
  fixes s :: "'z um_st_scheme"
  assumes inv: "um_inv B s" and h: "um_wf B s h" "um_ext h \<inter> um_free B s = {}"
  shows "\<exists>t. um_dealloc h s = Inr t \<and> um_inv B t \<and> um_free B t = um_free B s \<union> um_ext h \<and>
    (\<forall>g. um_wf B s g \<longrightarrow> um_ext g \<inter> um_free B s = {} \<longrightarrow> um_ext g \<inter> um_ext h = {} \<longrightarrow> um_wf B t g)"
  using inv
proof (cases rule: um_inv_cases)
  case (fresh T)
  then show ?thesis using h(1) by (auto simp: um_wf_def split: prod.splits)
next
  case (list fl T)
  obtain u n where hu: "h = (u, n)" by (cases h)
  obtain f where B: "0 < B" and ok: "free_list_ok B fl T (umem s)" and br: "brk s = ad T"
    and f: "f \<in> insert B (fst ` set fl)" "freep s = ad f" using list(1) by (auto simp: um_list_def)
  have w: "B < u" "0 < n" "u + n \<le> T" "hsize (umem s) (ad u) = of_nat n"
    using h(1) br ad_unat [OF free_list_okD(2) [OF ok]] by (auto simp: um_wf_def hu)
  have ex: "um_ext h = {u ..< u + n}" by (simp add: um_ext_def hu)
  then have "{u ..< u + n} \<inter> units fl = {}" using h(2) list(3) by auto
  then obtain fl' f' m' where r: "ufree (ad (Suc u)) s = Inr (s\<lparr>umem := m', freep := ad f'\<rparr>)" "free_list_ok B fl' T m'"
    "f' \<in> insert B (fst ` set fl')" "units fl' = units fl \<union> {u ..< u + n}" "unchanged (insert B (insert u (units fl))) (umem s) m'"
    using ufree_ok [OF ok f(2,1) w(1,2,3) _ w(4)] by blast
  let ?t = "s\<lparr>umem := m', freep := ad f'\<rparr>"
  have li: "um_list B fl' T ?t" using B br r(2,3) by (auto simp: um_list_def)
  have ch: "unchanged (insert B (um_free B s \<union> um_ext h)) (umem s) (umem ?t)"
  proof -
    have "u \<in> um_ext h" using w(2) unfolding ex by simp
    then have "insert B (insert u (units fl)) \<subseteq> insert B (um_free B s \<union> um_ext h)" unfolding list(3) by blast
    then show ?thesis using unchanged_mono [OF r(5)] by simp
  qed
  have "um_dealloc h s = Inr ?t" using r(1) by (simp add: um_dealloc_def hu)
  moreover have "um_free B ?t = um_free B s \<union> um_ext h" unfolding um_free_eq [OF li] list(3) r(4) ex by blast
  moreover have "um_wf B ?t g" if "um_wf B s g" "um_ext g \<inter> um_free B s = {}" "um_ext g \<inter> um_ext h = {}" for g
  proof (rule um_wf_keep [OF that(1) _ ch _ um_list_freep [OF li] inv])
    show "um_ext g \<inter> (um_free B s \<union> um_ext h) = {}" using that(2,3) by blast
  qed simp
  ultimately show ?thesis using um_inv_list [OF li] by blast
qed

lemma byte_outside:
  assumes "v + i div 16 \<le> TOP"
  shows "unchanged {v + i div 16} m (m(ad v + of_nat i := b))"
proof -
  let ?v = "v + i div 16"
  have "16 * v + i = 16 * ?v + i mod 16" by simp
  then have e: "ad v + of_nat i = ad ?v + of_nat (i mod 16)" unfolding ad_def of_nat_add [symmetric] by (rule arg_cong)
  have "ad w + of_nat j \<noteq> ad v + of_nat i" if "w \<le> TOP" "w \<noteq> ?v" "j < 16" for w j
  proof
    assume "ad w + of_nat j = ad v + of_nat i"
    then have "ad w + of_nat j - ad ?v = of_nat (i mod 16)" unfolding e by simp
    then have "(16 :: addr) \<le> of_nat (i mod 16)" using ad_outside [OF that(1) assms that(2,3)] by simp
    then have "16 \<le> unat (of_nat (i mod 16) :: addr)" unfolding word_le_nat_alt by simp
    moreover have "unat (of_nat (i mod 16) :: addr) = i mod 16" by (rule unat_of_nat_lt) (simp add: less_le_trans [OF pos_mod_bound])
    ultimately show False using mod_less_divisor [of 16 i] by simp
  qed
  then show ?thesis by (auto simp: unchanged_def)
qed

lemma um_touch_ok:
  fixes s :: "'z um_st_scheme"
  assumes inv: "um_inv B s" and h: "um_wf B s h" "um_ext h \<inter> um_free B s = {}"
  shows "um_inv B (um_touch h w s) \<and> um_free B (um_touch h w s) = um_free B s \<and>
    (\<forall>g. um_wf B s g \<longrightarrow> um_ext g \<inter> um_free B s = {} \<longrightarrow> g = h \<or> um_ext g \<inter> um_ext h = {} \<longrightarrow> um_wf B (um_touch h w s) g)"
  using inv
proof (cases rule: um_inv_cases)
  case (fresh T)
  then show ?thesis using h(1) by (auto simp: um_wf_def split: prod.splits)
next
  case (list fl T)
  obtain u n i b where hu: "h = (u, n)" and wi: "w = (i, b)" by (cases h; cases w)
  show ?thesis
  proof (cases "i < 16 * (n - 1)")
    case True
    let ?t = "um_touch h w s" and ?v = "Suc u + i div 16"
    have ok: "free_list_ok B fl T (umem s)" and br: "brk s = ad T" using list(1) by (auto simp: um_list_def)
    have T: "T \<le> TOP" by (rule free_list_okD(2) [OF ok])
    have wf: "B < u" "0 < n" "u + n \<le> T" "hsize (umem s) (ad u) = of_nat n"
      using h(1) br ad_unat [OF T] by (auto simp: um_wf_def hu)
    have v: "?v < u + n" using True wf(2) by (simp add: less_mult_imp_div_less mult.commute)
    then have vT: "?v \<le> TOP" using wf(3) T by simp
    have t: "?t = s\<lparr>umem := (umem s)(ad (Suc u) + of_nat i := b)\<rparr>" using True by (simp add: um_touch_def hu wi)
    have ch: "unchanged {?v} (umem s) (umem ?t)" using byte_outside [OF vT] unfolding t by simp
    have ve: "?v \<in> um_ext h" using v by (simp add: um_ext_def hu)
    then have vf: "?v \<notin> um_free B s" using h(2) by blast
    have "a \<in> um_free B s" if "(a, k) \<in> set fl" for a k
      using free_list_okD(7) [OF ok that] that unfolding list(3) units_def by force
    then have "{?v} \<inter> insert B (fst ` set fl) = {}" using vf wf(1) by auto
    then have "free_list_ok B fl T (umem ?t)" by (rule free_list_ok_unchanged [OF ok ch _ le_refl T])
    then have li: "um_list B fl T ?t" using list(1) unfolding um_list_def t by simp
    have "um_wf B ?t g" if g: "um_wf B s g" "g = h \<or> um_ext g \<inter> um_ext h = {}" for g
    proof (cases "g = h")
      case True
      have "hsize (umem ?t) (ad u) = hsize (umem s) (ad u)" using unchangedD(2) [OF ch, of u] wf(3) T by simp
      moreover have "freep ?t = freep s" "brk ?t = brk s" by (simp_all add: t)
      ultimately show ?thesis using g(1) True by (simp add: um_wf_def hu)
    next
      case False
      have c: "unchanged (insert B {?v}) (umem s) (umem ?t)" using unchanged_mono [OF ch] by blast
      have e: "um_ext g \<inter> {?v} = {}" using g(2) False ve by blast
      have "brk s \<le> brk ?t" by (simp add: t)
      then show ?thesis by (rule um_wf_keep [OF g(1) e c _ um_list_freep [OF li] inv])
    qed
    then show ?thesis using um_inv_list [OF li] um_free_eq [OF li] list(3) by blast
  next
    case False
    then have "um_touch h w s = s" by (simp add: um_touch_def hu wi)
    then show ?thesis using inv by simp
  qed
qed

interpretation umalloc: allocator um_ok "um_inv B" "um_free B" "um_wf B" um_ext "um_alloc grant B" um_dealloc um_touch
  for B :: nat and grant :: "int \<Rightarrow> 'z um_st_scheme \<Rightarrow> bool"
proof
  fix s t :: "'z um_st_scheme" and k h w
  assume inv: "um_inv B s"
  show "\<exists>r t. um_alloc grant B k s = Inr (r, t)" if "um_ok k" using um_alloc_cases [OF inv that, of grant] by blast
  show "um_inv B t \<and> um_wf B t h \<and> um_ext h \<subseteq> um_free B s \<and> um_free B t = um_free B s - um_ext h \<and>
      (\<forall>g. um_wf B s g \<longrightarrow> um_ext g \<inter> um_free B s = {} \<longrightarrow> um_wf B t g)"
    if "um_ok k" "um_alloc grant B k s = Inr (Some h, t)"
    using um_alloc_cases [OF inv that(1), of grant] that(2) um_wf_keep [OF _ _ _ _ _ inv, of _ "um_free B s" t] by auto
  show "um_inv B t \<and> um_free B t = um_free B s \<and> (\<forall>g. um_wf B s g \<longrightarrow> um_ext g \<inter> um_free B s = {} \<longrightarrow> um_wf B t g)"
    if "um_ok k" "um_alloc grant B k s = Inr (None, t)"
    using um_alloc_cases [OF inv that(1), of grant] that(2) by auto
  show "\<exists>t. um_dealloc h s = Inr t \<and> um_inv B t \<and> um_free B t = um_free B s \<union> um_ext h \<and>
      (\<forall>g. um_wf B s g \<longrightarrow> um_ext g \<inter> um_free B s = {} \<longrightarrow> um_ext g \<inter> um_ext h = {} \<longrightarrow> um_wf B t g)"
    if "um_wf B s h" "um_ext h \<inter> um_free B s = {}" using um_dealloc_ok [OF inv that] .
  show "um_inv B (um_touch h w s) \<and> um_free B (um_touch h w s) = um_free B s \<and>
      (\<forall>g. um_wf B s g \<longrightarrow> um_ext g \<inter> um_free B s = {} \<longrightarrow> g = h \<or> um_ext g \<inter> um_ext h = {} \<longrightarrow> um_wf B (um_touch h w s) g)"
    if "um_wf B s h" "um_ext h \<inter> um_free B s = {}" using um_touch_ok [OF inv that] .
qed

section \<open>Property\<close>

text \<open>
  C8: From the start of a process, whose break is above the header \<^verbatim>\<open>base\<close>, whatever sequence of calls of \<^verbatim>\<open>malloc\<close> with less
  than 2 GB, of \<^verbatim>\<open>free\<close> of blocks it holds, and writes of any bytes of the blocks it holds a program makes, and whichever
  calls of \<^verbatim>\<open>sbrk\<close> the kernel grants: all calls return, the blocks it holds do not overlap each other, \<^verbatim>\<open>base\<close> or the free
  blocks, their headers are intact, and with the free space they are all the memory from the first break on.
\<close>

theorem umalloc_run_safe:
  assumes "0 < B" and "B < T" and "T \<le> TOP" and "brk s = ad T" and "freep s = 0"
    and "\<forall>k. Alloc k \<in> set ops \<longrightarrow> um_ok k"
  shows "\<exists>t live. alloc_run (um_alloc grant B) um_dealloc um_touch ops (s, []) = Inr (t, live) \<and>
    um_inv B t \<and> apart um_ext live \<and> (\<forall>h \<in> set live. um_wf B t h \<and> um_ext h \<inter> um_free B t = {}) \<and>
    um_free B t \<union> \<Union> (um_ext ` set live) = {T ..}"
proof -
  have inv: "um_inv B s" using assms(1-5) by (auto simp: um_inv_def)
  have fr: "um_free B s = {T ..}" using assms(3-5) ad_unat by (auto simp: um_free_def)
  have "umalloc.live_ok B s []" using inv by (simp add: umalloc.live_ok_def apart_def)
  from umalloc.run_safe [OF this assms(6), of grant] obtain t live where
    "alloc_run (um_alloc grant B) um_dealloc um_touch ops (s, []) = Inr (t, live)" "umalloc.live_ok B t live"
    "umalloc.space B t live = umalloc.space B s []" by blast
  then show ?thesis using fr by (auto simp: umalloc.live_ok_def umalloc.space_def)
qed

theorem umalloc_run_safe_witness:
  "\<exists>t live. alloc_run (um_alloc (\<lambda>_ _. True) 1) um_dealloc um_touch [Alloc 100, Alloc 24, Use 1 (5, 7), Free 0]
      (\<lparr>umem = (\<lambda>_. 0), freep = 0, brk = ad 256\<rparr>, []) = Inr (t, live) \<and>
    um_free 1 t \<union> \<Union> (um_ext ` set live) = {256 ..}"
  using umalloc_run_safe [of 1 256 "\<lparr>umem = (\<lambda>_. 0), freep = 0, brk = ad 256\<rparr>" "[Alloc 100, Alloc 24, Use 1 (5, 7), Free 0]" "\<lambda>_ _. True"]
  by (auto simp: TOP_def um_ok_def)

end
