(* ===== verification/Sh.thy ===== *)
theory Sh
  imports Cstring Fcntl
begin

text \<open>
  The parser of the shell, \<^verbatim>\<open>user/sh.c\<close>. A command line is the list \<open>b\<close> of its bytes before the NUL, a pointer into it
  is a position, and the end \<^verbatim>\<open>es\<close> is the length of \<open>b\<close>. A parser gives an error or its result with the position after
  it. Every \<^verbatim>\<open>malloc\<close> of the constructors is taken to succeed.
\<close>

section \<open>Commands\<close>

definition MAXARGS :: nat where "MAXARGS = 10"

text \<open>
  \<^verbatim>\<open>struct cmd\<close> and the structures it stands for. \<^verbatim>\<open>argv\<close> and \<^verbatim>\<open>eargv\<close> have their entries before the null pointer.
\<close>

datatype cmd =
    EXEC "nat list" "nat list"
  | REDIR cmd nat nat uint32 int
  | PIPE cmd cmd
  | LIST cmd cmd
  | BACK cmd

text \<open>
  \<^verbatim>\<open>parseexec\<close> keeps a pointer to the \<^verbatim>\<open>execcmd\<close> while redirections are wrapped around it, and stores its arguments
  through that pointer.
\<close>

primrec add_arg :: "nat \<Rightarrow> nat \<Rightarrow> cmd \<Rightarrow> cmd" where
  "add_arg q eq (EXEC argv eargv) = EXEC (argv @ [q]) (eargv @ [eq])"
| "add_arg q eq (REDIR c f ef mode fd) = REDIR (add_arg q eq c) f ef mode fd"
| "add_arg q eq (PIPE l r) = PIPE l r"
| "add_arg q eq (LIST l r) = LIST l r"
| "add_arg q eq (BACK c) = BACK c"

section \<open>Tokens\<close>

definition whitespace :: "byte list" where "whitespace = [32, 9, 13, 10, 11]"

definition symbols :: "byte list" where "symbols = [60, 124, 62, 38, 59, 40, 41]"

definition skip_ws :: "byte list \<Rightarrow> nat \<Rightarrow> nat" where
  "skip_ws b s = s + length (takeWhile (\<lambda>c. c \<in> set whitespace) (drop s b))"

definition word_char :: "byte \<Rightarrow> bool" where
  "word_char c \<longleftrightarrow> c \<notin> set whitespace \<and> c \<notin> set symbols"

text \<open>The kind of the token, its first position \<^verbatim>\<open>q\<close>, the position \<^verbatim>\<open>eq\<close> after it, and where the next one is sought.\<close>

definition gettoken :: "byte list \<Rightarrow> nat \<Rightarrow> byte \<times> nat \<times> nat \<times> nat" where
  "gettoken b s =
     (let q = skip_ws b s; c = chr b q;
          (ret, eq) =
            (if c = 0 then (0, q)
             else if c \<in> {124, 40, 41, 59, 38, 60} then (c, q + 1)
             else if c = 62 then (if chr b (q + 1) = 62 then (43, q + 2) else (62, q + 1))
             else (97, q + length (takeWhile word_char (drop q b))))
      in (ret, q, eq, skip_ws b eq))"

definition peek :: "byte list \<Rightarrow> nat \<Rightarrow> byte list \<Rightarrow> nat \<times> bool" where
  "peek b s toks = (let s = skip_ws b s in (s, chr b s \<noteq> 0 \<and> chr b s \<in> set toks))"

lemma skip_ws_bounds: "s \<le> skip_ws b s" "s \<le> length b \<Longrightarrow> skip_ws b s \<le> length b"
  using length_takeWhile_le [of "\<lambda>c. c \<in> set whitespace" "drop s b"] by (auto simp: skip_ws_def)

lemma chr_nonzero: "chr b s \<noteq> 0 \<Longrightarrow> s < length b"
  by (auto simp: chr_def split: if_splits)

lemma skip_ws_stop: "chr b (skip_ws b s) \<notin> set whitespace"
proof (cases "skip_ws b s < length b")
  case True
  let ?d = "drop s b" and ?k = "length (takeWhile (\<lambda>c. c \<in> set whitespace) (drop s b))"
  have "?k < length ?d" using True by (auto simp: skip_ws_def)
  then have "?d ! ?k \<notin> set whitespace" by (rule nth_length_takeWhile)
  then show ?thesis using True by (simp add: skip_ws_def chr_def nth_drop)
qed (simp add: chr_def whitespace_def)

lemma skip_ws_id: "chr b s \<notin> set whitespace \<Longrightarrow> skip_ws b s = s"
  by (cases "s < length b") (auto simp: skip_ws_def chr_def Cons_nth_drop_Suc [symmetric])

lemma skip_ws_idem [simp]: "skip_ws b (skip_ws b s) = skip_ws b s"
  by (rule skip_ws_id) (rule skip_ws_stop)

lemma gettoken_skip [simp]: "gettoken b (skip_ws b s) = gettoken b s"
  by (simp add: gettoken_def)

lemma gettoken_bounds:
  assumes "gettoken b s = (r, q, e, s')"
  shows "q = skip_ws b s" "r \<noteq> 0 \<longleftrightarrow> chr b q \<noteq> 0" "r \<noteq> 0 \<Longrightarrow> q < e" "r \<noteq> 0 \<Longrightarrow> e \<le> length b" "s' = skip_ws b e"
    "r = 0 \<Longrightarrow> e = q"
proof -
  show q: "q = skip_ws b s" and "s' = skip_ws b e" using assms by (auto simp: gettoken_def Let_def split: if_splits)
  have w: "0 < length (takeWhile word_char (drop q b))"
    if "chr b q \<noteq> 0" "chr b q \<notin> {124, 40, 41, 59, 38, 60}" "chr b q \<noteq> 62"
  proof -
    have "q < length b" using chr_nonzero [OF that(1)] .
    moreover have "word_char (b ! q)"
      using that skip_ws_stop [of b s] q calculation by (auto simp: word_char_def symbols_def chr_def)
    ultimately show ?thesis by (simp add: Cons_nth_drop_Suc [symmetric])
  qed
  show "r \<noteq> 0 \<longleftrightarrow> chr b q \<noteq> 0" "r = 0 \<Longrightarrow> e = q"
    using assms by (auto simp: gettoken_def Let_def split: if_splits)
  show "r \<noteq> 0 \<Longrightarrow> q < e"
    using assms w q by (auto simp: gettoken_def Let_def split: if_splits)
  have "q + length (takeWhile word_char (drop q b)) \<le> length b" if "q < length b"
    using length_takeWhile_le [of word_char "drop q b"] that by simp
  then show "r \<noteq> 0 \<Longrightarrow> e \<le> length b"
    using assms chr_nonzero [of b q] chr_nonzero [of b "q + 1"] q
    by (auto simp: gettoken_def Let_def split: if_splits)
qed

lemma gettoken_advances:
  assumes "gettoken b s = (r, q, e, s')" and "s \<le> length b"
  shows "s \<le> s'" "s' \<le> length b" "r \<noteq> 0 \<Longrightarrow> s < s'"
proof -
  note g = gettoken_bounds [OF assms(1)]
  have "s \<le> q" "q \<le> length b" using skip_ws_bounds assms(2) g(1) by auto
  moreover have "e \<le> s'" "e \<le> length b \<Longrightarrow> s' \<le> length b" using skip_ws_bounds g(5) by auto
  ultimately show "s \<le> s'" "s' \<le> length b" "r \<noteq> 0 \<Longrightarrow> s < s'" using g(3,4,6) by (cases "r = 0"; force)+
qed

section \<open>The parser\<close>

definition redir :: "byte \<Rightarrow> cmd \<Rightarrow> nat \<Rightarrow> nat \<Rightarrow> cmd" where
  "redir tok c q eq =
     (if tok = 60 then REDIR c q eq O_RDONLY 0
      else if tok = 62 then REDIR c q eq (O_WRONLY OR O_CREATE OR O_TRUNC) 1
      else if tok = 43 then REDIR c q eq (O_WRONLY OR O_CREATE) 1
      else c)"

lemma peek_bounds:
  assumes "peek b s toks = (s', y)"
  shows "s' = skip_ws b s" "s \<le> s'" "s \<le> length b \<Longrightarrow> s' \<le> length b" "y \<Longrightarrow> s' < length b" "y \<Longrightarrow> chr b s' \<noteq> 0"
  using assms skip_ws_bounds chr_nonzero by (auto simp: peek_def Let_def)

lemma redir_advances:
  assumes "peek b s toks = (s1, True)" and "gettoken b s1 = (t, q, e, s2)" and "gettoken b s2 = (97, q', e', s3)"
  shows "length b - s3 < length b - s"
proof -
  note p = peek_bounds [OF assms(1)]
  have s1: "s1 < length b" "s \<le> s1" using p by auto
  have "s1 \<le> s2" "s2 \<le> length b" using gettoken_advances [OF assms(2)] s1 by auto
  moreover have "s2 < s3" using gettoken_advances(3) [OF assms(3)] calculation by simp
  ultimately show ?thesis using s1 by linarith
qed

function parseredirs :: "byte list \<Rightarrow> cmd \<Rightarrow> nat \<Rightarrow> (cmd \<times> nat) res" where
  "parseredirs b c s =
     (let (s, y) = peek b s [60, 62] in
      if y then
        (let (tok, _, _, s) = gettoken b s; (w, q, eq, s) = gettoken b s in
         if w \<noteq> 97 then Inl (Panic ''missing file for redirection'')
         else parseredirs b (redir tok c q eq) s)
      else Inr (c, s))"
  by pat_completeness auto
termination
  by (relation "measure (\<lambda>(b, c, s). length b - s)") (auto intro: redir_advances dest: sym)

declare parseredirs.simps [simp del]

text \<open>The loop of \<^verbatim>\<open>parseexec\<close> over the arguments.\<close>

function parse_args :: "byte list \<Rightarrow> nat \<Rightarrow> cmd \<Rightarrow> nat \<Rightarrow> (cmd \<times> nat) res" where
  "parse_args b argc c s =
     (let (s, y) = peek b s [124, 41, 38, 59] in
      if y then Inr (c, s)
      else
        (let (tok, q, eq, s) = gettoken b s in
         if tok = 0 then Inr (c, s)
         else if tok \<noteq> 97 then Inl (Panic ''syntax'')
         else
           (let c = add_arg q eq c; argc = argc + 1 in
            if argc \<ge> MAXARGS then Inl (Panic ''too many args'')
            else bindR (parseredirs b c s) (\<lambda>(c, s). parse_args b argc c s))))"
  by pat_completeness auto
termination
  by (relation "measure (\<lambda>(b, argc, c, s). MAXARGS - argc)") auto

declare parse_args.simps [simp del]

text \<open>The loop of \<^verbatim>\<open>parseline\<close> over ampersands.\<close>

function back_loop :: "byte list \<Rightarrow> cmd \<Rightarrow> nat \<Rightarrow> cmd \<times> nat" where
  "back_loop b c s =
     (let (s, y) = peek b s [38] in
      if y then (let (_, _, _, s) = gettoken b s in back_loop b (BACK c) s) else (c, s))"
  by pat_completeness auto

lemma token_advances:
  assumes "peek b s toks = (s1, True)" and "gettoken b s1 = (t, q, e, s2)"
  shows "length b - s2 < length b - s"
proof -
  note p = peek_bounds [OF assms(1)] and g = gettoken_bounds [OF assms(2)]
  have "t \<noteq> 0" using p(1,5) g(1,2) by simp
  then show ?thesis using gettoken_advances [OF assms(2)] p by simp
qed

termination back_loop
  by (relation "measure (\<lambda>(b, c, s). length b - s)") (auto intro: token_advances dest: sym)

declare back_loop.simps [simp del]

text \<open>
  The mutually recursive functions, each with the functions it calls as arguments. \<open>parse\<close> ties them together with fuel,
  one unit for each call, and \<open>Hang\<close> stands for a lack of it; \<^verbatim>\<open>parsecmd\<close> starts with enough for every line.
\<close>

type_synonym parser = "byte list \<Rightarrow> nat \<Rightarrow> (cmd \<times> nat) res"

definition parseline :: "parser \<Rightarrow> parser \<Rightarrow> parser" where
  "parseline pipe line b s =
     bindR (pipe b s) (\<lambda>(c, s).
     let (c, s) = back_loop b c s; (s, y) = peek b s [59] in
     if y then (let (_, _, _, s) = gettoken b s in bindR (line b s) (\<lambda>(r, s). Inr (LIST c r, s)))
     else Inr (c, s))"

definition parsepipe :: "parser \<Rightarrow> parser \<Rightarrow> parser" where
  "parsepipe exec pipe b s =
     bindR (exec b s) (\<lambda>(c, s).
     let (s, y) = peek b s [124] in
     if y then (let (_, _, _, s) = gettoken b s in bindR (pipe b s) (\<lambda>(r, s). Inr (PIPE c r, s)))
     else Inr (c, s))"

definition parseblock :: "parser \<Rightarrow> parser" where
  "parseblock line b s =
     (let (s, y) = peek b s [40] in
      if \<not> y then Inl (Panic ''parseblock'')
      else
        (let (_, _, _, s) = gettoken b s in
         bindR (line b s) (\<lambda>(c, s).
         let (s, y) = peek b s [41] in
         if \<not> y then Inl (Panic ''syntax - missing )'')
         else (let (_, _, _, s) = gettoken b s in parseredirs b c s))))"

definition parseexec :: "parser \<Rightarrow> parser" where
  "parseexec block b s =
     (let (s, y) = peek b s [40] in
      if y then block b s
      else bindR (parseredirs b (EXEC [] []) s) (\<lambda>(c, s). parse_args b 0 c s))"

datatype nonterm = Line | Pipe | Exec | Block

primrec grammar :: "(nonterm \<Rightarrow> parser) \<Rightarrow> nonterm \<Rightarrow> parser" where
  "grammar p Line = parseline (p Pipe) (p Line)"
| "grammar p Pipe = parsepipe (p Exec) (p Pipe)"
| "grammar p Exec = parseexec (p Block)"
| "grammar p Block = parseblock (p Line)"

primrec parse :: "nat \<Rightarrow> nonterm \<Rightarrow> parser" where
  "parse 0 = (\<lambda>k b s. Inl Hang)"
| "parse (Suc n) = grammar (parse n)"

text \<open>The buffer has the bytes of the line and the NUL after them.\<close>

primrec nulterminate :: "cmd \<Rightarrow> byte list \<Rightarrow> byte list" where
  "nulterminate (EXEC argv eargv) b = fold (\<lambda>i b. b[i := 0]) (take (length argv) eargv) b"
| "nulterminate (REDIR c f ef mode fd) b = (nulterminate c b)[ef := 0]"
| "nulterminate (PIPE l r) b = nulterminate r (nulterminate l b)"
| "nulterminate (LIST l r) b = nulterminate r (nulterminate l b)"
| "nulterminate (BACK c) b = nulterminate c b"

definition parsecmd :: "byte list \<Rightarrow> (cmd \<times> byte list) res" where
  "parsecmd b =
     (let es = length b in
      bindR (parse (4 * es + 3) Line b 0) (\<lambda>(c, s).
      let (s, _) = peek b s [] in
      if s \<noteq> es then Inl (Panic ''syntax'') else Inr (c, nulterminate c (b @ [0]))))"

section \<open>What a parsed command refers to\<close>

text \<open>The words of a command as pairs of positions, and when a pair is a word of the line.\<close>

primrec refs :: "cmd \<Rightarrow> (nat \<times> nat) set" where
  "refs (EXEC argv eargv) = set (zip argv eargv)"
| "refs (REDIR c f ef mode fd) = insert (f, ef) (refs c)"
| "refs (PIPE l r) = refs l \<union> refs r"
| "refs (LIST l r) = refs l \<union> refs r"
| "refs (BACK c) = refs c"

primrec args_ok :: "cmd \<Rightarrow> bool" where
  "args_ok (EXEC argv eargv) \<longleftrightarrow> length argv < MAXARGS \<and> length eargv = length argv"
| "args_ok (REDIR c f ef mode fd) \<longleftrightarrow> args_ok c"
| "args_ok (PIPE l r) \<longleftrightarrow> args_ok l \<and> args_ok r"
| "args_ok (LIST l r) \<longleftrightarrow> args_ok l \<and> args_ok r"
| "args_ok (BACK c) \<longleftrightarrow> args_ok c"

definition is_word :: "byte list \<Rightarrow> nat \<times> nat \<Rightarrow> bool" where
  "is_word b w \<longleftrightarrow> fst w < snd w \<and> snd w \<le> length b \<and> (\<forall>i. fst w \<le> i \<and> i < snd w \<longrightarrow> word_char (b ! i)) \<and>
     \<not> (snd w < length b \<and> word_char (b ! snd w))"

definition sub :: "byte list \<Rightarrow> nat \<Rightarrow> nat \<Rightarrow> byte list" where
  "sub b q e = take (e - q) (drop q b)"

lemma gettoken_word:
  assumes "gettoken b s = (97, q, e, s')"
  shows "is_word b (q, e)"
proof -
  let ?w = "takeWhile word_char (drop q b)"
  note g = gettoken_bounds [OF assms]
  have e: "e = q + length ?w"
    using assms by (auto simp: gettoken_def Let_def split: if_splits)
  have "word_char (b ! i)" if "q \<le> i" "i < e" for i
  proof -
    have "i - q < length ?w" using that e by simp
    then have "word_char (drop q b ! (i - q))" by (metis nth_mem set_takeWhileD takeWhile_nth)
    then show ?thesis using that g(4) by (simp add: nth_drop)
  qed
  moreover have "\<not> word_char (b ! e)" if "e < length b"
    using nth_length_takeWhile [of word_char "drop q b"] that e by (simp add: nth_drop)
  ultimately show ?thesis using g(3,4) by (auto simp: is_word_def)
qed

definition cmd_ok :: "byte list \<Rightarrow> cmd \<Rightarrow> bool" where
  "cmd_ok b c \<longleftrightarrow> args_ok c \<and> (\<forall>w \<in> refs c. is_word b w)"

primrec simple :: "cmd \<Rightarrow> nat \<Rightarrow> bool" where
  "simple (EXEC argv eargv) n \<longleftrightarrow> length argv = n"
| "simple (REDIR c f ef mode fd) n \<longleftrightarrow> simple c n"
| "simple (PIPE l r) n \<longleftrightarrow> False"
| "simple (LIST l r) n \<longleftrightarrow> False"
| "simple (BACK c) n \<longleftrightarrow> False"

lemma cmd_ok_simps [simp]:
  "cmd_ok b (REDIR c f ef mode fd) \<longleftrightarrow> is_word b (f, ef) \<and> cmd_ok b c"
  "cmd_ok b (PIPE l r) \<longleftrightarrow> cmd_ok b l \<and> cmd_ok b r" "cmd_ok b (LIST l r) \<longleftrightarrow> cmd_ok b l \<and> cmd_ok b r"
  "cmd_ok b (BACK c) \<longleftrightarrow> cmd_ok b c" "cmd_ok b (EXEC [] [])"
  by (auto simp: cmd_ok_def MAXARGS_def)

lemma redir_ok: "cmd_ok b c \<Longrightarrow> is_word b (q, e) \<Longrightarrow> cmd_ok b (redir t c q e)"
  "simple c n \<Longrightarrow> simple (redir t c q e) n"
  by (simp_all add: redir_def)

lemma add_arg_ok:
  assumes "is_word b (q, e)"
  shows "cmd_ok b c \<Longrightarrow> simple c n \<Longrightarrow> Suc n < MAXARGS \<Longrightarrow> cmd_ok b (add_arg q e c) \<and> simple (add_arg q e c) (Suc n)"
proof (induction c)
  case (EXEC argv eargv)
  then have "length argv = length eargv" "\<forall>w \<in> set (zip argv eargv). is_word b w" by (simp_all add: cmd_ok_def)
  then show ?case using EXEC assms by (simp add: cmd_ok_def)
qed simp_all

lemma parseredirs_ok:
  "parseredirs b c s = Inr (c', s') \<Longrightarrow> cmd_ok b c \<Longrightarrow> s \<le> length b \<Longrightarrow>
   cmd_ok b c' \<and> s \<le> s' \<and> s' \<le> length b \<and> (\<forall>n. simple c n \<longrightarrow> simple c' n)"
proof (induction b c s arbitrary: c' s' rule: parseredirs.induct)
  case (1 b c s)
  obtain s1 y where p: "peek b s [60, 62] = (s1, y)" by (cases "peek b s [60, 62]")
  obtain t q1 e1 s2 where t: "gettoken b s1 = (t, q1, e1, s2)" by (cases "gettoken b s1")
  obtain w q e s3 where w: "gettoken b s2 = (w, q, e, s3)" by (cases "gettoken b s2")
  note bp = peek_bounds [OF p]
  show ?case
  proof (cases y)
    case False
    then show ?thesis using 1(2-) p bp by (simp add: parseredirs.simps)
  next
    case True
    have b1: "s \<le> s1" "s1 \<le> length b" using bp 1(4) by auto
    have b2: "s1 \<le> s2" "s2 \<le> length b" using gettoken_advances [OF t b1(2)] by auto
    have b3: "s2 \<le> s3" "s3 \<le> length b" using gettoken_advances [OF w b2(2)] by auto
    have eq: "w = 97" "parseredirs b (redir t c q e) s3 = Inr (c', s')"
      using 1(2) p t w True by (subst (asm) parseredirs.simps; simp split: if_splits)+
    have "is_word b (q, e)" using gettoken_word w eq(1) by blast
    from redir_ok(1) [OF 1(3) this]
    have "cmd_ok b c' \<and> s3 \<le> s' \<and> s' \<le> length b \<and> (\<forall>n. simple (redir t c q e) n \<longrightarrow> simple c' n)"
      using 1(1) [OF p [symmetric] refl True t [symmetric] refl refl refl w [symmetric] refl refl refl] eq b3(2) by simp
    then show ?thesis using b1 b2 b3 redir_ok(2) by fastforce
  qed
qed

lemma parse_args_ok:
  "parse_args b argc c s = Inr (c', s') \<Longrightarrow> cmd_ok b c \<Longrightarrow> simple c argc \<Longrightarrow> s \<le> length b \<Longrightarrow>
   cmd_ok b c' \<and> s \<le> s' \<and> s' \<le> length b"
proof (induction b argc c s arbitrary: c' s' rule: parse_args.induct)
  case (1 b argc c s)
  obtain s1 y where p: "peek b s [124, 41, 38, 59] = (s1, y)" by (cases "peek b s [124, 41, 38, 59]")
  obtain t q e s2 where t: "gettoken b s1 = (t, q, e, s2)" by (cases "gettoken b s1")
  note bp = peek_bounds [OF p]
  have b1: "s \<le> s1" "s1 \<le> length b" using bp 1(5) by auto
  have b2: "s1 \<le> s2" "s2 \<le> length b" using gettoken_advances [OF t b1(2)] by auto
  show ?case
  proof (cases "y \<or> t = 0")
    case True
    then show ?thesis using 1(2-) p t b1 b2 by (subst (asm) parse_args.simps) (auto split: if_splits)
  next
    case False
    have t97: "t = 97" "Suc argc < MAXARGS"
      using 1(2) p t False by (subst (asm) parse_args.simps; simp split: if_splits)+
    obtain d s3 where d: "parseredirs b (add_arg q e c) s2 = Inr (d, s3)" "parse_args b (Suc argc) d s3 = Inr (c', s')"
      using 1(2) p t False t97 by (subst (asm) parse_args.simps) (auto simp: bindR_eq_Inr)
    have "is_word b (q, e)" using gettoken_word t t97(1) by blast
    from add_arg_ok [OF this 1(3,4) t97(2)] have "cmd_ok b (add_arg q e c)" "simple (add_arg q e c) (Suc argc)" by auto
    with parseredirs_ok [OF d(1)] b2 have "cmd_ok b d" "simple d (Suc argc)" "s2 \<le> s3" "s3 \<le> length b" by auto
    with 1(1) [of "(s1, y)" s1 y "(t, q, e, s2)" t "(q, e, s2)" q "(e, s2)" e s2] d t97 False p t b1 b2
    show ?thesis by fastforce
  qed
qed

lemma back_loop_ok:
  "back_loop b c s = (c', s') \<Longrightarrow> cmd_ok b c \<Longrightarrow> s \<le> length b \<Longrightarrow> cmd_ok b c' \<and> s \<le> s' \<and> s' \<le> length b"
proof (induction b c s arbitrary: c' s' rule: back_loop.induct)
  case (1 b c s)
  obtain s1 y where p: "peek b s [38] = (s1, y)" by (cases "peek b s [38]")
  obtain t q e s2 where t: "gettoken b s1 = (t, q, e, s2)" by (cases "gettoken b s1")
  note bp = peek_bounds [OF p]
  have b1: "s \<le> s1" "s1 \<le> length b" using bp 1(4) by auto
  have b2: "s1 \<le> s2" "s2 \<le> length b" using gettoken_advances [OF t b1(2)] by auto
  show ?case
  proof (cases y)
    case True
    have "back_loop b (BACK c) s2 = (c', s')" using 1(2) p t True by (subst (asm) back_loop.simps) simp
    then show ?thesis
      using 1(1) [OF p [symmetric] refl True t [symmetric] refl refl refl] 1(3) b1 b2 by fastforce
  next
    case False
    then show ?thesis using 1(2-) p b1 by (subst (asm) back_loop.simps) auto
  qed
qed

text \<open>
  What every parser of the mutual recursion keeps: a result refers to words of the line, and the position moves forward
  within it. A separator is read between two parts.
\<close>

lemma separator:
  assumes "peek b s toks = (s1, True)" and "gettoken b s1 = (t, q, e, s2)" and "s \<le> length b"
  shows "s < s2" "s2 \<le> length b"
  using token_advances [OF assms(1,2)] gettoken_advances [OF assms(2)] peek_bounds [OF assms(1)] assms(3) by auto

definition keeps :: "byte list \<Rightarrow> parser \<Rightarrow> bool" where
  "keeps b p \<longleftrightarrow> (\<forall>s c s'. p b s = Inr (c, s') \<longrightarrow> s \<le> length b \<longrightarrow> cmd_ok b c \<and> s \<le> s' \<and> s' \<le> length b)"

lemma keepsI:
  "(\<And>s c s'. p b s = Inr (c, s') \<Longrightarrow> s \<le> length b \<Longrightarrow> cmd_ok b c \<and> s \<le> s' \<and> s' \<le> length b) \<Longrightarrow> keeps b p"
  by (simp add: keeps_def)

lemma keepsD:
  "keeps b p \<Longrightarrow> p b s = Inr (c, s') \<Longrightarrow> s \<le> length b \<Longrightarrow> cmd_ok b c \<and> s \<le> s' \<and> s' \<le> length b"
  by (simp add: keeps_def)

lemma parseline_keeps:
  assumes pipe: "keeps b pipe" and line: "keeps b line"
  shows "keeps b (parseline pipe line)"
proof (rule keepsI)
  fix s c s'
  assume prem: "parseline pipe line b s = Inr (c, s')" "s \<le> length b"
  obtain d s1 where d: "pipe b s = Inr (d, s1)" using prem(1) by (auto simp: parseline_def bindR_eq_Inr)
  obtain d2 s2 where d2: "back_loop b d s1 = (d2, s2)" by (cases "back_loop b d s1")
  obtain s3 y where p: "peek b s2 [59] = (s3, y)" by (cases "peek b s2 [59]")
  obtain t q e s4 where t: "gettoken b s3 = (t, q, e, s4)" by (cases "gettoken b s3")
  have ok: "cmd_ok b d2" "s \<le> s2" "s2 \<le> length b"
    using keepsD [OF pipe d prem(2)] back_loop_ok [OF d2] by auto
  show "cmd_ok b c \<and> s \<le> s' \<and> s' \<le> length b"
  proof (cases y)
    case True
    then obtain r where r: "line b s4 = Inr (r, s')" "c = LIST d2 r"
      using prem(1) d d2 p t by (auto simp: parseline_def bindR_eq_Inr)
    have "s2 < s4" "s4 \<le> length b" using separator [OF _ t ok(3)] p True by auto
    then show ?thesis using keepsD [OF line r(1)] r(2) ok by auto
  next
    case False
    then show ?thesis
      using prem(1) d d2 p ok peek_bounds [OF p] by (auto simp: parseline_def)
  qed
qed

lemma parsepipe_keeps:
  assumes exec: "keeps b exec" and pipe: "keeps b pipe"
  shows "keeps b (parsepipe exec pipe)"
proof (rule keepsI)
  fix s c s'
  assume prem: "parsepipe exec pipe b s = Inr (c, s')" "s \<le> length b"
  obtain d s2 where d: "exec b s = Inr (d, s2)" using prem(1) by (auto simp: parsepipe_def bindR_eq_Inr)
  obtain s3 y where p: "peek b s2 [124] = (s3, y)" by (cases "peek b s2 [124]")
  obtain t q e s4 where t: "gettoken b s3 = (t, q, e, s4)" by (cases "gettoken b s3")
  have ok: "cmd_ok b d" "s \<le> s2" "s2 \<le> length b" using keepsD [OF exec d prem(2)] by auto
  show "cmd_ok b c \<and> s \<le> s' \<and> s' \<le> length b"
  proof (cases y)
    case True
    then obtain r where r: "pipe b s4 = Inr (r, s')" "c = PIPE d r"
      using prem(1) d p t by (auto simp: parsepipe_def bindR_eq_Inr)
    have "s2 < s4" "s4 \<le> length b" using separator [OF _ t ok(3)] p True by auto
    then show ?thesis using keepsD [OF pipe r(1)] r(2) ok by auto
  next
    case False
    then show ?thesis
      using prem(1) d p ok peek_bounds [OF p] by (auto simp: parsepipe_def)
  qed
qed

lemma parseexec_keeps:
  assumes block: "keeps b block"
  shows "keeps b (parseexec block)"
proof (rule keepsI)
  fix s c s'
  assume prem: "parseexec block b s = Inr (c, s')" "s \<le> length b"
  obtain s1 y where p: "peek b s [40] = (s1, y)" by (cases "peek b s [40]")
  have b1: "s \<le> s1" "s1 \<le> length b" using peek_bounds [OF p] prem(2) by auto
  show "cmd_ok b c \<and> s \<le> s' \<and> s' \<le> length b"
  proof (cases y)
    case True
    then show ?thesis using prem(1) p keepsD [OF block, of s1] b1 by (fastforce simp: parseexec_def)
  next
    case False
    then obtain d s2 where d: "parseredirs b (EXEC [] []) s1 = Inr (d, s2)" "parse_args b 0 d s2 = Inr (c, s')"
      using prem(1) p by (auto simp: parseexec_def bindR_eq_Inr)
    show ?thesis
      using parseredirs_ok [OF d(1)] parse_args_ok [OF d(2)] b1 by fastforce
  qed
qed

lemma parseblock_keeps:
  assumes line: "keeps b line"
  shows "keeps b (parseblock line)"
proof (rule keepsI)
  fix s c s'
  assume prem: "parseblock line b s = Inr (c, s')" "s \<le> length b"
  obtain s1 y where p: "peek b s [40] = (s1, y)" by (cases "peek b s [40]")
  obtain t q e s2 where t: "gettoken b s1 = (t, q, e, s2)" by (cases "gettoken b s1")
  have y: y using prem(1) p by (auto simp: parseblock_def split: if_splits)
  then obtain d s3 where d: "line b s2 = Inr (d, s3)"
    using prem(1) p t by (auto simp: parseblock_def bindR_eq_Inr)
  obtain s4 z where p2: "peek b s3 [41] = (s4, z)" by (cases "peek b s3 [41]")
  obtain t2 q2 e2 s5 where t2: "gettoken b s4 = (t2, q2, e2, s5)" by (cases "gettoken b s4")
  have z: z and r: "parseredirs b d s5 = Inr (c, s')"
    using prem(1) p t y d p2 t2 by (auto simp: parseblock_def split: if_splits)
  have "s < s2" "s2 \<le> length b" using separator [OF _ t prem(2)] p y by auto
  moreover have "cmd_ok b d" "s2 \<le> s3" "s3 \<le> length b" using keepsD [OF line d] calculation by auto
  moreover have "s3 < s5" "s5 \<le> length b" using separator [OF _ t2] p2 z calculation by auto
  ultimately show "cmd_ok b c \<and> s \<le> s' \<and> s' \<le> length b" using parseredirs_ok [OF r] by auto
qed

lemma parse_keeps: "keeps b (parse n k)"
proof (induction n arbitrary: k)
  case 0
  show ?case by (simp add: keeps_def)
next
  case (Suc n)
  show ?case
    by (cases k) (simp_all add: Suc.IH parseline_keeps parsepipe_keeps parseexec_keeps parseblock_keeps)
qed

section \<open>Enough fuel\<close>

lemma parseredirs_no_hang: "parseredirs b c s \<noteq> Inl Hang"
proof (induction b c s rule: parseredirs.induct)
  case (1 b c s)
  then show ?case by (subst parseredirs.simps) (auto split: prod.splits)
qed

lemma parse_args_no_hang: "parse_args b argc c s \<noteq> Inl Hang"
proof (induction b argc c s rule: parse_args.induct)
  case (1 b argc c s)
  then show ?case
    by (subst parse_args.simps) (auto simp: bindR_eq_Inl parseredirs_no_hang split: prod.splits)
qed

text \<open>The fuel that is enough with \<open>m\<close> bytes to go.\<close>

primrec need :: "nonterm \<Rightarrow> nat \<Rightarrow> nat" where
  "need Line m = 4 * m + 3"
| "need Pipe m = 4 * m + 2"
| "need Exec m = 4 * m + 1"
| "need Block m = 4 * m"

lemma parse_enough:
  "s \<le> length b \<Longrightarrow> need k (length b - s) \<le> n \<Longrightarrow> (k = Block \<Longrightarrow> s < length b) \<Longrightarrow> parse n k b s \<noteq> Inl Hang"
proof (induction n arbitrary: k s)
  case 0
  then show ?case by (cases k) auto
next
  case (Suc n)
  have later: "parse n k' b s2 \<noteq> Inl Hang"
    if "need k' (length b - s2) \<le> n" "k' \<noteq> Block" "s2 \<le> length b" for k' s2
    using that by (intro Suc.IH) auto
  have after: "parse n k' b s2 \<noteq> Inl Hang"
    if "peek b s1 toks = (s1', True)" "gettoken b s1' = (t, q, e, s2)" "s \<le> s1" "s1 \<le> length b" "k' \<noteq> Block"
      "k = Block \<or> k = Line \<or> k = Pipe \<and> k' = Pipe" for s1 s1' toks t q e s2 k'
  proof (rule later)
    have "s1 < s2" "s2 \<le> length b" using separator [OF that(1,2,4)] by auto
    then show "need k' (length b - s2) \<le> n" "s2 \<le> length b" using Suc.prems(2) that by (cases k'; auto)+
  qed (rule that(5))
  show ?case
  proof (cases k)
    case Line
    have "parse n Pipe b s \<noteq> Inl Hang" using Suc.prems Line by (intro later) auto
    moreover have "s \<le> s2 \<and> s2 \<le> length b" if "parse n Pipe b s = Inr (c, s1)" "back_loop b c s1 = (c2, s2)" for c s1 c2 s2
      using keepsD [OF parse_keeps that(1) Suc.prems(1)] back_loop_ok [OF that(2)] by auto
    ultimately show ?thesis
      using after [of _ "[59]" _ _ _ _ _ Line] Line
      by (auto simp: parseline_def bindR_eq_Inl split: prod.splits)
  next
    case Pipe
    have "parse n Exec b s \<noteq> Inl Hang" using Suc.prems Pipe by (intro later) auto
    then show ?thesis
      using after [of _ "[124]" _ _ _ _ _ Pipe] keepsD [OF parse_keeps _ Suc.prems(1), of n Exec] Pipe
      by (auto simp: parsepipe_def bindR_eq_Inl split: prod.splits)
  next
    case Exec
    have "parse n Block b s1 \<noteq> Inl Hang" if "peek b s [40] = (s1, True)" for s1
      using peek_bounds [OF that] Suc.prems Exec by (intro Suc.IH) auto
    then show ?thesis
      using Exec by (auto simp: parseexec_def bindR_eq_Inl parseredirs_no_hang parse_args_no_hang split: prod.splits)
  next
    case Block
    show ?thesis
      using after [of s "[40]" _ _ _ _ _ Line] Suc.prems(1) Block
      by (auto simp: parseblock_def bindR_eq_Inl parseredirs_no_hang split: prod.splits)
  qed
qed

section \<open>The strings of a command\<close>

primrec ends :: "cmd \<Rightarrow> nat set" where
  "ends (EXEC argv eargv) = set (take (length argv) eargv)"
| "ends (REDIR c f ef mode fd) = insert ef (ends c)"
| "ends (PIPE l r) = ends l \<union> ends r"
| "ends (LIST l r) = ends l \<union> ends r"
| "ends (BACK c) = ends c"

lemma fold_zero:
  "length (fold (\<lambda>i b. b[i := 0]) is b) = length b"
  "j < length b \<Longrightarrow> fold (\<lambda>i b. b[i := 0]) is b ! j = (if j \<in> set is then 0 else b ! j)" for b :: "byte list"
  by (induction "is" arbitrary: b) (auto simp: nth_list_update)

lemma length_nulterminate [simp]: "length (nulterminate c b) = length b"
  by (induction c arbitrary: b) (simp_all add: fold_zero)

lemma nulterminate_nth: "j < length b \<Longrightarrow> nulterminate c b ! j = (if j \<in> ends c then 0 else b ! j)"
proof (induction c arbitrary: b)
  case (REDIR c f ef mode fd)
  then show ?case by (cases "j = ef") simp_all
qed (auto simp: fold_zero)

lemma ends_refs: "args_ok c \<Longrightarrow> ends c = snd ` refs c"
proof (induction c)
  case (EXEC argv eargv)
  then show ?case by (simp flip: list.set_map)
qed auto

definition cstring :: "byte list \<Rightarrow> nat \<Rightarrow> byte list" where
  "cstring b q = takeWhile (\<lambda>c. c \<noteq> 0) (drop q b)"

lemma length_sub [simp]: "e \<le> length b \<Longrightarrow> length (sub b q e) = e - q"
  by (simp add: sub_def)

lemma nul_word:
  assumes "cmd_ok b c" and "(q, e) \<in> refs c" and "0 \<notin> set b"
  shows "cstring (nulterminate c (b @ [0])) q = sub b q e"
proof -
  let ?b = "nulterminate c (b @ [0])"
  have ok: "args_ok c" "\<forall>w \<in> refs c. is_word b w" using assms(1) by (auto simp: cmd_ok_def)
  have w: "q < e" "e \<le> length b" "\<And>i. q \<le> i \<Longrightarrow> i < e \<Longrightarrow> word_char (b ! i)"
    using ok(2) assms(2) by (auto simp: is_word_def)
  have ends: "\<not> (i < length b \<and> word_char (b ! i))" if "i \<in> ends c" for i
    using that ok(2) unfolding ends_refs [OF ok(1)] by (auto simp: is_word_def)
  have e: "?b ! e = 0" using assms(2) w(2) ends_refs [OF ok(1)] by (force simp: nulterminate_nth)
  have same: "?b ! i = b ! i" if "q \<le> i" "i < e" for i
    using that w ends [of i] by (auto simp: nulterminate_nth nth_append)
  have d: "drop q ?b = sub b q e @ 0 # drop (e + 1) ?b"
  proof (rule nth_equalityI)
    show "length (drop q ?b) = length (sub b q e @ 0 # drop (e + 1) ?b)" using w by (simp add: nulterminate_nth)
    fix i assume i: "i < length (drop q ?b)"
    then consider "q + i < e" | "q + i = e" | "e < q + i" by linarith
    then show "drop q ?b ! i = (sub b q e @ 0 # drop (e + 1) ?b) ! i"
    proof cases
      case 1
      moreover have "i < e - q" using 1 by simp
      ultimately show ?thesis using i w same [of "q + i"] by (simp add: nth_append sub_def)
    next
      case 2
      then show ?thesis using i w e by (auto simp: nth_append sub_def)
    next
      case 3
      define j where "j = q + i - e - 1"
      have "\<not> i < e - q" "i - (e - q) = Suc j" "q + i = e + Suc j" using 3 w(1) by (simp_all add: j_def)
      then show ?thesis using i w by (simp add: nth_append sub_def)
    qed
  qed
  have "\<forall>x \<in> set (sub b q e). x \<noteq> 0" using assms(3) by (auto simp: sub_def dest!: in_set_takeD in_set_dropD)
  then show ?thesis unfolding cstring_def d by (simp add: takeWhile_append2)
qed

text \<open>
  C30: The parser of the shell terminates on every line, and a command it returns is well formed: each \<^verbatim>\<open>execcmd\<close> has at
  most 9 arguments, so that its null pointer is within \<^verbatim>\<open>argv\<close>, and every argument and file name points into the
  line at a word of bytes that are neither whitespace nor symbols, which \<^verbatim>\<open>nulterminate\<close> has made a string without
  changing any other word.
\<close>

theorem parsecmd_strings:
  assumes "0 \<notin> set b"
  shows "parsecmd b \<noteq> Inl Hang \<and>
    (\<forall>c b'. parsecmd b = Inr (c, b') \<longrightarrow> args_ok c \<and> length b' = Suc (length b) \<and>
      (\<forall>(q, e) \<in> refs c. q < e \<and> e \<le> length b \<and> cstring b' q = sub b q e \<and> (\<forall>x \<in> set (sub b q e). word_char x)))"
proof (intro conjI allI impI)
  let ?n = "4 * length b + 3"
  have "parse ?n Line b 0 \<noteq> Inl Hang" by (rule parse_enough) simp_all
  then show "parsecmd b \<noteq> Inl Hang" by (auto simp: parsecmd_def bindR_eq_Inl Let_def split: prod.splits if_splits)
  fix c b' assume a: "parsecmd b = Inr (c, b')"
  then obtain d s where d: "parse ?n Line b 0 = Inr (d, s)" by (auto simp: parsecmd_def bindR_eq_Inr Let_def)
  obtain s1 y where "peek b s [] = (s1, y)" by (cases "peek b s []")
  then have p: "parse ?n Line b 0 = Inr (c, s)" and b': "b' = nulterminate c (b @ [0])"
    using a d by (auto simp: parsecmd_def Let_def split: if_splits)
  have ok: "cmd_ok b c" using keepsD [OF parse_keeps p] by simp
  show "args_ok c" "length b' = Suc (length b)" using ok b' by (simp_all add: cmd_ok_def)
  have "q < e \<and> e \<le> length b \<and> cstring b' q = sub b q e \<and> (\<forall>x \<in> set (sub b q e). word_char x)"
    if r: "(q, e) \<in> refs c" for q e
  proof -
    have w: "is_word b (q, e)" using ok r by (auto simp: cmd_ok_def)
    then have "word_char x" if "x \<in> set (sub b q e)" for x
      using that by (auto simp: in_set_conv_nth is_word_def sub_def)
    then show ?thesis using w nul_word [OF ok r assms] b' by (auto simp: is_word_def)
  qed
  then show "\<forall>(q, e) \<in> refs c. q < e \<and> e \<le> length b \<and> cstring b' q = sub b q e \<and> (\<forall>x \<in> set (sub b q e). word_char x)"
    by auto
qed

text \<open>The line \<^verbatim>\<open>a>b\<close>.\<close>

theorem parsecmd_strings_witness:
  "parsecmd [97, 62, 98] = Inr (REDIR (EXEC [0] [1]) 2 3 (O_WRONLY OR O_CREATE OR O_TRUNC) 1, [97, 0, 98, 0]) \<and>
   cstring [97, 0, 98, 0] 0 = [97] \<and> cstring [97, 0, 98, 0] 2 = [98]"
proof -
  have p: "parsecmd [97, 62, 98] = Inr (REDIR (EXEC [0] [1]) 2 3 (O_WRONLY OR O_CREATE OR O_TRUNC) 1, [97, 0, 98, 0])"
    by code_simp
  have "(0 :: byte) \<notin> set [97, 62, 98]" by simp
  from parsecmd_strings [OF this] p show ?thesis by (simp add: sub_def)
qed

section \<open>Printing and parsing back\<close>

text \<open>Commands with their words, as read from a parsed command and its buffer.\<close>

datatype ast =
    ACmd "byte list list"
  | ARedir ast "byte list" uint32 int
  | APipe ast ast
  | AList ast ast
  | ABack ast

primrec command :: "byte list \<Rightarrow> cmd \<Rightarrow> ast" where
  "command b (EXEC argv eargv) = ACmd (map (cstring b) argv)"
| "command b (REDIR c f ef mode fd) = ARedir (command b c) (cstring b f) mode fd"
| "command b (PIPE l r) = APipe (command b l) (command b r)"
| "command b (LIST l r) = AList (command b l) (command b r)"
| "command b (BACK c) = ABack (command b c)"

primrec words_of :: "byte list \<Rightarrow> cmd \<Rightarrow> ast" where
  "words_of b (EXEC argv eargv) = ACmd (map2 (sub b) argv eargv)"
| "words_of b (REDIR c f ef mode fd) = ARedir (words_of b c) (sub b f ef) mode fd"
| "words_of b (PIPE l r) = APipe (words_of b l) (words_of b r)"
| "words_of b (LIST l r) = AList (words_of b l) (words_of b r)"
| "words_of b (BACK c) = ABack (words_of b c)"

text \<open>The text of a command: words and symbols, each followed by a space, with parentheses where the grammar needs them.\<close>

datatype tok = Word "byte list" | Sym byte

primrec spell :: "tok \<Rightarrow> byte list" where
  "spell (Word w) = w"
| "spell (Sym c) = (if c = 43 then [62, 62] else [c])"

primrec code :: "tok \<Rightarrow> byte" where
  "code (Word w) = 97"
| "code (Sym c) = c"

definition good_word :: "byte list \<Rightarrow> bool" where
  "good_word w \<longleftrightarrow> w \<noteq> [] \<and> (\<forall>x \<in> set w. word_char x \<and> x \<noteq> 0)"

primrec valid_tok :: "tok \<Rightarrow> bool" where
  "valid_tok (Word w) \<longleftrightarrow> good_word w"
| "valid_tok (Sym c) \<longleftrightarrow> c \<in> {124, 40, 41, 59, 38, 60, 62, 43}"

definition redir_sym :: "uint32 \<Rightarrow> int \<Rightarrow> byte" where
  "redir_sym mode fd = (if fd = 0 then 60 else if mode = O_WRONLY OR O_CREATE then 43 else 62)"

definition paren :: "bool \<Rightarrow> tok list \<Rightarrow> tok list" where
  "paren fits ts = (if fits then ts else [Sym 40] @ ts @ [Sym 41])"

text \<open>Level 0 is what \<^verbatim>\<open>parseexec\<close> reads, 1 \<^verbatim>\<open>parsepipe\<close>, 2 a pipe with ampersands and 3 \<^verbatim>\<open>parseline\<close>.\<close>

primrec toks :: "ast \<Rightarrow> nat \<Rightarrow> tok list" where
  "toks (ACmd ws) lv = map Word ws"
| "toks (ARedir a f mode fd) lv = toks a 0 @ [Sym (redir_sym mode fd), Word f]"
| "toks (APipe l r) lv = paren (1 \<le> lv) (toks l 0 @ [Sym 124] @ toks r 1)"
| "toks (ABack a) lv = paren (2 \<le> lv) (toks a 2 @ [Sym 38])"
| "toks (AList l r) lv = paren (3 \<le> lv) (toks l 2 @ [Sym 59] @ toks r 3)"

definition bytes :: "tok list \<Rightarrow> byte list" where
  "bytes ts = concat (map (\<lambda>t. spell t @ [32]) ts)"

definition render :: "ast \<Rightarrow> byte list" where
  "render a = bytes (toks a 3)"

primrec wf_ast :: "ast \<Rightarrow> bool" where
  "wf_ast (ACmd ws) \<longleftrightarrow> length ws < MAXARGS \<and> (\<forall>w \<in> set ws. good_word w)"
| "wf_ast (ARedir a f mode fd) \<longleftrightarrow> wf_ast a \<and> good_word f \<and>
     (mode, fd) \<in> {(O_RDONLY, 0), (O_WRONLY OR O_CREATE OR O_TRUNC, 1), (O_WRONLY OR O_CREATE, 1)}"
| "wf_ast (APipe l r) \<longleftrightarrow> wf_ast l \<and> wf_ast r"
| "wf_ast (AList l r) \<longleftrightarrow> wf_ast l \<and> wf_ast r"
| "wf_ast (ABack a) \<longleftrightarrow> wf_ast a"

subsection \<open>Tokens of a line\<close>

primrec lexes :: "byte list \<Rightarrow> nat \<Rightarrow> tok list \<Rightarrow> bool" where
  "lexes b s [] \<longleftrightarrow> skip_ws b s = length b"
| "lexes b s (t # ts) \<longleftrightarrow> valid_tok t \<and>
     (case gettoken b s of (r, q, e, s') \<Rightarrow> r = code t \<and> sub b q e = spell t \<and> q < length b \<and> lexes b s' ts)"

definition first :: "tok list \<Rightarrow> byte" where
  "first ts = (case ts of [] \<Rightarrow> 0 | t # _ \<Rightarrow> hd (spell t))"

lemma first_simps [simp]: "first [] = 0" "first (t # ts) = hd (spell t)"
  by (simp_all add: first_def)

lemma lexes_skip [simp]: "lexes b (skip_ws b s) ts \<longleftrightarrow> lexes b s ts"
  by (cases ts) simp_all

lemma valid_first:
  assumes "valid_tok t"
  shows "spell t \<noteq> []" "hd (spell t) \<noteq> 0" "t = Word w \<Longrightarrow> word_char (hd (spell t))"
  using assms by (cases t; auto simp: good_word_def)+

lemma lexes_first:
  assumes "lexes b s ts"
  shows "chr b (skip_ws b s) = first ts"
proof (cases ts)
  case Nil
  then show ?thesis using assms by (simp add: chr_def)
next
  case (Cons t ts')
  obtain r q e s' where g: "gettoken b s = (r, q, e, s')" by (cases "gettoken b s")
  have "sub b q e = spell t" "q < length b" using assms Cons g by auto
  moreover have "spell t \<noteq> []" using valid_first(1) assms Cons by simp
  ultimately have "hd (spell t) = b ! q" by (metis hd_drop_conv_nth hd_take sub_def take_eq_Nil neq0_conv)
  then show ?thesis using Cons gettoken_bounds(1) [OF g] \<open>q < length b\<close> by (simp add: chr_def)
qed

lemma lexes_peek:
  "lexes b s ts \<Longrightarrow> peek b s cs = (skip_ws b s, first ts \<noteq> 0 \<and> first ts \<in> set cs)"
  using lexes_first by (simp add: peek_def)

lemma lexes_token:
  assumes "lexes b s (t # ts)"
  obtains q e s' where "gettoken b s = (code t, q, e, s')" "sub b q e = spell t" "lexes b s' ts"
  using assms by (auto split: prod.splits)

lemma lexes_end: "lexes b s [] \<Longrightarrow> gettoken b s = (0, length b, length b, length b)"
  by (simp add: gettoken_def chr_def skip_ws_def Let_def)

lemma takeWhile_text:
  assumes "good_word w"
  shows "takeWhile word_char (w @ 32 # r) = w"
  using assms by (subst takeWhile_append2) (auto simp: good_word_def word_char_def whitespace_def)

lemma gettoken_text:
  assumes "valid_tok t" and b: "b = pre @ spell t @ 32 # r"
  shows "gettoken b (length pre) = (code t, length pre, length pre + length (spell t), skip_ws b (length pre + length (spell t)))"
proof -
  have d: "drop (length pre) b = spell t @ 32 # r" by (simp add: b)
  have c: "chr b (length pre) = hd (spell t)" using valid_first(1) [OF assms(1)] by (cases "spell t") (simp_all add: b chr_def)
  have ws: "hd (spell t) \<notin> set whitespace" using assms(1)
    by (cases t) (auto simp: good_word_def word_char_def whitespace_def)
  have q: "skip_ws b (length pre) = length pre" using ws c by (simp add: skip_ws_id)
  show ?thesis
  proof (cases t)
    case (Word w)
    then have g: "good_word w" using assms(1) by simp
    then have "hd w \<noteq> 0" "word_char (hd w)" by (auto simp: good_word_def)
    then show ?thesis
      using Word q c d takeWhile_text [OF g] by (auto simp: gettoken_def word_char_def symbols_def Let_def)
  next
    case (Sym x)
    have "chr b (length pre + 1) = (if x = 43 then 62 else 32)" using Sym by (simp add: b chr_def nth_append)
    then show ?thesis using Sym q c assms(1) by (auto simp: gettoken_def Let_def)
  qed
qed

lemma lexes_bytes: "\<forall>t \<in> set ts. valid_tok t \<Longrightarrow> lexes (pre @ bytes ts) (length pre) ts"
proof (induction ts arbitrary: pre)
  case Nil
  show ?case by (simp add: bytes_def skip_ws_def)
next
  case (Cons t ts)
  let ?b = "pre @ bytes (t # ts)" and ?e = "length pre + length (spell t)"
  have b: "?b = pre @ spell t @ 32 # bytes ts" by (simp add: bytes_def)
  have b2: "?b = (pre @ spell t @ [32]) @ bytes ts" by (simp add: bytes_def)
  have g: "gettoken ?b (length pre) = (code t, length pre, ?e, skip_ws ?b ?e)"
    using gettoken_text [OF _ b] Cons.prems by simp
  have "drop ?e ?b = 32 # bytes ts" unfolding b by simp
  moreover have "drop (?e + 1) ?b = bytes ts" unfolding b by simp
  ultimately have "skip_ws ?b ?e = skip_ws ?b (?e + 1)" by (simp add: skip_ws_def whitespace_def)
  moreover have "lexes ?b (length (pre @ spell t @ [32])) ts" unfolding b2 by (rule Cons.IH) (use Cons.prems in simp)
  then have "lexes ?b (?e + 1) ts" by simp
  ultimately have "lexes ?b (skip_ws ?b ?e) ts" by (metis lexes_skip)
  moreover have "sub ?b (length pre) ?e = spell t" unfolding b by (simp add: sub_def)
  moreover have "length pre < length ?b" unfolding b by simp
  ultimately show ?case using g Cons.prems by simp
qed

subsection \<open>The parser on tokens\<close>

definition stop :: "tok list \<Rightarrow> bool" where
  "stop ts \<longleftrightarrow> ts = [] \<or> first ts \<in> {124, 41, 38, 59}"

lemma redirs_done: "lexes b s ts \<Longrightarrow> first ts \<notin> {60, 62} \<Longrightarrow> parseredirs b c s = Inr (c, skip_ws b s)"
  by (subst parseredirs.simps) (auto simp: lexes_peek)

lemma redirs_step:
  assumes "lexes b s (Sym r # Word f # ts)" and "r \<in> {60, 62, 43}"
  obtains q e s' where "parseredirs b c s = parseredirs b (redir r c q e) s'" "sub b q e = f" "lexes b s' ts"
proof -
  obtain q1 e1 s1 where g1: "gettoken b s = (r, q1, e1, s1)" "lexes b s1 (Word f # ts)"
    using lexes_token [OF assms(1)] by (metis code.simps(2))
  obtain q e s' where g2: "gettoken b s1 = (97, q, e, s')" "sub b q e = f" "lexes b s' ts"
    using lexes_token [OF g1(2)] by (metis code.simps(1) spell.simps(1))
  have "peek b s [60, 62] = (skip_ws b s, True)" using lexes_peek [OF assms(1)] assms(2) by auto
  then have "parseredirs b c s = parseredirs b (redir r c q e) s'"
    using g1(1) g2(1) by (subst parseredirs.simps) simp
  then show ?thesis using that g2 by blast
qed

lemma args_done:
  assumes "lexes b s ts" and "stop ts"
  shows "\<exists>s'. parse_args b argc c s = Inr (c, s') \<and> lexes b s' ts"
proof (cases "ts = []")
  case True
  then have "parse_args b argc c s = Inr (c, length b)"
    using lexes_end [of b "skip_ws b s"] lexes_peek [OF assms(1)] assms(1) by (subst parse_args.simps) (simp del: gettoken_skip)
  then show ?thesis using True assms(1) by (auto simp: skip_ws_def)
next
  case False
  then have "parse_args b argc c s = Inr (c, skip_ws b s)"
    using lexes_peek [OF assms(1)] assms(2) by (subst parse_args.simps) (auto simp: stop_def)
  then show ?thesis using assms(1) by simp
qed

text \<open>The rest of \<^verbatim>\<open>parseexec\<close> after \<open>argc\<close> arguments.\<close>

definition exec_rest :: "byte list \<Rightarrow> nat \<Rightarrow> cmd \<Rightarrow> nat \<Rightarrow> (cmd \<times> nat) res" where
  "exec_rest b argc c s = bindR (parseredirs b c s) (\<lambda>(c, s). parse_args b argc c s)"

lemma word_first: "good_word w \<Longrightarrow> hd w \<notin> {0, 124, 40, 41, 59, 38, 60, 62}"
  by (cases w) (auto simp: good_word_def word_char_def symbols_def)

lemma exec_words:
  "lexes b s (map Word ws @ ts) \<Longrightarrow> \<forall>w \<in> set ws. good_word w \<Longrightarrow> length argv + length ws < MAXARGS \<Longrightarrow>
   length eargv = length argv \<Longrightarrow>
   \<exists>argv' eargv' s'. exec_rest b (length argv) (EXEC argv eargv) s = exec_rest b (length argv') (EXEC argv' eargv') s' \<and>
     length eargv' = length argv' \<and> map2 (sub b) argv' eargv' = map2 (sub b) argv eargv @ ws \<and> lexes b s' ts"
proof (induction ws arbitrary: s argv eargv)
  case Nil
  then show ?case by auto
next
  case (Cons w ws)
  have f: "hd w \<notin> {0, 124, 40, 41, 59, 38, 60, 62}" using word_first Cons.prems(2) by simp
  obtain q e s' where g: "gettoken b s = (97, q, e, s')" "sub b q e = w" "lexes b s' (map Word ws @ ts)"
    using lexes_token [of b s "Word w" "map Word ws @ ts"] Cons.prems(1) by (metis append_Cons code.simps(1) list.simps(9) spell.simps(1))
  have p: "peek b (skip_ws b s) cs = (skip_ws b s, hd w \<noteq> 0 \<and> hd w \<in> set cs)" for cs
    using lexes_peek [of b "skip_ws b s" "map Word (w # ws) @ ts" cs] Cons.prems(1) by (simp del: lexes.simps)
  have "parseredirs b (EXEC argv eargv) s = Inr (EXEC argv eargv, skip_ws b s)"
    using redirs_done [OF Cons.prems(1)] f by simp
  then have "exec_rest b (length argv) (EXEC argv eargv) s =
      exec_rest b (length (argv @ [q])) (EXEC (argv @ [q]) (eargv @ [e])) s'"
    using f g(1) p Cons.prems(3) unfolding exec_rest_def by (simp add: parse_args.simps [of b "length argv"])
  moreover have "map2 (sub b) (argv @ [q]) (eargv @ [e]) = map2 (sub b) argv eargv @ [w]"
    using Cons.prems(4) g(2) by simp
  ultimately show ?case
    using Cons.IH [OF g(3), of "argv @ [q]" "eargv @ [e]"] Cons.prems by auto
qed

subsection \<open>More fuel gives the same result\<close>

definition extends :: "parser \<Rightarrow> parser \<Rightarrow> bool" where
  "extends p p' \<longleftrightarrow> (\<forall>b s. p b s \<noteq> Inl Hang \<longrightarrow> p' b s = p b s)"

lemma bind_extends:
  assumes "r \<noteq> Inl Hang \<Longrightarrow> r' = r" and "\<And>x. r = Inr x \<Longrightarrow> f x \<noteq> Inl Hang \<Longrightarrow> g x = f x" and "bindR r f \<noteq> Inl Hang"
  shows "bindR r' g = bindR r f"
  using assms by (cases r) auto

lemma parseline_extends: "extends p p' \<Longrightarrow> extends l l' \<Longrightarrow> extends (parseline p l) (parseline p' l')"
  unfolding extends_def parseline_def
  by (intro allI impI bind_extends) (auto split: prod.splits intro!: bind_extends)

lemma parsepipe_extends: "extends e e' \<Longrightarrow> extends p p' \<Longrightarrow> extends (parsepipe e p) (parsepipe e' p')"
  unfolding extends_def parsepipe_def
  by (intro allI impI bind_extends) (auto split: prod.splits intro!: bind_extends)

lemma parseexec_extends: "extends k k' \<Longrightarrow> extends (parseexec k) (parseexec k')"
  unfolding extends_def parseexec_def by (auto split: prod.splits)

lemma parseblock_extends: "extends l l' \<Longrightarrow> extends (parseblock l) (parseblock l')"
  unfolding extends_def parseblock_def by (auto split: prod.splits intro!: bind_extends)

lemma parse_extends: "extends (parse n k) (parse (Suc n) k)"
proof (induction n arbitrary: k)
  case 0
  show ?case by (simp add: extends_def)
next
  case (Suc n)
  have "extends (grammar (parse n) k) (grammar (parse (Suc n)) k)"
    by (cases k) (simp_all only: grammar.simps parseline_extends parsepipe_extends parseexec_extends parseblock_extends Suc.IH)
  then show ?case by simp
qed

lemma parse_more: "parse n k b s \<noteq> Inl Hang \<Longrightarrow> n \<le> m \<Longrightarrow> parse m k b s = parse n k b s"
proof (induction m)
  case (Suc m)
  show ?case
  proof (cases "n = Suc m")
    case False
    then have "parse m k b s = parse n k b s" using Suc by simp
    then show ?thesis using parse_extends [of m k] Suc.prems(1) by (metis extends_def)
  qed simp
qed simp

lemma parse_max: "parse n k b s = Inr r \<Longrightarrow> parse (max n m) k b s = Inr r" "parse m k b s = Inr r \<Longrightarrow> parse (max n m) k b s = Inr r"
  using parse_more [of n k b s "max n m"] parse_more [of m k b s "max n m"] by simp_all

subsection \<open>The levels of the grammar\<close>

definition parses :: "nonterm \<Rightarrow> byte list \<Rightarrow> nat \<Rightarrow> ast \<Rightarrow> tok list \<Rightarrow> bool" where
  "parses k b s a ts \<longleftrightarrow> (\<exists>n c s'. parse n k b s = Inr (c, s') \<and> words_of b c = a \<and> lexes b s' ts)"

text \<open>\<^verbatim>\<open>parseexec\<close> about to look for redirections of \<open>c\<close>, after which it ends at a token that stops it.\<close>

definition open_exec :: "byte list \<Rightarrow> nat \<Rightarrow> ast \<Rightarrow> tok list \<Rightarrow> bool" where
  "open_exec b s a ts \<longleftrightarrow> (\<exists>n c s' k. parse n Exec b s = bindR (parseredirs b c s') k \<and> words_of b c = a \<and> lexes b s' ts \<and>
     (\<forall>c s ts. lexes b s ts \<longrightarrow> stop ts \<longrightarrow> (\<exists>s'. k (c, s) = Inr (c, s') \<and> lexes b s' ts)))"

text \<open>\<^verbatim>\<open>parseline\<close> in its loop over ampersands.\<close>

definition open_back :: "byte list \<Rightarrow> nat \<Rightarrow> ast \<Rightarrow> tok list \<Rightarrow> bool" where
  "open_back b s a ts \<longleftrightarrow> (\<exists>n c0 s0 c s'. parse n Pipe b s = Inr (c0, s0) \<and> back_loop b c0 s0 = back_loop b c s' \<and>
     words_of b c = a \<and> lexes b s' ts)"

lemma open_words:
  assumes "lexes b s (map Word ws @ ts)" and "wf_ast (ACmd ws)" and "first ts \<noteq> 40"
  shows "open_exec b s (ACmd ws) ts"
proof -
  have f: "first (map Word ws @ ts) \<noteq> 40" using assms(2,3) word_first by (cases ws) auto
  obtain argv eargv s' where e: "exec_rest b 0 (EXEC [] []) (skip_ws b s) = exec_rest b (length argv) (EXEC argv eargv) s'"
      "map2 (sub b) argv eargv = ws" "lexes b s' ts"
    using exec_words [of b "skip_ws b s" ws ts "[]" "[]"] assms(1,2) by auto
  have "parse 1 Exec b s = exec_rest b 0 (EXEC [] []) (skip_ws b s)"
    using lexes_peek [OF assms(1)] f by (simp add: parseexec_def exec_rest_def)
  then have "parse 1 Exec b s = bindR (parseredirs b (EXEC argv eargv) s') (\<lambda>(c, s). parse_args b (length argv) c s)"
    using e(1) by (simp add: exec_rest_def)
  then show ?thesis unfolding open_exec_def
    by (intro exI [of _ 1] exI [of _ "EXEC argv eargv"] exI [of _ s'] exI [of _ "\<lambda>(c, s). parse_args b (length argv) c s"])
      (use e args_done in auto)
qed

lemma open_redir:
  assumes "open_exec b s a (Sym (redir_sym mode fd) # Word f # ts)" and "wf_ast (ARedir a f mode fd)"
  shows "open_exec b s (ARedir a f mode fd) ts"
proof -
  let ?r = "redir_sym mode fd"
  obtain n c s1 k where p: "parse n Exec b s = bindR (parseredirs b c s1) k" "words_of b c = a"
      "lexes b s1 (Sym ?r # Word f # ts)"
      "\<forall>c s ts. lexes b s ts \<longrightarrow> stop ts \<longrightarrow> (\<exists>s'. k (c, s) = Inr (c, s') \<and> lexes b s' ts)"
    using assms(1) unfolding open_exec_def by blast
  have r: "?r \<in> {60, 62, 43}" by (simp add: redir_sym_def)
  obtain q e s2 where q: "parseredirs b c s1 = parseredirs b (redir ?r c q e) s2" "sub b q e = f" "lexes b s2 ts"
    by (rule redirs_step [OF p(3) r])
  have "redir ?r c q e = REDIR c q e mode fd"
    using assms(2) by (auto simp: redir_def redir_sym_def O_RDONLY_def O_WRONLY_def O_CREATE_def O_TRUNC_def)
  then show ?thesis unfolding open_exec_def
    by (intro exI [of _ n] exI [of _ "REDIR c q e mode fd"] exI [of _ s2] exI [of _ k]) (use p q in simp)
qed

lemma close_exec: "open_exec b s a ts \<Longrightarrow> stop ts \<Longrightarrow> parses Exec b s a ts"
proof -
  assume "open_exec b s a ts" and st: "stop ts"
  then obtain n c s1 k where p: "parse n Exec b s = bindR (parseredirs b c s1) k" "words_of b c = a" "lexes b s1 ts"
      "\<exists>s'. k (c, skip_ws b s1) = Inr (c, s') \<and> lexes b s' ts"
    unfolding open_exec_def by (metis lexes_skip)
  have "first ts \<notin> {60, 62}" using st by (auto simp: stop_def)
  then have "parseredirs b c s1 = Inr (c, skip_ws b s1)" by (rule redirs_done [OF p(3)])
  then obtain s' where "parse n Exec b s = Inr (c, s')" "lexes b s' ts" using p(1,4) by auto
  then show ?thesis unfolding parses_def using p(2) by blast
qed

lemma token_of:
  assumes "lexes b s (Sym x # ts)"
  obtains q e s' where "gettoken b s = (x, q, e, s')" "lexes b s' ts"
  using lexes_token [OF assms] by (metis code.simps(2))

lemma pipe_one: "parses Exec b s a ts \<Longrightarrow> first ts \<noteq> 124 \<Longrightarrow> parses Pipe b s a ts"
  unfolding parses_def
proof (elim exE conjE)
  fix n c s' assume p: "parse n Exec b s = Inr (c, s')" "words_of b c = a" "lexes b s' ts" and f: "first ts \<noteq> 124"
  have "parse (Suc n) Pipe b s = Inr (c, skip_ws b s')" using p(1) f lexes_peek [OF p(3)] by (simp add: parsepipe_def)
  then show "\<exists>n c s'. parse n Pipe b s = Inr (c, s') \<and> words_of b c = a \<and> lexes b s' ts" using p lexes_skip by blast
qed

lemma pipe_two:
  assumes "parses Exec b s l (Sym 124 # ts1)" and "\<And>s. lexes b s ts1 \<Longrightarrow> parses Pipe b s r ts"
  shows "parses Pipe b s (APipe l r) ts"
proof -
  obtain n c s1 where p: "parse n Exec b s = Inr (c, s1)" "words_of b c = l" "lexes b s1 (Sym 124 # ts1)"
    using assms(1) unfolding parses_def by blast
  obtain q e s2 where t: "gettoken b s1 = (124, q, e, s2)" "lexes b s2 ts1" by (rule token_of [OF p(3)])
  obtain m d s3 where d: "parse m Pipe b s2 = Inr (d, s3)" "words_of b d = r" "lexes b s3 ts"
    using assms(2) [OF t(2)] unfolding parses_def by blast
  have "parse (Suc (max n m)) Pipe b s = Inr (PIPE c d, s3)"
    using parse_max(1) [OF p(1)] parse_max(2) [OF d(1)] lexes_peek [OF p(3)] t(1) by (simp add: parsepipe_def)
  then show ?thesis unfolding parses_def using p d by (metis words_of.simps(3))
qed

lemma back_none: "parses Pipe b s a ts \<Longrightarrow> open_back b s a ts"
  unfolding parses_def open_back_def by blast

lemma back_one: "open_back b s a (Sym 38 # ts) \<Longrightarrow> open_back b s (ABack a) ts"
  unfolding open_back_def
proof (elim exE conjE)
  fix n c0 s0 c s1
  assume p: "parse n Pipe b s = Inr (c0, s0)" "back_loop b c0 s0 = back_loop b c s1" "words_of b c = a" "lexes b s1 (Sym 38 # ts)"
  obtain q e s2 where t: "gettoken b s1 = (38, q, e, s2)" "lexes b s2 ts" by (rule token_of [OF p(4)])
  have "back_loop b c s1 = back_loop b (BACK c) s2" using lexes_peek [OF p(4)] t(1) by (subst back_loop.simps) simp
  then show "\<exists>n c0 s0 c s'. parse n Pipe b s = Inr (c0, s0) \<and> back_loop b c0 s0 = back_loop b c s' \<and>
     words_of b c = ABack a \<and> lexes b s' ts" using p t(2) by (metis words_of.simps(5))
qed

lemma back_done: "lexes b s ts \<Longrightarrow> first ts \<noteq> 38 \<Longrightarrow> back_loop b c s = (c, skip_ws b s)"
  by (subst back_loop.simps) (simp add: lexes_peek)

lemma line_one: "open_back b s a ts \<Longrightarrow> first ts \<notin> {38, 59} \<Longrightarrow> parses Line b s a ts"
  unfolding open_back_def
proof (elim exE conjE)
  fix n c0 s0 c s1
  assume p: "parse n Pipe b s = Inr (c0, s0)" "back_loop b c0 s0 = back_loop b c s1" "words_of b c = a" "lexes b s1 ts"
    and f: "first ts \<notin> {38, 59}"
  have "parse (Suc n) Line b s = Inr (c, skip_ws b s1)"
    using p(1,2) back_done [OF p(4)] f lexes_peek [of b "skip_ws b s1" ts] p(4) by (simp add: parseline_def)
  then show "parses Line b s a ts" unfolding parses_def using p lexes_skip by blast
qed

lemma line_two:
  assumes "open_back b s l (Sym 59 # ts1)" and "\<And>s. lexes b s ts1 \<Longrightarrow> parses Line b s r ts"
  shows "parses Line b s (AList l r) ts"
proof -
  obtain n c0 s0 c s1 where p: "parse n Pipe b s = Inr (c0, s0)" "back_loop b c0 s0 = back_loop b c s1" "words_of b c = l"
      "lexes b s1 (Sym 59 # ts1)"
    using assms(1) unfolding open_back_def by blast
  obtain q e s2 where t: "gettoken b s1 = (59, q, e, s2)" "lexes b s2 ts1" by (rule token_of [OF p(4)])
  obtain m d s3 where d: "parse m Line b s2 = Inr (d, s3)" "words_of b d = r" "lexes b s3 ts"
    using assms(2) [OF t(2)] unfolding parses_def by blast
  have bk: "back_loop b c0 s0 = (c, skip_ws b s1)" using p(2) back_done [OF p(4)] by simp
  have pk: "peek b (skip_ws b s1) [59] = (skip_ws b s1, True)"
    using lexes_peek [of b "skip_ws b s1" "Sym 59 # ts1" "[59]"] p(4) by (simp del: lexes.simps)
  have "parse (Suc (max n m)) Line b s = Inr (LIST c d, s3)"
    using parse_max(1) [OF p(1)] parse_max(2) [OF d(1)] bk pk t(1) by (simp add: parseline_def)
  then show ?thesis unfolding parses_def using p d by (metis words_of.simps(4))
qed

lemma open_block:
  assumes "lexes b s (Sym 40 # ts1)" and "\<And>s. lexes b s ts1 \<Longrightarrow> parses Line b s a (Sym 41 # ts)"
  shows "open_exec b s a ts"
proof -
  obtain q e s1 where t: "gettoken b s = (40, q, e, s1)" "lexes b s1 ts1" by (rule token_of [OF assms(1)])
  obtain n c s2 where c: "parse n Line b s1 = Inr (c, s2)" "words_of b c = a" "lexes b s2 (Sym 41 # ts)"
    using assms(2) [OF t(2)] unfolding parses_def by blast
  obtain q2 e2 s3 where t2: "gettoken b s2 = (41, q2, e2, s3)" "lexes b s3 ts" by (rule token_of [OF c(3)])
  have pk: "peek b (skip_ws b s) [40] = (skip_ws b s, True)"
    using lexes_peek [of b "skip_ws b s" "Sym 40 # ts1" "[40]"] assms(1) by (simp del: lexes.simps)
  have "parse (Suc (Suc n)) Exec b s = parseredirs b c s3"
    using lexes_peek [OF assms(1)] pk t(1) c(1) lexes_peek [OF c(3)] t2(1) by (simp add: parseexec_def parseblock_def)
  moreover have "parseredirs b c s3 = bindR (parseredirs b c s3) Inr" by (cases "parseredirs b c s3") auto
  ultimately show ?thesis unfolding open_exec_def
    by (intro exI [of _ "Suc (Suc n)"] exI [of _ c] exI [of _ s3] exI [of _ Inr]) (use c t2 in auto)
qed

text \<open>A printed command is read at every level of the grammar, up to a token that stops the level.\<close>

lemma wf_toks: "wf_ast a \<Longrightarrow> t \<in> set (toks a lv) \<Longrightarrow> valid_tok t"
  by (induction a arbitrary: lv) (auto simp: paren_def redir_sym_def split: if_splits)

definition reads :: "byte list \<Rightarrow> ast \<Rightarrow> bool" where
  "reads b a \<longleftrightarrow> (\<forall>s ts.
     (lexes b s (toks a 0 @ ts) \<longrightarrow> stop ts \<or> first ts \<in> {60, 62} \<longrightarrow> open_exec b s a ts) \<and>
     (lexes b s (toks a 1 @ ts) \<longrightarrow> stop ts \<longrightarrow> first ts \<noteq> 124 \<longrightarrow> parses Pipe b s a ts) \<and>
     (lexes b s (toks a 2 @ ts) \<longrightarrow> stop ts \<longrightarrow> first ts \<noteq> 124 \<longrightarrow> open_back b s a ts) \<and>
     (lexes b s (toks a 3 @ ts) \<longrightarrow> stop ts \<longrightarrow> first ts \<notin> {124, 38, 59} \<longrightarrow> parses Line b s a ts))"

lemma readsD:
  assumes "reads b a"
  shows "lexes b s (toks a 0 @ ts) \<Longrightarrow> stop ts \<or> first ts \<in> {60, 62} \<Longrightarrow> open_exec b s a ts"
    "lexes b s (toks a 1 @ ts) \<Longrightarrow> stop ts \<Longrightarrow> first ts \<noteq> 124 \<Longrightarrow> parses Pipe b s a ts"
    "lexes b s (toks a 2 @ ts) \<Longrightarrow> stop ts \<Longrightarrow> first ts \<noteq> 124 \<Longrightarrow> open_back b s a ts"
    "lexes b s (toks a 3 @ ts) \<Longrightarrow> stop ts \<Longrightarrow> first ts \<notin> {124, 38, 59} \<Longrightarrow> parses Line b s a ts"
  using assms unfolding reads_def by blast+

text \<open>Each level gives the levels above it; \<open>n\<close> is the lowest level the command is printed at without parentheses.\<close>

lemma reads_up:
  assumes zero: "\<And>s ts. lexes b s (toks a 0 @ ts) \<Longrightarrow> stop ts \<or> first ts \<in> {60, 62} \<Longrightarrow> open_exec b s a ts"
    and one: "toks a 1 = toks a 0 \<or>
      (\<forall>s ts. lexes b s (toks a 1 @ ts) \<longrightarrow> stop ts \<longrightarrow> first ts \<noteq> 124 \<longrightarrow> parses Pipe b s a ts)"
    and two: "toks a 2 = toks a 1 \<or>
      (\<forall>s ts. lexes b s (toks a 2 @ ts) \<longrightarrow> stop ts \<longrightarrow> first ts \<noteq> 124 \<longrightarrow> open_back b s a ts)"
    and three: "toks a 3 = toks a 2 \<or>
      (\<forall>s ts. lexes b s (toks a 3 @ ts) \<longrightarrow> stop ts \<longrightarrow> first ts \<notin> {124, 38, 59} \<longrightarrow> parses Line b s a ts)"
  shows "reads b a"
proof -
  have 1: "parses Pipe b s a ts" if "lexes b s (toks a 1 @ ts)" "stop ts" "first ts \<noteq> 124" for s ts
    using one that zero [of s ts] pipe_one [OF close_exec] by auto
  have 2: "open_back b s a ts" if "lexes b s (toks a 2 @ ts)" "stop ts" "first ts \<noteq> 124" for s ts
    using two that 1 [of s ts] back_none by auto
  have "parses Line b s a ts" if "lexes b s (toks a 3 @ ts)" "stop ts" "first ts \<notin> {124, 38, 59}" for s ts
    using three that 2 [of s ts] line_one by auto
  then show ?thesis using zero 1 2 by (simp add: reads_def)
qed

lemma reads_paren:
  assumes "toks a 0 = [Sym 40] @ toks a 3 @ [Sym 41]"
    and "\<And>s ts. lexes b s (toks a 3 @ ts) \<Longrightarrow> stop ts \<Longrightarrow> first ts \<notin> {124, 38, 59} \<Longrightarrow> parses Line b s a ts"
    and "lexes b s (toks a 0 @ ts)"
  shows "open_exec b s a ts"
  using open_block [of b s "toks a 3 @ Sym 41 # ts" a ts] assms(2) [of _ "Sym 41 # ts"] assms(1,3) by (simp add: stop_def)

lemma reads_ast: "wf_ast a \<Longrightarrow> reads b a"
proof (induction a)
  case (ACmd ws)
  show ?case by (rule reads_up) (use ACmd open_words [of b _ ws] in \<open>auto simp: stop_def\<close>)
next
  case (ARedir a f mode fd)
  have "first (Sym (redir_sym mode fd) # ts) \<in> {60, 62}" for ts by (simp add: redir_sym_def)
  then have "open_exec b s (ARedir a f mode fd) ts" if "lexes b s (toks (ARedir a f mode fd) 0 @ ts)" for s ts
    using readsD(1) [of b a s "Sym (redir_sym mode fd) # Word f # ts"] that ARedir
    by (intro open_redir) auto
  then show ?case by (intro reads_up) auto
next
  case (APipe l r)
  have l: "reads b l" and r: "reads b r" using APipe by auto
  have p: "parses Pipe b s (APipe l r) ts" if "lexes b s (toks (APipe l r) 1 @ ts)" "stop ts" "first ts \<noteq> 124" for s ts
  proof (rule pipe_two)
    show "parses Exec b s l (Sym 124 # toks r 1 @ ts)"
      using that(1) readsD(1) [OF l] by (intro close_exec) (auto simp: stop_def paren_def)
  qed (use readsD(2) [OF r] that in blast)
  have "parses Line b s (APipe l r) ts" if "lexes b s (toks (APipe l r) 3 @ ts)" "stop ts" "first ts \<notin> {124, 38, 59}" for s ts
    using p [of s ts] that by (intro line_one back_none) (auto simp: paren_def)
  then show ?case
    by (intro reads_up) (use p reads_paren [of "APipe l r" b] in \<open>auto simp: paren_def\<close>)
next
  case (AList l r)
  have l: "reads b l" and r: "reads b r" using AList by auto
  have p: "parses Line b s (AList l r) ts" if "lexes b s (toks (AList l r) 3 @ ts)" "stop ts" "first ts \<notin> {124, 38, 59}" for s ts
  proof (rule line_two)
    show "open_back b s l (Sym 59 # toks r 3 @ ts)"
      using that(1) readsD(3) [OF l] by (auto simp: stop_def paren_def)
  qed (use readsD(4) [OF r] that in blast)
  then show ?case
    by (intro reads_up) (use reads_paren [of "AList l r" b] in \<open>auto simp: paren_def\<close>)
next
  case (ABack a)
  have a: "reads b a" using ABack by auto
  have p: "open_back b s (ABack a) ts" if "lexes b s (toks (ABack a) 2 @ ts)" for s ts
    using that readsD(3) [OF a, of s "Sym 38 # ts"] by (intro back_one) (auto simp: stop_def paren_def)
  have "parses Line b s (ABack a) ts" if "lexes b s (toks (ABack a) 3 @ ts)" "first ts \<notin> {124, 38, 59}" for s ts
    using p [of s ts] that by (intro line_one) (auto simp: paren_def)
  then show ?case
    by (intro reads_up) (use p reads_paren [of "ABack a" b] in \<open>auto simp: paren_def\<close>)
qed

lemma valid_nonzero: "valid_tok t \<Longrightarrow> 0 \<notin> set (spell t)"
  by (cases t) (auto simp: good_word_def)

lemma command_words:
  "args_ok c \<Longrightarrow> \<forall>(q, e) \<in> refs c. cstring b' q = sub b q e \<Longrightarrow> command b' c = words_of b c"
proof (induction c)
  case (EXEC argv eargv)
  have "cstring b' (argv ! i) = sub b (argv ! i) (eargv ! i)" if "i < length argv" for i
  proof -
    have "(argv ! i, eargv ! i) \<in> set (zip argv eargv)" using that EXEC(1) by (force simp: in_set_zip)
    then show ?thesis using EXEC(2) by auto
  qed
  then show ?case using EXEC(1) by (simp add: list_eq_iff_nth_eq)
qed auto

lemma render_parsed:
  assumes "wf_ast a"
  shows "\<exists>c b'. parsecmd (render a) = Inr (c, b') \<and> command b' c = a"
proof -
  let ?b = "render a"
  have "lexes ?b 0 (toks a 3)" using lexes_bytes [of "toks a 3" "[]"] wf_toks [OF assms] by (simp add: render_def)
  then obtain n c s where p: "parse n Line ?b 0 = Inr (c, s)" "words_of ?b c = a" "lexes ?b s []"
    using readsD(4) [OF reads_ast [OF assms], of ?b 0 "[]"] by (auto simp: parses_def stop_def)
  have "parse (4 * length ?b + 3) Line ?b 0 \<noteq> Inl Hang" by (rule parse_enough) simp_all
  then have "parse (4 * length ?b + 3) Line ?b 0 = Inr (c, s)"
    using parse_more [of n Line ?b 0 "max n (4 * length ?b + 3)"] parse_more [of _ Line ?b 0 "max n (4 * length ?b + 3)"] p(1)
    by simp
  then have r: "parsecmd ?b = Inr (c, nulterminate c (?b @ [0]))"
    using p(3) by (simp add: parsecmd_def peek_def Let_def)
  have ok: "cmd_ok ?b c" using keepsD [OF parse_keeps p(1)] by simp
  have "0 \<notin> set ?b" using wf_toks [OF assms, of _ 3] valid_nonzero by (auto simp: render_def bytes_def)
  then have "command (nulterminate c (?b @ [0])) c = words_of ?b c"
    by (intro command_words) (use nul_word [OF ok] ok in \<open>auto simp: cmd_ok_def\<close>)
  then show ?thesis using r p(2) by auto
qed

text \<open>
  C28: Parsing inverts printing. Every command built from at most 9 arguments, redirections, pipes, lists and background
  commands, in any nesting, is read back by \<^verbatim>\<open>parsecmd\<close> from its text, with parentheses where the grammar needs them: the
  structure is the same, and its strings after \<^verbatim>\<open>nulterminate\<close> are the words of the command.
\<close>

theorem parsecmd_render:
  assumes "wf_ast a"
  shows "\<exists>c b'. parsecmd (render a) = Inr (c, b') \<and> command b' c = a"
  using assms by (rule render_parsed)

text \<open>\<^verbatim>\<open>ls < f | ( wc & )\<close>\<close>

definition demo_ast :: ast where
  "demo_ast = APipe (ARedir (ACmd [[108, 115]]) [102] O_RDONLY 0) (ABack (ACmd [[119, 99]]))"

theorem parsecmd_render_witness:
  "wf_ast demo_ast \<and> (\<exists>c b'. parsecmd (render demo_ast) = Inr (c, b') \<and> command b' c = demo_ast)"
proof -
  have "wf_ast demo_ast"
    by (simp add: demo_ast_def MAXARGS_def good_word_def word_char_def whitespace_def symbols_def)
  then show ?thesis using parsecmd_render by blast
qed

end
