(* ===== verification/Sh_Run.thy ===== *)
theory Sh_Run
  imports Sh
begin

text \<open>
  What the shell does with a parsed command: \<^verbatim>\<open>runcmd\<close> and the loop body of \<^verbatim>\<open>main\<close> in \<^verbatim>\<open>user/sh.c\<close>. A program is the
  tree of the system calls it makes, branching on their results; \<^verbatim>\<open>fork\<close> goes on with 0 in the child. Running it on a table
  of descriptors gives the programs that are executed, each with the table it gets. It is proved that every command of a
  pipeline, list or redirection gets exactly the three descriptors it should have.
\<close>

section \<open>Programs\<close>

text \<open>\<open>Fprintf\<close> has the descriptor, the format without its newline, and the string to put in it.\<close>

datatype prog =
    Exit int
  | Close int prog
  | Open "byte list" uint32 "int \<Rightarrow> prog"
  | Dup int prog
  | Pipe2 "int \<Rightarrow> int \<Rightarrow> int \<Rightarrow> prog"
  | Fork "int \<Rightarrow> prog"
  | Wait prog
  | Execv "byte list list" prog
  | Chdir "byte list" "int \<Rightarrow> prog"
  | Fprintf int string "byte list" prog

definition sh_panic :: "string \<Rightarrow> prog" where
  "sh_panic s = Fprintf 2 s [] (Exit 1)"

definition fork1 :: "(int \<Rightarrow> prog) \<Rightarrow> prog" where
  "fork1 f = Fork (\<lambda>pid. if pid = - 1 then sh_panic ''fork'' else f pid)"

text \<open>Strings are read from the line \<open>b\<close> as \<^verbatim>\<open>nulterminate\<close> left it.\<close>

primrec runcmd :: "byte list \<Rightarrow> cmd \<Rightarrow> prog" where
  "runcmd b (EXEC argv eargv) =
     (if argv = [] then Exit 1
      else Execv (map (cstring b) argv) (Fprintf 2 ''exec %s failed'' (cstring b (hd argv)) (Exit 0)))"
| "runcmd b (REDIR c f ef mode fd) =
     Close fd (Open (cstring b f) mode (\<lambda>r.
       if r < 0 then Fprintf 2 ''open %s failed'' (cstring b f) (Exit 1) else runcmd b c))"
| "runcmd b (LIST l r) = fork1 (\<lambda>pid. if pid = 0 then runcmd b l else Wait (runcmd b r))"
| "runcmd b (PIPE l r) =
     Pipe2 (\<lambda>e p0 p1.
       if e < 0 then sh_panic ''pipe''
       else fork1 (\<lambda>pid.
         if pid = 0 then Close 1 (Dup p1 (Close p0 (Close p1 (runcmd b l))))
         else fork1 (\<lambda>pid.
           if pid = 0 then Close 0 (Dup p0 (Close p0 (Close p1 (runcmd b r))))
           else Close p0 (Close p1 (Wait (Wait (Exit 0)))))))"
| "runcmd b (BACK c) = fork1 (\<lambda>pid. if pid = 0 then runcmd b c else Exit 0)"

text \<open>\<^verbatim>\<open>runcmd(parsecmd(cmd))\<close>; an error of the parser is a \<^verbatim>\<open>panic\<close> of the shell, with a message that is left out.\<close>

definition run_line :: "byte list \<Rightarrow> prog" where
  "run_line b = (case parsecmd b of Inl _ \<Rightarrow> sh_panic ''parse'' | Inr (c, b') \<Rightarrow> runcmd b' c)"

text \<open>The body of the loop of \<^verbatim>\<open>main\<close> on a line that was read; \<open>next\<close> is what comes after it.\<close>

definition main_body :: "byte list \<Rightarrow> prog \<Rightarrow> prog" where
  "main_body buf next =
     (let cmd = dropWhile (\<lambda>c. c = 32 \<or> c = 9) buf in
      if take 1 cmd = [10] then next
      else if take 3 cmd = [99, 100, 32]
      then (let cmd = butlast cmd in
            Chdir (drop 3 cmd) (\<lambda>r. if r < 0 then Fprintf 2 ''cannot cd %s'' (drop 3 cmd) next else next))
      else fork1 (\<lambda>pid. if pid = 0 then run_line cmd else Wait next))"

text \<open>
  The loop with which \<^verbatim>\<open>main\<close> makes sure that descriptors 0 to 2 are open. Each round opens one descriptor, so that four
  rounds are enough.
\<close>

definition console_path :: "byte list" where
  "console_path = [99, 111, 110, 115, 111, 108, 101]"

primrec open_console :: "nat \<Rightarrow> prog \<Rightarrow> prog" where
  "open_console 0 next = next"
| "open_console (Suc n) next =
     Open console_path O_RDWR (\<lambda>fd. if fd < 0 then next else if fd \<ge> 3 then Close fd next else open_console n next)"

section \<open>Running\<close>

text \<open>
  What a descriptor stands for: something it was given, a file opened by the shell, or an end of the \<open>k\<close>-th pipe. A table
  has \<^verbatim>\<open>NOFILE\<close> entries and a new descriptor is the lowest free one.
\<close>

datatype 'o obj = Given 'o | Opened "byte list" uint32 | PipeR nat | PipeW nat

type_synonym 'o tab = "'o obj option list"

definition newfd :: "'o tab \<Rightarrow> nat option" where
  "newfd t = find (\<lambda>i. t ! i = None) [0 ..< length t]"

definition close_fd :: "int \<Rightarrow> 'o tab \<Rightarrow> 'o tab" where
  "close_fd fd t = (if 0 \<le> fd then t[nat fd := None] else t)"

definition fd_obj :: "'o tab \<Rightarrow> int \<Rightarrow> 'o obj option" where
  "fd_obj t fd = (if 0 \<le> fd \<and> nat fd < length t then t ! nat fd else None)"

text \<open>
  \<open>opens\<close> and \<open>execs\<close> say which files can be opened and which programs executed; processes and pipes can be made. The
  result is what is executed with its table, and the number of the next pipe.
\<close>

primrec run ::
  "(byte list \<Rightarrow> uint32 \<Rightarrow> bool) \<Rightarrow> (byte list list \<Rightarrow> bool) \<Rightarrow> prog \<Rightarrow> 'o tab \<Rightarrow> nat \<Rightarrow> (byte list list \<times> 'o tab) list \<times> nat"
where
  "run opens execs (Exit st) = (\<lambda>t k. ([], k))"
| "run opens execs (Close fd p) = (\<lambda>t k. run opens execs p (close_fd fd t) k)"
| "run opens execs (Open path mode f) = (\<lambda>t k.
     case (if opens path mode then newfd t else None) of
       None \<Rightarrow> run opens execs (f (- 1)) t k
     | Some i \<Rightarrow> run opens execs (f (int i)) (t[i := Some (Opened path mode)]) k)"
| "run opens execs (Dup fd p) = (\<lambda>t k.
     case (fd_obj t fd, newfd t) of
       (Some x, Some i) \<Rightarrow> run opens execs p (t[i := Some x]) k
     | _ \<Rightarrow> run opens execs p t k)"
| "run opens execs (Pipe2 f) = (\<lambda>t k.
     case newfd t of
       None \<Rightarrow> run opens execs (f (- 1) 0 0) t k
     | Some i \<Rightarrow>
         (case newfd (t[i := Some (PipeR k)]) of
            None \<Rightarrow> run opens execs (f (- 1) 0 0) t k
          | Some j \<Rightarrow> run opens execs (f 0 (int i) (int j)) (t[i := Some (PipeR k), j := Some (PipeW k)]) (Suc k)))"
| "run opens execs (Fork f) = (\<lambda>t k.
     let (xs, k) = run opens execs (f 0) t k; (ys, k) = run opens execs (f 1) t k in (xs @ ys, k))"
| "run opens execs (Wait p) = run opens execs p"
| "run opens execs (Execv argv p) = (\<lambda>t k. if execs argv then ([(argv, t)], k) else run opens execs p t k)"
| "run opens execs (Chdir path f) = run opens execs (f 0)"
| "run opens execs (Fprintf fd fmt x p) = run opens execs p"

section \<open>What a command should do\<close>

text \<open>A table with standard input, output and error only.\<close>

definition std :: "'o obj \<times> 'o obj \<times> 'o obj \<Rightarrow> 'o tab" where
  "std = (\<lambda>(i, o', e). [Some i, Some o', Some e] @ replicate 13 None)"

primrec wires ::
  "(byte list \<Rightarrow> uint32 \<Rightarrow> bool) \<Rightarrow> (byte list list \<Rightarrow> bool) \<Rightarrow> ast \<Rightarrow> 'o obj \<times> 'o obj \<times> 'o obj \<Rightarrow> nat \<Rightarrow>
   (byte list list \<times> 'o obj \<times> 'o obj \<times> 'o obj) list \<times> nat"
where
  "wires opens execs (ACmd ws) = (\<lambda>io k. (if ws \<noteq> [] \<and> execs ws then [(ws, io)] else [], k))"
| "wires opens execs (ARedir a f mode fd) = (\<lambda>(i, o', e) k.
     if \<not> opens f mode then ([], k)
     else if fd = 0 then wires opens execs a (Opened f mode, o', e) k
     else wires opens execs a (i, Opened f mode, e) k)"
| "wires opens execs (APipe l r) = (\<lambda>(i, o', e) k.
     let (xs, k1) = wires opens execs l (i, PipeW k, e) (Suc k);
         (ys, k2) = wires opens execs r (PipeR k, o', e) k1 in (xs @ ys, k2))"
| "wires opens execs (AList l r) = (\<lambda>io k.
     let (xs, k) = wires opens execs l io k; (ys, k) = wires opens execs r io k in (xs @ ys, k))"
| "wires opens execs (ABack a) = wires opens execs a"

section \<open>The shell does it\<close>

lemma std_fds:
  "newfd (std (i, o', e)) = Some 3"
  "newfd ((std (i, o', e))[3 := Some x]) = Some 4"
  "newfd (close_fd 0 (std (i, o', e))) = Some 0"
  "newfd (close_fd 1 (std (i, o', e))) = Some 1"
  by (simp_all add: std_def newfd_def close_fd_def upt_rec numeral_eq_Suc)

lemma std_redir:
  "(close_fd 0 (std (i, o', e)))[0 := Some x] = std (x, o', e)"
  "(close_fd 1 (std (i, o', e)))[Suc 0 := Some x] = std (i, x, e)"
  by (simp_all add: std_def close_fd_def)

lemma open_console_std:
  assumes "opens console_path O_RDWR"
  shows "run opens execs (open_console (4 + n) p) (replicate 16 None) k =
    run opens execs p (std (Opened console_path O_RDWR, Opened console_path O_RDWR, Opened console_path O_RDWR)) k"
  using assms by (simp add: std_def newfd_def close_fd_def upt_rec numeral_eq_Suc)

text \<open>The two children of a pipe: the copy of one end replaces a standard descriptor, and no other end stays open.\<close>

lemma pipe_left:
  "run opens execs (Close 1 (Dup 4 (Close 3 (Close 4 p)))) ((std (i, o', e))[3 := Some x, 4 := Some y]) k =
   run opens execs p (std (i, y, e)) k"
  by (simp add: std_def newfd_def close_fd_def fd_obj_def upt_rec numeral_eq_Suc)

lemma pipe_right:
  "run opens execs (Close 0 (Dup 3 (Close 3 (Close 4 p)))) ((std (i, o', e))[3 := Some x, 4 := Some y]) k =
   run opens execs p (std (x, o', e)) k"
  by (simp add: std_def newfd_def close_fd_def fd_obj_def upt_rec numeral_eq_Suc)

lemma pipe_parent: "run opens execs (Close a (Close b (Wait (Wait (Exit st))))) t k = ([], k)"
  by simp

lemma run_fork1:
  "run opens execs (fork1 f) t k =
   (let (xs, k) = run opens execs (f 0) t k; (ys, k) = run opens execs (f 1) t k in (xs @ ys, k))"
  by (simp add: fork1_def)

lemma run_runcmd:
  "wf_ast (command b c) \<Longrightarrow>
   run opens execs (runcmd b c) (std io) k = map_prod (map (map_prod id std)) id (wires opens execs (command b c) io k)"
proof (induction c arbitrary: io k)
  case (EXEC argv eargv)
  then show ?case by (auto simp: map_prod_def)
next
  case (REDIR c f ef mode fd)
  obtain i o' e where io: "io = (i, o', e)" by (cases io)
  have "fd = 0 \<or> fd = 1" using REDIR.prems by auto
  then show ?case using REDIR by (auto simp: io std_fds std_redir)
next
  case (PIPE l r)
  obtain i o' e where io: "io = (i, o', e)" by (cases io)
  show ?case using PIPE
    by (simp add: io std_fds run_fork1 pipe_left pipe_right pipe_parent Let_def split: prod.splits del: run.simps(2,4))
next
  case (LIST l r)
  then show ?case by (simp add: run_fork1 Let_def split: prod.splits)
next
  case (BACK c)
  then show ?case by (simp add: run_fork1 split: prod.splits)
qed

text \<open>
  C29: The shell runs what the line says. For every command built from words, redirections, pipes, lists and background
  commands, a process with three descriptors that parses and runs its text executes, for each simple command whose files
  can be opened, that program with its arguments and with exactly three descriptors: those it was given, changed by its
  redirections and by the pipe it reads from or writes to. In particular no process keeps another end of a pipe open.
\<close>

theorem run_line_wires:
  assumes "wf_ast a"
  shows "run opens execs (run_line (render a)) (std io) k = map_prod (map (map_prod id std)) id (wires opens execs a io k)"
proof -
  obtain c b' where "parsecmd (render a) = Inr (c, b')" "command b' c = a" using render_parsed [OF assms] by blast
  then show ?thesis using run_runcmd [of b' c opens execs io k] assms by (simp add: run_line_def)
qed

text \<open>\<^verbatim>\<open>ls < f | ( wc & )\<close>, with three given descriptors.\<close>

theorem run_line_wires_witness:
  "run (\<lambda>_ _. True) (\<lambda>_. True) (run_line (render demo_ast)) (std (Given (0 :: nat), Given 1, Given 2)) 0 =
   ([([[108, 115]], std (Opened [102] O_RDONLY, PipeW 0, Given 2)), ([[119, 99]], std (PipeR 0, Given 1, Given 2))], 1)"
proof -
  have "wf_ast demo_ast"
    by (simp add: demo_ast_def MAXARGS_def good_word_def word_char_def whitespace_def symbols_def)
  from run_line_wires [OF this, of "\<lambda>_ _. True" "\<lambda>_. True" "(Given (0 :: nat), Given 1, Given 2)" 0]
  show ?thesis by (simp add: demo_ast_def)
qed

end
