(* ===== verification/Uprogs.thy ===== *)
theory Uprogs
  imports Prelude Fcntl
begin

text \<open>
  The small programs \<^verbatim>\<open>cat.c\<close>, \<^verbatim>\<open>wc.c\<close>, \<^verbatim>\<open>echo.c\<close>, \<^verbatim>\<open>mkdir.c\<close>, \<^verbatim>\<open>rm.c\<close> and \<^verbatim>\<open>ln.c\<close>,
  and how the shell reads a line. The system calls they make are the
  fields of a record over an abstract state; \<open>os_say\<close> prints a message with one string in it. It is proved that \<^verbatim>\<open>cat\<close> copies
  a file and that \<^verbatim>\<open>wc\<close> counts its lines, words and bytes however the calls of \<^verbatim>\<open>read\<close> cut it.
\<close>

section \<open>Programs\<close>

record 's os =
  os_read :: "int \<Rightarrow> nat \<Rightarrow> 's \<Rightarrow> (int \<times> byte list) \<times> 's"
  os_write :: "int \<Rightarrow> byte list \<Rightarrow> 's \<Rightarrow> int \<times> 's"
  os_open :: "byte list \<Rightarrow> uint32 \<Rightarrow> 's \<Rightarrow> int \<times> 's"
  os_close :: "int \<Rightarrow> 's \<Rightarrow> 's"
  os_say :: "int \<Rightarrow> string \<Rightarrow> byte list \<Rightarrow> 's \<Rightarrow> 's"
  os_unlink :: "byte list \<Rightarrow> 's \<Rightarrow> int \<times> 's"
  os_mkdir :: "byte list \<Rightarrow> 's \<Rightarrow> int \<times> 's"
  os_link :: "byte list \<Rightarrow> byte list \<Rightarrow> 's \<Rightarrow> int \<times> 's"

text \<open>A function of a program returns, or ends the program with \<^verbatim>\<open>exit\<close>.\<close>

datatype 'a ended = Return 'a | Exits int

partial_function (option) cat :: "('s, 'z) os_scheme \<Rightarrow> int \<Rightarrow> 's \<Rightarrow> (unit ended \<times> 's) option" where
  "cat sy fd s =
     (let ((n, buf), s) = os_read sy fd 512 s in
      if n > 0
      then
        (let (m, s) = os_write sy 1 buf s in
         if m \<noteq> n then Some (Exits 1, os_say sy 2 ''cat: write error'' [] s) else cat sy fd s)
      else if n < 0 then Some (Exits 1, os_say sy 2 ''cat: read error'' [] s)
      else Some (Return (), s))"

text \<open>The loop over the files named on the command line, which \<^verbatim>\<open>cat\<close> and \<^verbatim>\<open>wc\<close> share.\<close>

primrec each_file ::
  "('s, 'z) os_scheme \<Rightarrow> int \<Rightarrow> string \<Rightarrow> (int \<Rightarrow> byte list \<Rightarrow> 's \<Rightarrow> (unit ended \<times> 's) option) \<Rightarrow> byte list list \<Rightarrow> 's \<Rightarrow>
   (int \<times> 's) option"
where
  "each_file sy err msg f [] s = Some (0, s)"
| "each_file sy err msg f (a # args) s =
     (let (fd, s) = os_open sy a O_RDONLY s in
      if fd < 0 then Some (1, os_say sy err msg a s)
      else
        (case f fd a s of
           None \<Rightarrow> None
         | Some (Exits st, s) \<Rightarrow> Some (st, s)
         | Some (Return u, s) \<Rightarrow> each_file sy err msg f args (os_close sy fd s)))"

definition only :: "(unit ended \<times> 's) option \<Rightarrow> (int \<times> 's) option" where
  "only r = (case r of None \<Rightarrow> None | Some (Exits st, s) \<Rightarrow> Some (st, s) | Some (Return u, s) \<Rightarrow> Some (0, s))"

text \<open>The main functions take the arguments after the name of the program and give the exit status.\<close>

definition cat_main :: "('s, 'z) os_scheme \<Rightarrow> byte list list \<Rightarrow> 's \<Rightarrow> (int \<times> 's) option" where
  "cat_main sy args s =
     (if args = [] then only (cat sy 0 s)
      else each_file sy 2 ''cat: cannot open %s'' (\<lambda>fd a. cat sy fd) args s)"

definition wc_blank :: "byte list" where "wc_blank = [32, 13, 9, 10, 11]"

text \<open>
  \<^verbatim>\<open>strchr(" \r\t\n\v", buf[i])\<close>. The \<^verbatim>\<open>strchr\<close> of \<^verbatim>\<open>ulib.c\<close> stops before the NUL, so that a NUL byte is not blank. The
  counters are lines, words and bytes.
\<close>

definition wc_byte :: "nat \<times> nat \<times> nat \<times> bool \<Rightarrow> byte \<Rightarrow> nat \<times> nat \<times> nat \<times> bool" where
  "wc_byte = (\<lambda>(l, w, c, inword) x.
     (if x = 10 then l + 1 else l,
      if x \<in> set wc_blank then w else if \<not> inword then w + 1 else w,
      c + 1,
      x \<notin> set wc_blank))"

partial_function (option) wc_loop ::
  "('s, 'z) os_scheme \<Rightarrow> int \<Rightarrow> nat \<times> nat \<times> nat \<times> bool \<Rightarrow> 's \<Rightarrow> (int \<times> (nat \<times> nat \<times> nat) \<times> 's) option"
where
  "wc_loop sy fd k s =
     (let ((n, buf), s) = os_read sy fd 512 s in
      if n > 0 then wc_loop sy fd (foldl wc_byte k buf) s
      else Some (n, (fst k, fst (snd k), fst (snd (snd k))), s))"

text \<open>What \<^verbatim>\<open>wc\<close> prints is kept as the numbers and the name, with \<open>out\<close> for the \<^verbatim>\<open>printf\<close> of them.\<close>

definition wc ::
  "('s, 'z) os_scheme \<Rightarrow> (nat \<times> nat \<times> nat \<Rightarrow> byte list \<Rightarrow> 's \<Rightarrow> 's) \<Rightarrow> int \<Rightarrow> byte list \<Rightarrow> 's \<Rightarrow> (unit ended \<times> 's) option"
where
  "wc sy out fd name s =
     (case wc_loop sy fd (0, 0, 0, False) s of
        None \<Rightarrow> None
      | Some (n, lwc, s) \<Rightarrow>
          if n < 0 then Some (Exits 1, os_say sy 1 ''wc: read error'' [] s) else Some (Return (), out lwc name s))"

definition wc_main ::
  "('s, 'z) os_scheme \<Rightarrow> (nat \<times> nat \<times> nat \<Rightarrow> byte list \<Rightarrow> 's \<Rightarrow> 's) \<Rightarrow> byte list list \<Rightarrow> 's \<Rightarrow> (int \<times> 's) option"
where
  "wc_main sy out args s =
     (if args = [] then only (wc sy out 0 [] s)
      else each_file sy 1 ''wc: cannot open %s'' (wc sy out) args s)"

fun echo_args :: "('s, 'z) os_scheme \<Rightarrow> byte list list \<Rightarrow> 's \<Rightarrow> 's" where
  "echo_args sy [] s = s"
| "echo_args sy [a] s = snd (os_write sy 1 [10] (snd (os_write sy 1 a s)))"
| "echo_args sy (a # b # args) s = echo_args sy (b # args) (snd (os_write sy 1 [32] (snd (os_write sy 1 a s))))"

definition echo_main :: "('s, 'z) os_scheme \<Rightarrow> byte list list \<Rightarrow> 's \<Rightarrow> int \<times> 's" where
  "echo_main sy args s = (0, echo_args sy args s)"

text \<open>\<^verbatim>\<open>mkdir\<close> and \<^verbatim>\<open>rm\<close>: one call for each argument, up to the first that fails; the status is 0 all the same.\<close>

primrec until_fails ::
  "('s, 'z) os_scheme \<Rightarrow> string \<Rightarrow> (byte list \<Rightarrow> 's \<Rightarrow> int \<times> 's) \<Rightarrow> byte list list \<Rightarrow> 's \<Rightarrow> 's"
where
  "until_fails sy msg call [] s = s"
| "until_fails sy msg call (a # args) s =
     (let (r, s) = call a s in if r < 0 then os_say sy 2 msg a s else until_fails sy msg call args s)"

definition mkdir_main :: "('s, 'z) os_scheme \<Rightarrow> byte list list \<Rightarrow> 's \<Rightarrow> int \<times> 's" where
  "mkdir_main sy args s =
     (if args = [] then (1, os_say sy 2 ''Usage: mkdir files...'' [] s)
      else (0, until_fails sy ''mkdir: %s failed to create'' (os_mkdir sy) args s))"

definition rm_main :: "('s, 'z) os_scheme \<Rightarrow> byte list list \<Rightarrow> 's \<Rightarrow> int \<times> 's" where
  "rm_main sy args s =
     (if args = [] then (1, os_say sy 2 ''Usage: rm files...'' [] s)
      else (0, until_fails sy ''rm: %s failed to delete'' (os_unlink sy) args s))"

definition ln_main :: "('s, 'z) os_scheme \<Rightarrow> byte list list \<Rightarrow> 's \<Rightarrow> int \<times> 's" where
  "ln_main sy args s =
     (case args of
        [old, new] \<Rightarrow>
          (let (r, s) = os_link sy old new s
           in (0, if r < 0 then os_say sy 2 ''link %s %s: failed'' (old @ [32] @ new) s else s))
      | _ \<Rightarrow> (1, os_say sy 2 ''Usage: ln old new'' [] s))"

text \<open>
  \<^verbatim>\<open>gets\<close> of \<^verbatim>\<open>ulib.c\<close>: the bytes put in the buffer before the NUL. \<open>n\<close> is the room left for them, \<^verbatim>\<open>max\<close> less one at first.
\<close>

primrec gets_loop :: "('s, 'z) os_scheme \<Rightarrow> nat \<Rightarrow> 's \<Rightarrow> byte list \<times> 's" where
  "gets_loop sy 0 s = ([], s)"
| "gets_loop sy (Suc n) s =
     (let ((cc, c), s) = os_read sy 0 1 s in
      if cc < 1 then ([], s)
      else if hd c = 10 \<or> hd c = 13 then ([hd c], s)
      else (let (b, s) = gets_loop sy n s in (hd c # b, s)))"

definition gets :: "('s, 'z) os_scheme \<Rightarrow> nat \<Rightarrow> 's \<Rightarrow> byte list \<times> 's" where
  "gets sy mx s = gets_loop sy (mx - 1) s"

text \<open>\<^verbatim>\<open>getcmd\<close> of \<^verbatim>\<open>sh.c\<close>: the prompt, a line, and -1 if the buffer begins with NUL.\<close>

definition getcmd :: "('s, 'z) os_scheme \<Rightarrow> nat \<Rightarrow> 's \<Rightarrow> int \<times> byte list \<times> 's" where
  "getcmd sy nbuf s =
     (let s = snd (os_write sy 2 [36, 32] s); (buf, s) = gets sy nbuf s
      in (if take 1 (buf @ [0]) = [0] then - 1 else 0, buf, s))"

section \<open>Files\<close>

text \<open>
  A state of remaining input and output. A \<^verbatim>\<open>read\<close> at some input gives at least one byte and at most what is asked for and
  what \<open>ch\<close> allows.
\<close>

definition file_os :: "(byte list \<Rightarrow> nat) \<Rightarrow> (byte list \<times> byte list) os" where
  "file_os ch = \<lparr>
     os_read = (\<lambda>fd k (i, o'). let c = take (max 1 (min k (ch i))) i in ((int (length c), c), drop (length c) i, o')),
     os_write = (\<lambda>fd c (i, o'). (int (length c), i, o' @ c)),
     os_open = (\<lambda>a mode s. (- 1, s)),
     os_close = (\<lambda>fd s. s),
     os_say = (\<lambda>fd m a s. s),
     os_unlink = (\<lambda>a s. (- 1, s)),
     os_mkdir = (\<lambda>a s. (- 1, s)),
     os_link = (\<lambda>a b s. (- 1, s))\<rparr>"

lemma file_read:
  assumes "i \<noteq> []"
  obtains c r where "os_read (file_os ch) fd k (i, o') = ((int (length c), c), r, o')" "i = c @ r" "c \<noteq> []"
proof -
  let ?m = "max 1 (min k (ch i))"
  have "drop (length (take ?m i)) i = drop ?m i" by (simp only: length_take) (simp add: min_def)
  then show thesis using that [of "take ?m i" "drop ?m i"] assms by (simp add: file_os_def Let_def)
qed

lemma file_end: "os_read (file_os ch) fd k ([], o') = ((0, []), [], o')"
  by (simp add: file_os_def Let_def)

lemma file_write: "os_write (file_os ch) fd c (i, o') = (int (length c), i, o' @ c)"
  by (simp add: file_os_def)

lemma cat_copies: "cat (file_os ch) fd (i, o') = Some (Return (), [], o' @ i)"
proof (induction "length i" arbitrary: i o' rule: less_induct)
  case less
  show ?case
  proof (cases "i = []")
    case True
    then show ?thesis by (subst cat.simps) (simp add: file_end)
  next
    case False
    obtain c r where c: "os_read (file_os ch) fd 512 (i, o') = ((int (length c), c), r, o')" "i = c @ r" "c \<noteq> []"
      by (rule file_read [OF False])
    then have "cat (file_os ch) fd (r, o' @ c) = Some (Return (), [], (o' @ c) @ r)" by (intro less) simp
    then show ?thesis using c by (subst cat.simps) (simp add: file_write)
  qed
qed

lemma cat_main_copies: "cat_main (file_os ch) [] (i, o') = Some (0, [], o' @ i)"
  by (simp add: cat_main_def only_def cat_copies)

lemma wc_loop_counts:
  "wc_loop (file_os ch) fd k (i, o') =
   (let (l, w, c, _) = foldl wc_byte k i in Some (0, (l, w, c), [], o'))"
proof (induction "length i" arbitrary: i k rule: less_induct)
  case less
  show ?case
  proof (cases "i = []")
    case True
    then show ?thesis by (subst wc_loop.simps) (simp add: file_end case_prod_beta)
  next
    case False
    obtain c r where c: "os_read (file_os ch) fd 512 (i, o') = ((int (length c), c), r, o')" "i = c @ r" "c \<noteq> []"
      by (rule file_read [OF False])
    then show ?thesis using less [of r "foldl wc_byte k c"] by (subst wc_loop.simps) simp
  qed
qed

text \<open>A word begins at a byte that is not blank, at the start or after a blank.\<close>

fun word_starts :: "bool \<Rightarrow> byte list \<Rightarrow> nat" where
  "word_starts inword [] = 0"
| "word_starts inword (x # xs) =
     (if x \<notin> set wc_blank \<and> \<not> inword then 1 else 0) + word_starts (x \<notin> set wc_blank) xs"

lemma wc_fold:
  "foldl wc_byte (l, w, c, inword) xs =
   (l + count_list xs 10, w + word_starts inword xs, c + length xs, if xs = [] then inword else last xs \<notin> set wc_blank)"
  by (induction xs arbitrary: l w c inword) (simp_all add: wc_byte_def)

lemma wc_counts:
  "wc (file_os ch) out fd name (i, o') =
   Some (Return (), out (count_list i 10, word_starts False i, length i) name ([], o'))"
  by (simp add: wc_def wc_loop_counts wc_fold)

lemma echo_joins: "args \<noteq> [] \<Longrightarrow> echo_args (file_os ch) args (i, o') = (i, o' @ concat (map (\<lambda>a. a @ [32]) (butlast args)) @ last args @ [10])"
  by (induction "file_os ch" args "(i, o')" arbitrary: o' rule: echo_args.induct) (simp_all add: file_write)

text \<open>\<^verbatim>\<open>rm\<close> removes its arguments in order while that works, and then nothing more.\<close>

lemma until_fails_prefix:
  "(\<forall>x s. call x s = (if x \<in> good then (0, s @ [x]) else (- 1, s))) \<Longrightarrow> (\<forall>fd m a s. os_say sy fd m a s = s) \<Longrightarrow>
   until_fails sy msg call args s = s @ takeWhile (\<lambda>x. x \<in> good) args"
  by (induction args arbitrary: s) auto

text \<open>\<^verbatim>\<open>gets\<close> takes a whole line with its newline, when there is room for it, and leaves the rest.\<close>

lemma file_byte: "os_read (file_os ch) fd (Suc 0) (x # i, o') = ((1, [x]), i, o')"
  by (simp add: file_os_def Let_def min_def max_def)

lemma gets_line:
  assumes "\<forall>x \<in> set l. x \<noteq> 10 \<and> x \<noteq> 13" and "length l < n"
  shows "gets_loop (file_os ch) n (l @ 10 # i, o') = (l @ [10], i, o')"
  using assms
proof (induction l arbitrary: n)
  case Nil
  then show ?case by (cases n) (simp_all add: file_byte)
next
  case (Cons x l)
  then obtain m where "n = Suc m" by (cases n) auto
  then show ?case using Cons by (simp add: file_byte)
qed

lemma getcmd_line:
  assumes "\<forall>x \<in> set l. x \<noteq> 10 \<and> x \<noteq> 13 \<and> x \<noteq> 0" and "length l + 1 < nbuf"
  shows "getcmd (file_os ch) nbuf (l @ 10 # i, o') = (0, l @ [10], i, o' @ [36, 32])"
  using assms gets_line [of l "nbuf - 1" ch i "o' @ [36, 32]"] by (cases l) (auto simp: getcmd_def gets_def file_write)

lemma getcmd_end: "0 < nbuf \<Longrightarrow> getcmd (file_os ch) nbuf ([], o') = (- 1, [], [], o' @ [36, 32])"
  by (cases "nbuf - 1") (simp_all add: getcmd_def gets_def file_write file_end)

end
