(* ===== verification/Spec2Isabelle.thy ===== *)
theory Spec2Isabelle
  imports Boot Buddy_Print Slab_Inv Grep Printf Virtio Umalloc Sh_Run Uprogs
begin

text \<open>
  A verification development of the xv6 kernel for RISC-V, in the version that adds a buddy allocator and a slab
  allocator (\<^verbatim>\<open>xv6-riscv-riscv/kernel\<close> and \<^verbatim>\<open>xv6-riscv-riscv/user\<close>).

  \<^bold>\<open>The program.\<close> The kernel takes physical memory in pages (\<^verbatim>\<open>kalloc.c\<close>) and, from a reserved region at the top,
  in runs of blocks (\<^verbatim>\<open>buddy.c\<close>); the slab allocator (\<^verbatim>\<open>slab.c\<close>) cuts such runs into objects for the kernel's own
  structures: buffers, files and pipes come from slab caches. Page tables (\<^verbatim>\<open>vm.c\<close>) map user memory. Processes
  (\<^verbatim>\<open>proc.c\<close>) run on CPUs and wait with \<^verbatim>\<open>sleep\<close> and \<^verbatim>\<open>wakeup\<close> under spin locks (\<^verbatim>\<open>spinlock.c\<close>) and sleep locks
  (\<^verbatim>\<open>sleeplock.c\<close>). The file system is layered: buffer cache (\<^verbatim>\<open>bio.c\<close>), redo log (\<^verbatim>\<open>log.c\<close>), blocks, inodes,
  directories and paths (\<^verbatim>\<open>fs.c\<close>), open files and pipes (\<^verbatim>\<open>file.c\<close>, \<^verbatim>\<open>pipe.c\<close>), system calls (\<^verbatim>\<open>sysfile.c\<close>,
  \<^verbatim>\<open>sysproc.c\<close>, \<^verbatim>\<open>syscall.c\<close>) reached from traps (\<^verbatim>\<open>trap.c\<close>); \<^verbatim>\<open>exec.c\<close> loads programs.

  \<^bold>\<open>The model.\<close> Every C function is a HOL function on an explicit state. The state is a chain of extensible records,
  one per layer, so that a function of one layer runs unchanged on the state of every layer above it:
  \<open>kst\<close> (the locks held), \<open>phys_st\<close> (byte memory and page free list), \<open>buddy_st\<close>, \<open>slab_st\<close>, \<open>proc_st\<close>,
  \<open>sleep_st\<close>, \<open>bio_st\<close>, \<open>log_st\<close>, \<open>fs_st\<close>, \<open>cons_st\<close>, \<open>file_st\<close>, \<open>sys_st\<close>. Machine integers are words of their
  width; C \<^verbatim>\<open>int\<close> is \<open>int\<close>, with overflow an explicit fault where it can happen. A run ends with a value or with a
  \<open>kfail\<close>: \<open>Panic\<close> (the kernel's \<^verbatim>\<open>panic\<close>), \<open>Fault\<close> (undefined behaviour such as a null dereference or an index out of
  bounds), \<open>Hang\<close> (a loop that does not end) or \<open>Block\<close> (a sequential run that would have to sleep). Loops are
  structural or terminating recursions, and \<open>partial_function (option)\<close> where only an invariant bounds them; the
  properties then show that they do return. Fuel is used only in the parser of \<open>Sh\<close>, whose procedures call each other
  and for which four times the length of the input and three is shown to be enough, and in the loop of \<open>Sh_Run\<close> that opens
  the console, for which four rounds are. Linker symbols (\<^verbatim>\<open>end\<close>, \<^verbatim>\<open>trampoline\<close>) are parameters.

  \<^item> \<open>Prelude\<close>: results and errors, words, little-endian loads and stores in byte memory, pointer chains.
  \<^item> \<open>Spinlock\<close>: \<^verbatim>\<open>spinlock.c\<close> on several CPUs as an interleaving step relation, with mutual exclusion and the
    interrupt nesting; the set of held locks used by the other theories is shown to be an abstraction of it.
  \<^item> \<open>Cstring\<close>: \<^verbatim>\<open>string.c\<close> and the string functions of \<^verbatim>\<open>ulib.c\<close> over byte memory.
  \<^item> \<open>Allocator\<close>: the contract of an allocator as a locale, and what every sequence of calls of a client then keeps.
    It is interpreted by \<open>Kalloc\<close> (pages), \<open>Buddy\<close> (runs of blocks), \<open>Slab_Inv\<close> (objects of a cache) and \<open>Umalloc\<close>
    (blocks of a user process).
  \<^item> \<open>Kalloc\<close>: \<^verbatim>\<open>kalloc.c\<close>, a free list threaded through the free pages.
  \<^item> \<open>Buddy_Abs\<close>, \<open>Buddy\<close>: the arithmetic of buddies on block indices, and \<^verbatim>\<open>buddy.c\<close> over byte memory. Safety,
    complete coalescing, when an allocation fails, and two defects of \<^verbatim>\<open>buddy_init\<close>. \<open>Buddy_Print\<close>: its reports.
  \<^item> \<open>Slab\<close>, \<open>Slab_Inv\<close>: \<^verbatim>\<open>slab.c\<close>, and the invariant of a cache: its three slab lists, the free objects of each slab and
    the runs it holds from the buddy allocator.
  \<^item> \<open>Proc_Data\<close>, \<open>Vm\<close>: the process table, and \<^verbatim>\<open>vm.c\<close> with page tables in byte memory.
  \<^item> \<open>Sched\<close>: \<^verbatim>\<open>sleep\<close>, \<^verbatim>\<open>wakeup\<close>, \<^verbatim>\<open>yield\<close>, the scheduler (cut at the context switch) and \<^verbatim>\<open>sleeplock.c\<close>.
  \<^item> \<open>Virtio\<close>: the descriptors and requests of \<^verbatim>\<open>virtio_disk.c\<close>.
  \<^item> \<open>Bio\<close>: \<^verbatim>\<open>bio.c\<close> over an array of disk blocks, the invariant of the cache and the content of a block as seen
    through it.
  \<^item> \<open>Log\<close>: \<^verbatim>\<open>log.c\<close>. The writes of \<^verbatim>\<open>commit\<close> to the disk as a sequence, and recovery from every prefix of it.
  \<^item> \<open>Fs\<close>: \<^verbatim>\<open>fs.c\<close>: block bitmap, inodes, directories, paths, with round trips of the formats on disk.
  \<^item> \<open>Ring\<close>, \<open>Console\<close>, \<open>Pipe\<close>, \<open>File\<close>: circular buffers under wrapping counters; \<^verbatim>\<open>console.c\<close>, shown to be a line
    editor; \<^verbatim>\<open>pipe.c\<close>, shown to be a bounded queue; \<^verbatim>\<open>file.c\<close>.
  \<^item> \<open>Proc\<close>, \<open>Exec\<close>: the rest of \<^verbatim>\<open>proc.c\<close> and \<^verbatim>\<open>exec.c\<close>.
  \<^item> \<open>Sysfile\<close>, \<open>Syscall\<close>: the system calls, their dispatch and the trap handlers.
  \<^item> \<open>Boot\<close>: the kernel's page table, the order of initialisation in \<^verbatim>\<open>main.c\<close>, and the return to user space.
  \<^item> \<open>Printf\<close>: \<^verbatim>\<open>kernel/printf.c\<close> and \<^verbatim>\<open>user/printf.c\<close>: the numerals printed, the two loops over a format, \<^verbatim>\<open>panic\<close>.
  \<^item> \<open>Umalloc\<close>: \<^verbatim>\<open>user/umalloc.c\<close>: the circular list of free blocks over byte memory and the break.
  \<^item> \<open>Fcntl\<close>, \<open>Sh\<close>: \<^verbatim>\<open>fcntl.h\<close>, and the parser of \<^verbatim>\<open>user/sh.c\<close>: every result is well formed, and printed commands are
    read back. \<open>Sh_Run\<close>: what the shell then does, as the tree of its system calls: each command of a line is executed
    with the descriptors that its pipes and redirections ask for and no others.
  \<^item> \<open>Uprogs\<close>: \<^verbatim>\<open>cat.c\<close>, \<^verbatim>\<open>wc.c\<close>, \<^verbatim>\<open>echo.c\<close>, \<^verbatim>\<open>mkdir.c\<close>, \<^verbatim>\<open>rm.c\<close> and \<^verbatim>\<open>ln.c\<close>, and \<^verbatim>\<open>gets\<close> with the
    \<^verbatim>\<open>getcmd\<close> of the shell, over an interface of system calls.
  \<^item> \<open>Grep\<close>: \<^verbatim>\<open>user/grep.c\<close>: the pattern matcher against the language of a pattern, and the loop that prints the
    matching lines.

  \<^bold>\<open>What the theorems show.\<close> Safety of the three allocators of the kernel and of that of user processes from
  initialisation on, over every sequence of calls of a client; atomicity of a transaction across a crash at any point of \<^verbatim>\<open>commit\<close>; mutual exclusion; no lost wakeup;
  the invariant of the buffer cache; pipes as queues; the console as a line editor; the matcher of \<^verbatim>\<open>grep\<close>;
  the shell from the text of a line to the programs it executes and their descriptors; functional correctness and bounds
  of the string and copy functions; round trips of page-table entries, inodes and directory entries; termination of the loops involved.

  \<^bold>\<open>Simplifications.\<close> The structures of the slab allocator, of buffers, files, pipes and processes are kept in one
  store per type, indexed by address, rather than in the bytes of the blocks they occupy; \<open>Slab_Inv\<close> shows that the
  places the slab allocator gives its structures and objects do not overlap. The kernel above the spin locks runs
  one system call at a time, cut where it would sleep.

  \<^bold>\<open>Not modelled.\<close> Register-level device code (\<^verbatim>\<open>uart.c\<close> registers, \<^verbatim>\<open>plic.c\<close>, \<^verbatim>\<open>virtio_disk.c\<close> initialisation of
  the device) and the assembly files (\<^verbatim>\<open>entry.S\<close>, \<^verbatim>\<open>swtch.S\<close>, \<^verbatim>\<open>trampoline.S\<close>, \<^verbatim>\<open>kernelvec.S\<close>), whose meaning is that of
  the hardware; \<^verbatim>\<open>start.c\<close>, which only sets control registers; the hardware
  page-table walk; the test programs (\<^verbatim>\<open>usertests.c\<close>, \<^verbatim>\<open>grind.c\<close>, \<^verbatim>\<open>slabtest.c\<close>, \<^verbatim>\<open>forktest.c\<close>, \<^verbatim>\<open>stressfs.c\<close>,
  \<^verbatim>\<open>buddy_test.c\<close>, \<^verbatim>\<open>slab_boot_test.c\<close> and others), which only call the code under test; and the compiler
  probe \<^verbatim>\<open>CMakeCCompilerId.c\<close>, which the build generates. The
  other small user programs (\<^verbatim>\<open>ls.c\<close>, \<^verbatim>\<open>init.c\<close>, \<^verbatim>\<open>kill.c\<close>, \<^verbatim>\<open>zombie.c\<close>) are left out: no part of the kernel depends on them.
\<close>

end
